(* ===== verification/Prelude.thy ===== *)
theory Prelude
  imports Main "HOL-Library.Multiset" "HOL-Library.Word"
begin

text \<open>
  Shared material of the development: the fact collections, reachability and
  runs of labelled transition functions with the invariant rule as a locale, weighted
  counts over a list of threads, and a few lemmas on list updates and options that the
  component theories use.
\<close>

section \<open>Fact collections\<close>

named_theorems model_defs \<open>definitions of the atomic actions of the concurrent models\<close>
named_theorems weight_simps \<open>weights of program counters\<close>

section \<open>Reachability and runs\<close>

inductive reach :: "('s \<Rightarrow> bool) \<Rightarrow> ('s \<Rightarrow> 's \<Rightarrow> bool) \<Rightarrow> 's \<Rightarrow> bool"
  for I :: "'s \<Rightarrow> bool" and R :: "'s \<Rightarrow> 's \<Rightarrow> bool" where
  reach_init: "I s \<Longrightarrow> reach I R s"
| reach_step: "reach I R s \<Longrightarrow> R s t \<Longrightarrow> reach I R t"

text \<open>
  A labelled transition function \<open>f\<close> takes a label (who moves, and what the
  environment chooses) and a state; \<open>None\<close> says that the label is not enabled.
\<close>

fun run :: "('l \<Rightarrow> 's \<Rightarrow> 's option) \<Rightarrow> 'l list \<Rightarrow> 's \<Rightarrow> 's option" where
  "run f [] s = Some s"
| "run f (l # ls) s = (case f l s of None \<Rightarrow> None | Some t \<Rightarrow> run f ls t)"

definition lstep :: "('l \<Rightarrow> 's \<Rightarrow> 's option) \<Rightarrow> 's \<Rightarrow> 's \<Rightarrow> bool" where
  "lstep f s t \<longleftrightarrow> (\<exists>l. f l s = Some t)"

lemma lstepI: "f l s = Some t \<Longrightarrow> lstep f s t"
  by (auto simp: lstep_def)

lemma run_append: "run f (ks @ ls) s = (case run f ks s of None \<Rightarrow> None | Some t \<Rightarrow> run f ls t)"
  by (induction ks arbitrary: s) (auto split: option.splits)

lemma run_reach: "reach I (lstep f) s \<Longrightarrow> run f ls s = Some t \<Longrightarrow> reach I (lstep f) t"
proof (induction ls arbitrary: s)
  case Nil
  then show ?case by simp
next
  case (Cons l ls)
  then obtain u where u: "f l s = Some u" "run f ls u = Some t"
    by (auto split: option.splits)
  then have "lstep f s u" by (auto simp: lstep_def)
  with Cons.prems(1) have "reach I (lstep f) u" by (rule reach_step)
  from this u(2) show ?case by (rule Cons.IH)
qed

text \<open>For the concrete runs of the examples.\<close>

lemma run_the_reach: "I s \<Longrightarrow> run f ls s \<noteq> None \<Longrightarrow> reach I (lstep f) (the (run f ls s))"
  by (auto intro: run_reach reach_init)

text \<open>The invariant rule, once for every transition system.\<close>

locale inv_system =
  fixes I :: "'s \<Rightarrow> bool" and R :: "'s \<Rightarrow> 's \<Rightarrow> bool" and P :: "'s \<Rightarrow> bool"
  assumes holds_init: "I s \<Longrightarrow> P s"
    and holds_step: "P s \<Longrightarrow> R s t \<Longrightarrow> P t"
begin

lemma holds_reach: "reach I R s \<Longrightarrow> P s"
  by (induction rule: reach.induct) (auto intro: holds_init holds_step)

end

section \<open>Weighted counts over a list of threads\<close>

definition weight :: "('p \<Rightarrow> nat) \<Rightarrow> 'p list \<Rightarrow> nat" where
  "weight w ps = sum_list (map w ps)"

lemma weight_Nil [simp]: "weight w [] = 0"
  by (simp add: weight_def)

lemma weight_Cons [simp]: "weight w (p # ps) = w p + weight w ps"
  by (simp add: weight_def)

lemma weight_append [simp]: "weight w (ps @ qs) = weight w ps + weight w qs"
  by (simp add: weight_def)

lemma weight_update: "i < length ps \<Longrightarrow> weight w (ps[i := q]) + w (ps ! i) = weight w ps + w q"
  by (induction ps arbitrary: i) (auto split: nat.splits)

lemma weight_ge: "i < length ps \<Longrightarrow> w (ps ! i) \<le> weight w ps"
  by (induction ps arbitrary: i) (auto simp: nth_Cons split: nat.splits intro: trans_le_add2)

lemma weight_ge2:
  assumes "i < length ps" "j < length ps" "i \<noteq> j"
  shows "w (ps ! i) + w (ps ! j) \<le> weight w ps"
  using assms
proof (induction ps arbitrary: i j)
  case Nil
  then show ?case by simp
next
  case (Cons p ps)
  show ?case
  proof (cases i)
    case 0
    with Cons.prems obtain k where k: "j = Suc k" by (cases j) auto
    with Cons.prems have "k < length ps" by simp
    then have "w (ps ! k) \<le> weight w ps" by (rule weight_ge)
    with 0 k show ?thesis by simp
  next
    case (Suc m)
    show ?thesis
    proof (cases j)
      case 0
      from Suc Cons.prems have "w (ps ! m) \<le> weight w ps" by (intro weight_ge) simp
      with 0 Suc show ?thesis by simp
    next
      case (Suc k)
      with \<open>i = Suc m\<close> Cons.prems have "w (ps ! m) + w (ps ! k) \<le> weight w ps"
        by (intro Cons.IH) auto
      with Suc \<open>i = Suc m\<close> show ?thesis by simp
    qed
  qed
qed

lemma weight_zero_iff: "weight w ps = 0 \<longleftrightarrow> (\<forall>p \<in> set ps. w p = 0)"
  by (induction ps) auto

lemma weight_pos_iff: "0 < weight w ps \<longleftrightarrow> (\<exists>p \<in> set ps. 0 < w p)"
  by (induction ps) auto

lemma weight_le_length: "(\<And>p. w p \<le> 1) \<Longrightarrow> weight w ps \<le> length ps"
proof (induction ps)
  case (Cons p ps)
  from Cons.prems [of p] Cons.IH [OF Cons.prems] show ?case by simp
qed simp

section \<open>What the threads of a list hold\<close>

definition held :: "('p \<Rightarrow> 'a list) \<Rightarrow> 'p list \<Rightarrow> 'a multiset" where
  "held f ps = (\<Sum>p\<leftarrow>ps. mset (f p))"

lemma held_Nil [simp]: "held f [] = {#}"
  by (simp add: held_def)

lemma held_Cons [simp]: "held f (p # ps) = mset (f p) + held f ps"
  by (simp add: held_def)

lemma held_append [simp]: "held f (ps @ qs) = held f ps + held f qs"
  by (simp add: held_def)

lemma held_empty: "(\<And>p. p \<in> set ps \<Longrightarrow> f p = []) \<Longrightarrow> held f ps = {#}"
  by (induction ps) auto

lemma held_update: "i < length ps \<Longrightarrow> held f (ps[i := q]) + mset (f (ps ! i)) = held f ps + mset (f q)"
  by (induction ps arbitrary: i) (auto split: nat.splits simp: ac_simps)

section \<open>Lists\<close>

lemma mset_insert_between:
  "mset (takeWhile P xs @ x # dropWhile P xs) = add_mset x (mset xs)"
proof -
  have "mset (takeWhile P xs) + mset (dropWhile P xs) = mset xs"
    by (metis mset_append takeWhile_dropWhile_id)
  then show ?thesis by simp
qed

section \<open>Sorting by distinct keys\<close>

lemma sort_key_unique:
  assumes "distinct (map f xs)" "mset ys = mset xs" "sorted (map f ys)"
  shows "sort_key f xs = ys"
proof (rule map_sorted_distinct_set_unique [where f = f])
  have set_eq: "set ys = set xs" using assms(2) by (rule mset_eq_setD)
  show "inj_on f (set (sort_key f xs) \<union> set ys)"
    using assms(1) set_eq by (simp add: distinct_map)
  have "mset (map f ys) = mset (map f xs)" using assms(2) by simp
  then show "distinct (map f ys)" using assms(1) by (metis mset_eq_imp_distinct_iff)
  have "mset (map f (sort_key f xs)) = mset (map f xs)" by simp
  then show "distinct (map f (sort_key f xs))" using assms(1) by (metis mset_eq_imp_distinct_iff)
  show "set (sort_key f xs) = set ys" using set_eq by simp
qed (use assms in simp_all)

lemma sort_key_perm:
  assumes "mset xs = mset ys" "distinct (map f xs)"
  shows "sort_key f xs = sort_key f ys"
  by (rule sort_key_unique) (use assms in simp_all)

end
