(* ===== verification/Core_Task.thy ===== *)
theory Core_Task
  imports Prelude
begin

text \<open>
  The data of \<^verbatim>\<open>core/task.go\<close> and the queue item of \<^verbatim>\<open>core/queue.go\<close>.
  A task is a Go closure; its type is the parameter \<open>'t\<close>, so that every statement holds
  for every representation of closures. A \<^verbatim>\<open>TaskID\<close> is a UUID of 16 bytes; the
  generator \<^verbatim>\<open>uuid.New\<close> is third-party code, so operations that draw an identifier
  take the drawn value as an argument.
\<close>

type_synonym TaskID = "128 word"

definition TaskID_IsZero :: "TaskID \<Rightarrow> bool" where
  "TaskID_IsZero i \<longleftrightarrow> i = 0"

text \<open>\<^verbatim>\<open>TaskPriority\<close> is a Go \<^verbatim>\<open>int\<close> that is only ever compared.\<close>

type_synonym TaskPriority = int

definition TaskPriorityBestEffort :: TaskPriority where
  "TaskPriorityBestEffort = 0"

definition TaskPriorityUserVisible :: TaskPriority where
  "TaskPriorityUserVisible = 1"

definition TaskPriorityUserBlocking :: TaskPriority where
  "TaskPriorityUserBlocking = 2"

record TaskTraits =
  Priority :: TaskPriority

definition DefaultTaskTraits :: TaskTraits where
  "DefaultTaskTraits = \<lparr>Priority = TaskPriorityUserVisible\<rparr>"

definition TraitsUserBlocking :: TaskTraits where
  "TraitsUserBlocking = \<lparr>Priority = TaskPriorityUserBlocking\<rparr>"

definition TraitsBestEffort :: TaskTraits where
  "TraitsBestEffort = \<lparr>Priority = TaskPriorityBestEffort\<rparr>"

definition TraitsUserVisible :: TaskTraits where
  "TraitsUserVisible = \<lparr>Priority = TaskPriorityUserVisible\<rparr>"

lemmas traits_defs =
  DefaultTaskTraits_def TraitsUserBlocking_def TraitsBestEffort_def TraitsUserVisible_def
  TaskPriorityBestEffort_def TaskPriorityUserVisible_def TaskPriorityUserBlocking_def

record 't TaskItem =
  Task :: 't
  Traits :: TaskTraits
  ID :: TaskID

abbreviation item_priority :: "'t TaskItem \<Rightarrow> TaskPriority" where
  "item_priority x \<equiv> Priority (Traits x)"

text \<open>The observability records of \<^verbatim>\<open>core/observability.go\<close>.\<close>

record RunnerStats =
  rs_Name :: string
  rs_Type :: string
  rs_Pending :: nat
  rs_Running :: int
  rs_Rejected :: int
  rs_Closed :: bool
  rs_BarrierPending :: bool

record PoolStats =
  stats_ID :: string
  stats_Workers :: int
  stats_Queued :: int
  stats_Active :: int
  stats_Delayed :: nat
  stats_Running :: bool

end
