(* ===== verification/Task_Queue_Spec.thy ===== *)
theory Task_Queue_Spec
  imports Core_Task
begin

text \<open>
  The interface \<^verbatim>\<open>TaskQueue\<close> of \<^verbatim>\<open>core/queue.go\<close> as a locale. A queue is
  described by its \<open>contents\<close>, the items in the order in which \<^verbatim>\<open>Pop\<close> will hand them
  out; \<open>enq\<close> says where a pushed item lands in that order. \<open>room\<close> is the side
  condition under which a push keeps the order (a sequence number that does not wrap).
  Client lemmas about several operations are proved here once; the FIFO queue, the
  priority queue and the dynamically dispatched queue interpret the locale.
\<close>

section \<open>Where a pushed item lands\<close>

text \<open>The last place for a FIFO queue; behind the items of the same or a higher priority for a
  stable priority queue.\<close>

definition fifo_insert :: "'t TaskItem \<Rightarrow> 't TaskItem list \<Rightarrow> 't TaskItem list" where
  "fifo_insert x xs = xs @ [x]"

definition stable_insert :: "'t TaskItem \<Rightarrow> 't TaskItem list \<Rightarrow> 't TaskItem list" where
  "stable_insert x xs =
     takeWhile (\<lambda>y. item_priority x \<le> item_priority y) xs @ x #
     dropWhile (\<lambda>y. item_priority x \<le> item_priority y) xs"

lemma mset_fifo_insert [simp]: "mset (fifo_insert x xs) = add_mset x (mset xs)"
  by (simp add: fifo_insert_def)

lemma mset_stable_insert [simp]: "mset (stable_insert x xs) = add_mset x (mset xs)"
  unfolding stable_insert_def by (rule mset_insert_between)

text \<open>Inserting one item after the other is a stable sort by descending priority.\<close>

abbreviation desc_priority :: "'t TaskItem \<Rightarrow> int" where
  "desc_priority x \<equiv> - item_priority x"

lemma set_stable_insert [simp]: "set (stable_insert x xs) = insert x (set xs)"
  by (metis mset_stable_insert set_mset_add_mset_insert set_mset_mset)

lemma sorted_stable_insert:
  "sorted (map desc_priority xs) \<Longrightarrow> sorted (map desc_priority (stable_insert x xs))"
  by (induction xs) (auto simp: stable_insert_def dest: set_takeWhileD set_dropWhileD)

lemma filter_stable_insert:
  "sorted (map desc_priority xs) \<Longrightarrow>
   filter (\<lambda>y. k = desc_priority y) (stable_insert x xs) =
     filter (\<lambda>y. k = desc_priority y) xs @ (if k = desc_priority x then [x] else [])"
proof (induction xs)
  case Nil
  then show ?case by (simp add: stable_insert_def)
next
  case (Cons y ys)
  show ?case
  proof (cases "item_priority x \<le> item_priority y")
    case True
    then have "stable_insert x (y # ys) = y # stable_insert x ys" by (simp add: stable_insert_def)
    moreover have "filter (\<lambda>y. k = desc_priority y) (stable_insert x ys) =
        filter (\<lambda>y. k = desc_priority y) ys @ (if k = desc_priority x then [x] else [])"
      using Cons by simp
    ultimately show ?thesis
      by (cases "k = desc_priority y") (simp_all only: filter.simps if_True if_False append_Cons refl)
  next
    case False
    then have low: "\<forall>z \<in> set (y # ys). desc_priority z \<noteq> desc_priority x"
      using Cons.prems by fastforce
    have "stable_insert x (y # ys) = x # y # ys" using False by (simp add: stable_insert_def)
    moreover have "k = desc_priority x \<Longrightarrow> filter (\<lambda>y. k = desc_priority y) (y # ys) = []"
      using low by (intro filter_False) metis
    ultimately show ?thesis by (cases "k = desc_priority x") (simp_all only: filter.simps if_True if_False append_Nil append_Nil2 refl simp_thms)
  qed
qed

lemma fold_stable_insert_sorted:
  "sorted (map desc_priority xs) \<Longrightarrow> sorted (map desc_priority (fold stable_insert ys xs))"
  by (induction ys arbitrary: xs) (simp_all add: sorted_stable_insert)

lemma fold_stable_insert_filter:
  "sorted (map desc_priority xs) \<Longrightarrow>
   filter (\<lambda>y. k = desc_priority y) (fold stable_insert ys xs) = filter (\<lambda>y. k = desc_priority y) (xs @ ys)"
  by (induction ys arbitrary: xs) (simp_all add: sorted_stable_insert filter_stable_insert)

lemma mset_fold_stable_insert: "mset (fold stable_insert ys xs) = mset xs + mset ys"
  by (induction ys arbitrary: xs) simp_all

lemma fold_stable_insert_is_sort: "fold stable_insert ys [] = sort_key desc_priority ys"
proof (rule sym, rule properties_for_sort_key)
  show "mset (fold stable_insert ys []) = mset ys" by (simp add: mset_fold_stable_insert)
  show "filter (\<lambda>x. desc_priority k = desc_priority x) (fold stable_insert ys []) =
      filter (\<lambda>x. desc_priority k = desc_priority x) ys" for k
    using fold_stable_insert_filter [of "[]" "desc_priority k" ys] by simp
  show "sorted (map desc_priority (fold stable_insert ys []))"
    by (simp add: fold_stable_insert_sorted)
qed

section \<open>The interface\<close>

locale task_queue =
  fixes invar :: "'q \<Rightarrow> bool"
    and room :: "'q \<Rightarrow> bool"
    and contents :: "'q \<Rightarrow> 't TaskItem list"
    and enq :: "'t TaskItem \<Rightarrow> 't TaskItem list \<Rightarrow> 't TaskItem list"
    and push :: "TaskID \<Rightarrow> 't \<Rightarrow> TaskTraits \<Rightarrow> 'q \<Rightarrow> 'q"
    and pop :: "'q \<Rightarrow> 't TaskItem option \<times> 'q"
    and peek :: "'q \<Rightarrow> TaskTraits option"
    and len :: "'q \<Rightarrow> nat"
    and clear :: "'q \<Rightarrow> 'q"
  assumes mset_enq: "mset (enq x xs) = add_mset x (mset xs)"
    and contents_push: "invar q \<Longrightarrow> room q \<Longrightarrow>
      contents (push i t tr q) = enq \<lparr>Task = t, Traits = tr, ID = i\<rparr> (contents q)"
    and invar_push: "invar q \<Longrightarrow> room q \<Longrightarrow> invar (push i t tr q)"
    and pop_empty: "invar q \<Longrightarrow> contents q = [] \<Longrightarrow> pop q = (None, q)"
    and pop_Cons: "invar q \<Longrightarrow> contents q = x # xs \<Longrightarrow>
      \<exists>q'. pop q = (Some x, q') \<and> contents q' = xs \<and> invar q'"
    and peek_eq: "invar q \<Longrightarrow> peek q = map_option Traits (case contents q of [] \<Rightarrow> None | x # _ \<Rightarrow> Some x)"
    and len_eq: "invar q \<Longrightarrow> len q = length (contents q)"
    and contents_clear: "contents (clear q) = []"
    and invar_clear: "invar (clear q)"
begin

fun pops :: "nat \<Rightarrow> 'q \<Rightarrow> 't TaskItem list \<times> 'q" where
  "pops 0 q = ([], q)"
| "pops (Suc n) q =
     (case pop q of
        (None, q') \<Rightarrow> ([], q')
      | (Some x, q') \<Rightarrow> let (xs, q'') = pops n q' in (x # xs, q''))"

text \<open>Popping \<open>n\<close> times hands out the first \<open>n\<close> items in order and leaves the rest.\<close>

lemma pops_contents:
  "invar q \<Longrightarrow> \<exists>q'. pops n q = (take n (contents q), q') \<and> contents q' = drop n (contents q) \<and> invar q'"
proof (induction n arbitrary: q)
  case 0
  then show ?case by simp
next
  case (Suc n)
  show ?case
  proof (cases "contents q")
    case Nil
    with Suc.prems show ?thesis by (simp add: pop_empty)
  next
    case (Cons x xs)
    from pop_Cons [OF Suc.prems Cons] obtain q1
      where q1: "pop q = (Some x, q1)" "contents q1 = xs" "invar q1" by blast
    from Suc.IH [OF q1(3)] q1(2) obtain q2
      where "pops n q1 = (take n xs, q2)" "contents q2 = drop n xs" "invar q2" by auto
    with q1 Cons show ?thesis by simp
  qed
qed

lemma pop_conserves:
  assumes "invar q" "pop q = (Some x, q')"
  shows "mset (contents q) = add_mset x (mset (contents q'))" "invar q'"
proof -
  from assms obtain y ys where c: "contents q = y # ys"
    by (cases "contents q") (auto simp: pop_empty)
  from pop_Cons [OF assms(1) c] assms(2) c
  show "mset (contents q) = add_mset x (mset (contents q'))" "invar q'" by auto
qed

lemma pop_None_iff: "invar q \<Longrightarrow> fst (pop q) = None \<longleftrightarrow> contents q = []"
  using pop_Cons [of q] by (cases "contents q") (auto simp: pop_empty)

lemma push_conserves:
  "invar q \<Longrightarrow> room q \<Longrightarrow>
   mset (contents (push i t tr q)) = add_mset \<lparr>Task = t, Traits = tr, ID = i\<rparr> (mset (contents q))"
  by (simp add: contents_push mset_enq)

lemma len_push: "invar q \<Longrightarrow> room q \<Longrightarrow> len (push i t tr q) = Suc (len q)"
  using push_conserves [of q i t tr] invar_push [of q i t tr]
  by (metis len_eq size_add_mset size_mset)

lemma len_pop: "invar q \<Longrightarrow> pop q = (Some x, q') \<Longrightarrow> len q = Suc (len q')"
  using pop_conserves [of q x q'] by (metis len_eq size_add_mset size_mset)

end

section \<open>The bag view\<close>

text \<open>
  What a client relies on that does not care about the order: every operation conserves the
  multiset of items, and a pop fails only on an empty queue. This contract needs no room for
  sequence numbers, so it holds of the priority queue even after its counter has wrapped.
\<close>

locale task_bag =
  fixes invar :: "'q \<Rightarrow> bool"
    and items :: "'q \<Rightarrow> 't TaskItem list"
    and push :: "TaskID \<Rightarrow> 't \<Rightarrow> TaskTraits \<Rightarrow> 'q \<Rightarrow> 'q"
    and pop :: "'q \<Rightarrow> 't TaskItem option \<times> 'q"
    and clear :: "'q \<Rightarrow> 'q"
  assumes bag_push: "invar q \<Longrightarrow>
      invar (push i t tr q) \<and> mset (items (push i t tr q)) = add_mset \<lparr>Task = t, Traits = tr, ID = i\<rparr> (mset (items q))"
    and bag_pop_empty: "invar q \<Longrightarrow> items q = [] \<Longrightarrow> pop q = (None, q)"
    and bag_pop: "invar q \<Longrightarrow> items q \<noteq> [] \<Longrightarrow>
      \<exists>x q'. pop q = (Some x, q') \<and> invar q' \<and> mset (items q) = add_mset x (mset (items q'))"
    and bag_clear: "invar (clear q) \<and> items (clear q) = []"
begin

lemma bag_pop_cases:
  assumes "invar q"
  obtains "items q = []" "pop q = (None, q)"
  | x q' where "pop q = (Some x, q')" "invar q'" "mset (items q) = add_mset x (mset (items q'))"
      "length (items q) = Suc (length (items q'))"
proof (cases "items q = []")
  case True
  with assms show thesis by (intro that(1)) (auto simp: bag_pop_empty)
next
  case False
  from bag_pop [OF assms False] obtain x q' where x: "pop q = (Some x, q')" "invar q'"
    "mset (items q) = add_mset x (mset (items q'))" by blast
  moreover from x(3) have "length (items q) = Suc (length (items q'))"
    by (metis size_add_mset size_mset)
  ultimately show thesis by (rule that(2))
qed

lemma bag_push_length: "invar q \<Longrightarrow> length (items (push i t tr q)) = Suc (length (items q))"
  using bag_push [of q i t tr] by (metis size_add_mset size_mset)

end

end
