(* ===== verification/Fifo_Queue.thy ===== *)
theory Fifo_Queue
  imports Task_Queue_Spec
begin

text \<open>
  \<^verbatim>\<open>FIFOTaskQueue\<close> of \<^verbatim>\<open>core/queue.go\<close>, on an explicit memory of backing arrays.
  A Go slice is a window (array, offset, length, capacity) into a backing array, and
  several slices may share one: \<^verbatim>\<open>PopUpTo\<close> hands its caller such a slice. A cell is
  \<open>None\<close> where the code stores the zero \<^verbatim>\<open>TaskItem{}\<close>. Every operation runs under the
  queue's mutex, so it is one function on the state. The theory shows that the queue is a
  FIFO queue in the sense of \<open>Task_Queue_Spec\<close>, that compaction never changes
  its contents, and which batches of \<^verbatim>\<open>PopUpTo\<close> stay intact under later operations.
\<close>

section \<open>Slices\<close>

record slice =
  s_arr :: nat
  s_off :: nat
  s_len :: nat
  s_cap :: nat

type_synonym 't cell = "'t TaskItem option"
type_synonym 't memory = "'t cell list list"

definition slice_read :: "'t memory \<Rightarrow> slice \<Rightarrow> 't cell list" where
  "slice_read m s = take (s_len s) (drop (s_off s) (m ! s_arr s))"

definition slice_write :: "slice \<Rightarrow> nat \<Rightarrow> 't cell \<Rightarrow> 't memory \<Rightarrow> 't memory" where
  "slice_write s i c m = m[s_arr s := (m ! s_arr s)[s_off s + i := c]]"

fun slice_write_all :: "slice \<Rightarrow> nat \<Rightarrow> 't cell list \<Rightarrow> 't memory \<Rightarrow> 't memory" where
  "slice_write_all s i [] m = m"
| "slice_write_all s i (c # cs) m = slice_write_all s (Suc i) cs (slice_write s i c m)"

text \<open>\<^verbatim>\<open>make([]TaskItem, n, c)\<close>: a fresh array of \<open>c\<close> zero items.\<close>

definition make_slice :: "nat \<Rightarrow> nat \<Rightarrow> 't memory \<Rightarrow> slice \<times> 't memory" where
  "make_slice n c m = (\<lparr>s_arr = length m, s_off = 0, s_len = n, s_cap = c\<rparr>, m @ [replicate c None])"

text \<open>
  The built-in \<^verbatim>\<open>append\<close>: in place while the capacity lasts, otherwise into a new array
  that is large enough. How much larger is the runtime's choice, the parameter \<open>grow\<close>.
\<close>

definition slice_append :: "(nat \<Rightarrow> nat) \<Rightarrow> slice \<Rightarrow> 't cell \<Rightarrow> 't memory \<Rightarrow> slice \<times> 't memory" where
  "slice_append grow s c m =
     (if s_len s < s_cap s then (s\<lparr>s_len := s_len s + 1\<rparr>, slice_write s (s_len s) c m)
      else let n = s_len s + 1;
               (s', m1) = make_slice n (max (grow (s_cap s)) n) m
           in (s', slice_write_all s' 0 (slice_read m s @ [c]) m1))"

section \<open>The queue\<close>

definition defaultQueueCap :: nat where
  "defaultQueueCap = 16"

definition compactMinCap :: nat where
  "compactMinCap = 64"

definition compactShrinkFactor :: nat where
  "compactShrinkFactor = 4"

record 't FIFOTaskQueue =
  fq_mem :: "'t memory"
  fq_tasks :: slice

definition NewFIFOTaskQueue :: "'t memory \<Rightarrow> 't FIFOTaskQueue" where
  "NewFIFOTaskQueue m = (let (s, m') = make_slice 0 defaultQueueCap m in \<lparr>fq_mem = m', fq_tasks = s\<rparr>)"

definition FIFO_PushWithID ::
  "(nat \<Rightarrow> nat) \<Rightarrow> TaskID \<Rightarrow> 't \<Rightarrow> TaskTraits \<Rightarrow> 't FIFOTaskQueue \<Rightarrow> TaskID \<times> 't FIFOTaskQueue" where
  "FIFO_PushWithID grow i t traits q =
     (let (s, m) = slice_append grow (fq_tasks q) (Some \<lparr>Task = t, Traits = traits, ID = i\<rparr>) (fq_mem q)
      in (i, \<lparr>fq_mem = m, fq_tasks = s\<rparr>))"

definition FIFO_Push ::
  "(nat \<Rightarrow> nat) \<Rightarrow> TaskID \<Rightarrow> 't \<Rightarrow> TaskTraits \<Rightarrow> 't FIFOTaskQueue \<Rightarrow> 't FIFOTaskQueue" where
  "FIFO_Push grow i t traits q = snd (FIFO_PushWithID grow i t traits q)"

definition FIFO_maybeCompactLocked :: "'t FIFOTaskQueue \<Rightarrow> 't FIFOTaskQueue" where
  "FIFO_maybeCompactLocked q =
     (let n = s_len (fq_tasks q); c = s_cap (fq_tasks q) in
      if c < compactMinCap then q
      else if n = 0 then
        (let (s, m) = make_slice 0 defaultQueueCap (fq_mem q) in \<lparr>fq_mem = m, fq_tasks = s\<rparr>)
      else if c \<le> n * compactShrinkFactor then q
      else let newCap = max (max (c div 2) defaultQueueCap) n;
               (s, m) = make_slice n newCap (fq_mem q)
           in \<lparr>fq_mem = slice_write_all s 0 (slice_read (fq_mem q) (fq_tasks q)) m, fq_tasks = s\<rparr>)"

definition FIFO_MaybeCompact :: "'t FIFOTaskQueue \<Rightarrow> 't FIFOTaskQueue" where
  "FIFO_MaybeCompact q = FIFO_maybeCompactLocked q"

text \<open>The slice expression \<^verbatim>\<open>s[k:]\<close>.\<close>

definition slice_from :: "slice \<Rightarrow> nat \<Rightarrow> slice" where
  "slice_from s k = s\<lparr>s_off := s_off s + k, s_len := s_len s - k, s_cap := s_cap s - k\<rparr>"

text \<open>\<open>None\<close> is the result \<^verbatim>\<open>(TaskItem{}, false)\<close>; \<open>Some c\<close> the cell read, with \<^verbatim>\<open>true\<close>.\<close>

definition FIFO_Pop :: "'t FIFOTaskQueue \<Rightarrow> 't cell option \<times> 't FIFOTaskQueue" where
  "FIFO_Pop q =
     (let s = fq_tasks q in
      if s_len s = 0 then (None, q)
      else let c = slice_read (fq_mem q) s ! 0;
               m = slice_write s 0 None (fq_mem q)
           in (Some c, FIFO_maybeCompactLocked \<lparr>fq_mem = m, fq_tasks = slice_from s 1\<rparr>))"

text \<open>
  \<^verbatim>\<open>PopUpTo(max)\<close>: the outer \<open>None\<close> is the panic of \<^verbatim>\<open>make\<close> with a negative length,
  the inner \<open>None\<close> the nil slice.
\<close>

definition FIFO_PopUpTo :: "int \<Rightarrow> 't FIFOTaskQueue \<Rightarrow> (slice option \<times> 't FIFOTaskQueue) option" where
  "FIFO_PopUpTo mx q =
     (let s = fq_tasks q; n = s_len s in
      if n = 0 then Some (None, q)
      else if int n \<le> mx then Some (Some s, q\<lparr>fq_tasks := s\<lparr>s_len := 0\<rparr>\<rparr>)
      else if mx < 0 then None
      else let k = nat mx;
               (batch, m1) = make_slice k k (fq_mem q);
               m2 = slice_write_all batch 0 (take k (slice_read (fq_mem q) s)) m1;
               m3 = slice_write_all s 0 (replicate k None) m2
           in Some (Some batch,
                    FIFO_maybeCompactLocked \<lparr>fq_mem = m3, fq_tasks = slice_from s k\<rparr>))"

definition FIFO_PeekTraits :: "'t FIFOTaskQueue \<Rightarrow> TaskTraits option" where
  "FIFO_PeekTraits q =
     (if s_len (fq_tasks q) = 0 then None
      else map_option Traits (slice_read (fq_mem q) (fq_tasks q) ! 0))"

definition FIFO_Len :: "'t FIFOTaskQueue \<Rightarrow> nat" where
  "FIFO_Len q = s_len (fq_tasks q)"

definition FIFO_IsEmpty :: "'t FIFOTaskQueue \<Rightarrow> bool" where
  "FIFO_IsEmpty q \<longleftrightarrow> FIFO_Len q = 0"

definition FIFO_Clear :: "'t FIFOTaskQueue \<Rightarrow> 't FIFOTaskQueue" where
  "FIFO_Clear q = (let (s, m) = make_slice 0 defaultQueueCap (fq_mem q) in \<lparr>fq_mem = m, fq_tasks = s\<rparr>)"

section \<open>Facts about slices\<close>

definition slice_wf :: "'t memory \<Rightarrow> slice \<Rightarrow> bool" where
  "slice_wf m s \<longleftrightarrow>
     s_arr s < length m \<and> s_off s + s_cap s = length (m ! s_arr s) \<and> s_len s \<le> s_cap s"

lemma length_slice_read [simp]: "slice_wf m s \<Longrightarrow> length (slice_read m s) = s_len s"
  by (auto simp: slice_read_def slice_wf_def)

lemma length_slice_write [simp]: "length (slice_write s i c m) = length m"
  by (simp add: slice_write_def)

lemma slice_wf_write [simp]: "slice_wf (slice_write s' i c m) s = slice_wf m s"
  by (cases "s_arr s = s_arr s'"; cases "s_arr s' < length m")
    (auto simp: slice_wf_def slice_write_def)

lemma slice_write_other: "s_arr s \<noteq> a \<Longrightarrow> slice_write s i c m ! a = m ! a"
  by (simp add: slice_write_def)

lemma slice_wf_write_all [simp]: "slice_wf (slice_write_all s' i cs m) s = slice_wf m s"
  by (induction s' i cs m rule: slice_write_all.induct) auto

lemma length_slice_write_all [simp]: "length (slice_write_all s i cs m) = length m"
  by (induction s i cs m rule: slice_write_all.induct) auto

lemma slice_write_all_other: "s_arr s \<noteq> a \<Longrightarrow> slice_write_all s i cs m ! a = m ! a"
  by (induction s i cs m rule: slice_write_all.induct) (auto simp: slice_write_other)

lemma slice_read_write:
  "slice_wf m s \<Longrightarrow> i < s_len s \<Longrightarrow> slice_read (slice_write s i c m) s = (slice_read m s)[i := c]"
  by (simp add: slice_read_def slice_write_def slice_wf_def drop_update_swap take_update_swap)

lemma slice_read_write_all:
  "slice_wf m s \<Longrightarrow> i + length cs \<le> s_len s \<Longrightarrow>
   slice_read (slice_write_all s i cs m) s =
     take i (slice_read m s) @ cs @ drop (i + length cs) (slice_read m s)"
proof (induction s i cs m rule: slice_write_all.induct)
  case (2 s i c cs m)
  then have "slice_read (slice_write_all s (Suc i) cs (slice_write s i c m)) s =
    take (Suc i) ((slice_read m s)[i := c]) @ cs @ drop (Suc i + length cs) ((slice_read m s)[i := c])"
    by (simp add: slice_read_write)
  also have "take (Suc i) ((slice_read m s)[i := c]) = take i (slice_read m s) @ [c]"
    using 2 by (simp add: take_Suc_conv_app_nth)
  finally show ?case by simp
qed simp

lemma slice_write_all_whole:
  "slice_wf m s \<Longrightarrow> length cs = s_len s \<Longrightarrow> slice_read (slice_write_all s 0 cs m) s = cs"
  by (simp add: slice_read_write_all)

lemma make_slice_props:
  assumes "make_slice n c m = (s, m')" "n \<le> c"
  shows "slice_wf m' s" "s_len s = n" "s_cap s = c" "s_arr s = length m" "length m' = Suc (length m)"
    "slice_read m' s = replicate n None" "\<And>a. a < length m \<Longrightarrow> m' ! a = m ! a"
  using assms by (auto simp: make_slice_def slice_wf_def slice_read_def nth_append)

lemma slice_append_props:
  assumes wf: "slice_wf m s" and eq: "slice_append grow s c m = (s', m')"
  shows "slice_wf m' s'" "slice_read m' s' = slice_read m s @ [c]" "s_len s' = Suc (s_len s)"
proof -
  have "slice_wf m' s' \<and> slice_read m' s' = slice_read m s @ [c] \<and> s_len s' = Suc (s_len s)"
  proof (cases "s_len s < s_cap s")
    case True
    then have s': "s' = s\<lparr>s_len := Suc (s_len s)\<rparr>" and m': "m' = slice_write s (s_len s) c m"
      using eq by (auto simp: slice_append_def)
    have "slice_wf m' s'" using True wf by (simp add: s' m') (simp add: slice_wf_def)
    moreover have "slice_read m' s' = slice_read m s @ [c]"
      using True wf by (auto simp: s' m' slice_read_def slice_write_def slice_wf_def
          drop_update_swap take_Suc_conv_app_nth)
    ultimately show ?thesis by (simp add: s')
  next
    case False
    define n where "n = s_len s + 1"
    obtain m1 where mk: "make_slice n (max (grow (s_cap s)) n) m = (s', m1)"
      and m': "m' = slice_write_all s' 0 (slice_read m s @ [c]) m1"
      using eq False by (auto simp: slice_append_def n_def Let_def split: prod.splits)
    note p = make_slice_props [OF mk max.cobounded2]
    from p wf show ?thesis by (simp add: m' slice_write_all_whole n_def)
  qed
  then show "slice_wf m' s'" "slice_read m' s' = slice_read m s @ [c]" "s_len s' = Suc (s_len s)"
    by auto
qed

lemma slice_from_props:
  assumes "slice_wf m s" "k \<le> s_len s"
  shows "slice_wf m (slice_from s k)" "slice_read m (slice_from s k) = drop k (slice_read m s)"
  using assms by (auto simp: slice_wf_def slice_from_def slice_read_def drop_take add.commute)

section \<open>The queue is a FIFO queue\<close>

definition fifo_cells :: "'t FIFOTaskQueue \<Rightarrow> 't cell list" where
  "fifo_cells q = slice_read (fq_mem q) (fq_tasks q)"

definition fifo_invar :: "'t FIFOTaskQueue \<Rightarrow> bool" where
  "fifo_invar q \<longleftrightarrow> slice_wf (fq_mem q) (fq_tasks q) \<and> None \<notin> set (fifo_cells q)"

definition fifo_contents :: "'t FIFOTaskQueue \<Rightarrow> 't TaskItem list" where
  "fifo_contents q = map the (fifo_cells q)"

lemma length_fifo_cells [simp]:
  "slice_wf (fq_mem q) (fq_tasks q) \<Longrightarrow> length (fifo_cells q) = s_len (fq_tasks q)"
  by (simp add: fifo_cells_def)

lemma fresh_slice_empty:
  "make_slice 0 c m = (s, m') \<Longrightarrow> fifo_cells \<lparr>fq_mem = m', fq_tasks = s\<rparr> = [] \<and> slice_wf m' s"
  using make_slice_props [of 0 c m s m'] by (simp add: fifo_cells_def)

lemma compact_cells:
  assumes "slice_wf (fq_mem q) (fq_tasks q)"
  shows "slice_wf (fq_mem (FIFO_maybeCompactLocked q)) (fq_tasks (FIFO_maybeCompactLocked q)) \<and>
    fifo_cells (FIFO_maybeCompactLocked q) = fifo_cells q"
proof -
  let ?n = "s_len (fq_tasks q)" and ?c = "s_cap (fq_tasks q)"
  consider (keep) "?c < compactMinCap \<or> (?n \<noteq> 0 \<and> ?c \<le> ?n * compactShrinkFactor)"
    | (reset) "\<not> ?c < compactMinCap" "?n = 0"
    | (shrink) "\<not> ?c < compactMinCap" "?n \<noteq> 0" "\<not> ?c \<le> ?n * compactShrinkFactor" by blast
  then show ?thesis
  proof cases
    case keep
    then have "FIFO_maybeCompactLocked q = q" by (auto simp: FIFO_maybeCompactLocked_def Let_def)
    with assms show ?thesis by simp
  next
    case reset
    obtain s m where mk: "make_slice 0 defaultQueueCap (fq_mem q) = (s, m)" by fastforce
    have "fifo_cells q = []" using length_fifo_cells [OF assms] reset by simp
    with fresh_slice_empty [OF mk] mk reset show ?thesis
      by (simp add: FIFO_maybeCompactLocked_def)
  next
    case shrink
    let ?k = "max (max (?c div 2) defaultQueueCap) ?n"
    obtain s m where mk: "make_slice ?n ?k (fq_mem q) = (s, m)" by fastforce
    note p = make_slice_props [OF mk max.cobounded2]
    have q': "FIFO_maybeCompactLocked q = \<lparr>fq_mem = slice_write_all s 0 (fifo_cells q) m, fq_tasks = s\<rparr>"
      using shrink mk by (simp add: FIFO_maybeCompactLocked_def Let_def fifo_cells_def)
    from p assms show ?thesis
      by (simp add: q' fifo_cells_def [of "\<lparr>fq_mem = _, fq_tasks = _\<rparr>"] slice_write_all_whole)
  qed
qed

lemma fifo_new [simp]: "fifo_invar (NewFIFOTaskQueue m)" "fifo_contents (NewFIFOTaskQueue m) = []"
proof -
  obtain s m' where mk: "make_slice 0 defaultQueueCap m = (s, m')" by fastforce
  from fresh_slice_empty [OF mk] mk
  show "fifo_invar (NewFIFOTaskQueue m)" "fifo_contents (NewFIFOTaskQueue m) = []"
    by (simp_all add: NewFIFOTaskQueue_def fifo_invar_def fifo_contents_def)
qed

lemma fifo_clear [simp]: "fifo_invar (FIFO_Clear q)" "fifo_contents (FIFO_Clear q) = []"
proof -
  have "FIFO_Clear q = NewFIFOTaskQueue (fq_mem q)"
    by (simp add: FIFO_Clear_def NewFIFOTaskQueue_def)
  then show "fifo_invar (FIFO_Clear q)" "fifo_contents (FIFO_Clear q) = []" by simp_all
qed

lemma fifo_push_cells:
  assumes "fifo_invar q" "FIFO_PushWithID grow i t tr q = (r, q')"
  shows "fifo_cells q' = fifo_cells q @ [Some \<lparr>Task = t, Traits = tr, ID = i\<rparr>]" "fifo_invar q'" "r = i"
proof -
  obtain s m where ap: "slice_append grow (fq_tasks q)
      (Some \<lparr>Task = t, Traits = tr, ID = i\<rparr>) (fq_mem q) = (s, m)" by fastforce
  then have q': "q' = \<lparr>fq_mem = m, fq_tasks = s\<rparr>" and "r = i"
    using assms(2) by (auto simp: FIFO_PushWithID_def)
  from assms(1) have wf: "slice_wf (fq_mem q) (fq_tasks q)" by (simp add: fifo_invar_def)
  show "r = i" by fact
  show cells: "fifo_cells q' = fifo_cells q @ [Some \<lparr>Task = t, Traits = tr, ID = i\<rparr>]"
    using slice_append_props [OF wf ap] by (simp add: q' fifo_cells_def)
  show "fifo_invar q'"
    using slice_append_props [OF wf ap] assms(1) cells by (simp add: q' fifo_invar_def)
qed

lemma fifo_pop_cells:
  assumes inv: "fifo_invar q" and cells: "fifo_cells q = c # cs"
  obtains q' where "FIFO_Pop q = (Some c, q')" "fifo_cells q' = cs" "fifo_invar q'"
proof -
  let ?s = "fq_tasks q"
  define q1 where "q1 = \<lparr>fq_mem = slice_write ?s 0 None (fq_mem q), fq_tasks = slice_from ?s 1\<rparr>"
  have wf: "slice_wf (fq_mem q) ?s" using inv by (simp add: fifo_invar_def)
  have len: "0 < s_len ?s" using cells length_fifo_cells [OF wf] by simp
  have c1: "slice_wf (fq_mem q1) (fq_tasks q1)" "fifo_cells q1 = cs"
    using wf len cells slice_from_props [of "fq_mem q1" ?s 1]
    by (auto simp: q1_def fifo_cells_def slice_read_write)
  have "FIFO_Pop q = (Some c, FIFO_maybeCompactLocked q1)"
    using len cells by (simp add: FIFO_Pop_def Let_def q1_def fifo_cells_def)
  moreover have "fifo_invar (FIFO_maybeCompactLocked q1)"
    using compact_cells [OF c1(1)] c1(2) inv cells by (simp add: fifo_invar_def)
  ultimately show ?thesis using that compact_cells [OF c1(1)] c1(2) by simp
qed

lemma fifo_pop_empty: "fifo_invar q \<Longrightarrow> fifo_cells q = [] \<Longrightarrow> FIFO_Pop q = (None, q)"
  using length_fifo_cells [of q] by (simp add: fifo_invar_def FIFO_Pop_def Let_def)

text \<open>The view that \<open>Task_Queue_Spec\<close> takes of \<open>FIFO_Pop\<close>: the item where there is one.\<close>

definition fifo_pop_item :: "'t FIFOTaskQueue \<Rightarrow> 't TaskItem option \<times> 't FIFOTaskQueue" where
  "fifo_pop_item q = (case FIFO_Pop q of (r, q') \<Rightarrow> (Option.bind r id, q'))"

lemma fifo_contents_Nil [simp]: "fifo_contents q = [] \<longleftrightarrow> fifo_cells q = []"
  by (simp add: fifo_contents_def)

lemma fifo_contents_Cons:
  assumes "fifo_invar q" "fifo_contents q = x # xs"
  obtains cs where "fifo_cells q = Some x # cs" "xs = map the cs"
  using assms by (auto simp: fifo_contents_def fifo_invar_def)

lemma fifo_push:
  assumes "fifo_invar q"
  shows "fifo_contents (FIFO_Push grow i t tr q) = fifo_insert \<lparr>Task = t, Traits = tr, ID = i\<rparr> (fifo_contents q)"
    "fifo_invar (FIFO_Push grow i t tr q)"
  using fifo_push_cells [OF assms, of grow i t tr "fst (FIFO_PushWithID grow i t tr q)"]
  by (simp_all add: FIFO_Push_def fifo_contents_def fifo_insert_def)

lemma fifo_is_fifo:
  "task_queue fifo_invar (\<lambda>_. True) fifo_contents fifo_insert (FIFO_Push grow) fifo_pop_item
     FIFO_PeekTraits FIFO_Len FIFO_Clear"
proof (unfold_locales, goal_cases)
  case (2 q i t tr)
  then show ?case by (simp add: fifo_push)
next
  case (3 q i t tr)
  then show ?case by (simp add: fifo_push)
next
  case (4 q)
  then show ?case by (simp add: fifo_pop_item_def fifo_pop_empty)
next
  case (5 q x xs)
  then obtain cs where cs: "fifo_cells q = Some x # cs" "xs = map the cs"
    by (rule fifo_contents_Cons)
  from fifo_pop_cells [OF 5(1) cs(1)] obtain q'
    where "FIFO_Pop q = (Some (Some x), q')" "fifo_cells q' = cs" "fifo_invar q'" .
  with cs show ?case by (simp add: fifo_pop_item_def fifo_contents_def)
next
  case (6 q)
  then have len: "s_len (fq_tasks q) = length (fifo_cells q)" by (simp add: fifo_invar_def)
  show ?case
  proof (cases "fifo_contents q")
    case Nil
    with len show ?thesis by (subst Nil) (simp add: FIFO_PeekTraits_def)
  next
    case (Cons x xs)
    with 6 obtain cs where "fifo_cells q = Some x # cs" by (rule fifo_contents_Cons)
    with len Cons show ?thesis by (simp add: FIFO_PeekTraits_def fifo_cells_def)
  qed
next
  case (7 q)
  then show ?case by (simp add: FIFO_Len_def fifo_contents_def fifo_invar_def)
qed simp_all

interpretation fifo: task_queue fifo_invar "\<lambda>_. True" fifo_contents fifo_insert "FIFO_Push grow"
  fifo_pop_item FIFO_PeekTraits FIFO_Len FIFO_Clear for grow
  by (rule fifo_is_fifo)

section \<open>Which arrays an operation writes\<close>

text \<open>
  An operation writes the array of the queue's own slice and arrays it allocates, and
  the queue's next slice lives in one of those.
\<close>

definition fifo_frame :: "nat \<Rightarrow> 't FIFOTaskQueue \<Rightarrow> 't FIFOTaskQueue \<Rightarrow> bool" where
  "fifo_frame a q q' \<longleftrightarrow>
     a < length (fq_mem q') \<and> fq_mem q' ! a = fq_mem q ! a \<and> a \<noteq> s_arr (fq_tasks q')"

lemma compact_frame:
  assumes "a < length (fq_mem q)" "a \<noteq> s_arr (fq_tasks q)"
  shows "fifo_frame a q (FIFO_maybeCompactLocked q)"
  using assms
  by (auto simp: fifo_frame_def FIFO_maybeCompactLocked_def Let_def make_slice_def nth_append
      slice_write_all_other)

lemma clear_frame:
  "a < length (fq_mem q) \<Longrightarrow> fifo_frame a q (FIFO_Clear q)"
  by (auto simp: fifo_frame_def FIFO_Clear_def make_slice_def nth_append)

lemma push_frame:
  assumes "a < length (fq_mem q)" "a \<noteq> s_arr (fq_tasks q)"
  shows "fifo_frame a q (FIFO_Push grow i t tr q)"
  using assms
  by (auto simp: fifo_frame_def FIFO_Push_def FIFO_PushWithID_def slice_append_def Let_def
      make_slice_def nth_append slice_write_all_other slice_write_other)

lemma pop_frame:
  assumes "a < length (fq_mem q)" "a \<noteq> s_arr (fq_tasks q)"
  shows "fifo_frame a q (snd (FIFO_Pop q))"
proof -
  let ?s = "fq_tasks q"
  let ?q1 = "\<lparr>fq_mem = slice_write ?s 0 None (fq_mem q), fq_tasks = slice_from ?s 1\<rparr>"
  have "fifo_frame a ?q1 (FIFO_maybeCompactLocked ?q1)"
    using assms by (intro compact_frame) (auto simp: slice_from_def)
  with assms show ?thesis
    by (auto simp: FIFO_Pop_def Let_def fifo_frame_def slice_write_other)
qed

section \<open>Batches\<close>

text \<open>What \<open>FIFO_PopUpTo\<close> returns on each branch.\<close>

lemma PopUpTo_whole:
  assumes "fifo_invar q" "fifo_cells q \<noteq> []" "int (length (fifo_cells q)) \<le> mx"
  shows "FIFO_PopUpTo mx q = Some (Some (fq_tasks q), q\<lparr>fq_tasks := (fq_tasks q)\<lparr>s_len := 0\<rparr>\<rparr>)"
proof -
  have "s_len (fq_tasks q) = length (fifo_cells q)" using assms(1) by (simp add: fifo_invar_def)
  with assms show ?thesis by (simp add: FIFO_PopUpTo_def Let_def)
qed

lemma PopUpTo_split:
  assumes inv: "fifo_invar q" and k: "k < length (fifo_cells q)"
  obtains batch q' where "FIFO_PopUpTo (int k) q = Some (Some batch, q')"
    "slice_read (fq_mem q') batch = take k (fifo_cells q)" "slice_wf (fq_mem q') batch"
    "fifo_cells q' = drop k (fifo_cells q)" "fifo_invar q'"
    "s_arr batch \<noteq> s_arr (fq_tasks q')" "s_arr batch < length (fq_mem q')"
proof -
  let ?s = "fq_tasks q"
  have wf: "slice_wf (fq_mem q) ?s" and len: "s_len ?s = length (fifo_cells q)"
    using inv by (simp_all add: fifo_invar_def)
  obtain batch m1 where mk: "make_slice k k (fq_mem q) = (batch, m1)" by fastforce
  note p = make_slice_props [OF mk order_refl]
  define m2 where "m2 = slice_write_all batch 0 (take k (fifo_cells q)) m1"
  define m3 where "m3 = slice_write_all ?s 0 (replicate k None) m2"
  define q1 where "q1 = \<lparr>fq_mem = m3, fq_tasks = slice_from ?s k\<rparr>"
  have arr: "s_arr ?s < length (fq_mem q)" "s_arr batch = length (fq_mem q)"
    using wf p by (auto simp: slice_wf_def)
  have wf1: "slice_wf m1 ?s" using wf p(5,7) by (simp add: slice_wf_def)
  have read1: "slice_read m2 ?s = fifo_cells q"
    using arr p(7) by (simp add: m2_def slice_read_def slice_write_all_other fifo_cells_def)
  have "slice_read m2 batch = take k (fifo_cells q)"
    using p k by (simp add: m2_def slice_write_all_whole)
  then have read2: "slice_read m3 batch = take k (fifo_cells q)"
    using arr by (simp add: m3_def slice_read_def slice_write_all_other)
  have wf3: "slice_wf m3 ?s" "slice_wf m3 batch" using wf1 p(1) by (simp_all add: m3_def m2_def)
  have c1: "slice_wf (fq_mem q1) (fq_tasks q1)" "fifo_cells q1 = drop k (fifo_cells q)"
    using slice_from_props [OF wf3(1), of k] k len read1 wf1
    by (simp_all add: q1_def fifo_cells_def m3_def slice_read_write_all m2_def)
  define q' where "q' = FIFO_maybeCompactLocked q1"
  have eq: "FIFO_PopUpTo (int k) q = Some (Some batch, q')"
    using k len mk by (auto simp: FIFO_PopUpTo_def Let_def q'_def q1_def m3_def m2_def fifo_cells_def)
  have inv': "fifo_invar q'" "fifo_cells q' = drop k (fifo_cells q)"
    using compact_cells [OF c1(1)] c1(2) inv set_drop_subset [of k "fifo_cells q"]
    by (auto simp: fifo_invar_def q'_def)
  have "length (fq_mem q1) = Suc (length (fq_mem q))" by (simp add: q1_def m3_def m2_def p(5))
  moreover have "s_arr batch \<noteq> s_arr (fq_tasks q1)" using arr by (simp add: q1_def slice_from_def)
  moreover have "fq_mem q1 ! s_arr batch = m3 ! s_arr batch" by (simp add: q1_def)
  ultimately have "s_arr batch \<noteq> s_arr (fq_tasks q') \<and> s_arr batch < length (fq_mem q') \<and>
    fq_mem q' ! s_arr batch = m3 ! s_arr batch"
    using compact_frame [of "s_arr batch" q1] arr by (auto simp: q'_def fifo_frame_def)
  with read2 wf3(2) have "s_arr batch \<noteq> s_arr (fq_tasks q')" "s_arr batch < length (fq_mem q')"
    "slice_read (fq_mem q') batch = take k (fifo_cells q)" "slice_wf (fq_mem q') batch"
    by (auto simp: slice_read_def slice_wf_def)
  with that eq inv' show ?thesis by blast
qed

section \<open>Properties\<close>

text \<open>
  C23: \<^verbatim>\<open>FIFOTaskQueue\<close> is a first-in first-out queue. From any well-formed state,
  \<^verbatim>\<open>PushWithID\<close> appends its item to the contents and returns its identifier, \<^verbatim>\<open>Pop\<close> hands
  out the oldest item and keeps the others in order, and popping an empty queue changes nothing
  and reports \<^verbatim>\<open>false\<close>; each leaves a well-formed state, whatever growth the runtime picks for
  \<^verbatim>\<open>append\<close> and however often the backing array is compacted.
\<close>
theorem FIFO_queue_refines_list:
  assumes "fifo_invar q"
  shows "(\<exists>q'. FIFO_PushWithID grow i t tr q = (i, q') \<and> fifo_invar q' \<and>
            fifo_contents q' = fifo_contents q @ [\<lparr>Task = t, Traits = tr, ID = i\<rparr>]) \<and>
         (case fifo_contents q of
            [] \<Rightarrow> FIFO_Pop q = (None, q)
          | x # xs \<Rightarrow> \<exists>q'. FIFO_Pop q = (Some (Some x), q') \<and> fifo_invar q' \<and> fifo_contents q' = xs) \<and>
         FIFO_Len q = length (fifo_contents q)"
proof (intro conjI)
  obtain r q' where eq: "FIFO_PushWithID grow i t tr q = (r, q')" by fastforce
  from fifo_push_cells [OF assms eq] eq
  show "\<exists>q'. FIFO_PushWithID grow i t tr q = (i, q') \<and> fifo_invar q' \<and>
      fifo_contents q' = fifo_contents q @ [\<lparr>Task = t, Traits = tr, ID = i\<rparr>]"
    by (simp add: fifo_contents_def)
  show "case fifo_contents q of
      [] \<Rightarrow> FIFO_Pop q = (None, q)
    | x # xs \<Rightarrow> \<exists>q'. FIFO_Pop q = (Some (Some x), q') \<and> fifo_invar q' \<and> fifo_contents q' = xs"
  proof (cases "fifo_contents q")
    case Nil
    moreover from Nil assms have "FIFO_Pop q = (None, q)" by (simp add: fifo_pop_empty)
    ultimately show ?thesis by (simp only: list.case)
  next
    case (Cons x xs)
    have "\<exists>q'. FIFO_Pop q = (Some (Some x), q') \<and> fifo_invar q' \<and> fifo_contents q' = xs"
      using fifo_contents_Cons [OF assms Cons] fifo_pop_cells [OF assms] by (metis fifo_contents_def)
    with Cons show ?thesis by simp
  qed
  show "FIFO_Len q = length (fifo_contents q)" by (rule fifo.len_eq [OF assms])
qed

definition ex_fifo :: "nat FIFOTaskQueue" where
  "ex_fifo = FIFO_Push (\<lambda>c. 2 * c) 2 20 TraitsBestEffort
     (FIFO_Push (\<lambda>c. 2 * c) 1 10 DefaultTaskTraits (NewFIFOTaskQueue []))"

lemma ex_fifo_invar: "fifo_invar ex_fifo"
  by (simp add: ex_fifo_def fifo_push)

lemma ex_fifo_contents: "fifo_contents ex_fifo =
    [\<lparr>Task = 10, Traits = DefaultTaskTraits, ID = 1\<rparr>, \<lparr>Task = 20, Traits = TraitsBestEffort, ID = 2\<rparr>]"
  by (simp add: ex_fifo_def fifo_push fifo_insert_def)

theorem FIFO_queue_refines_list_witness:
  "\<exists>q'. FIFO_Pop ex_fifo = (Some (Some \<lparr>Task = 10, Traits = DefaultTaskTraits, ID = 1\<rparr>), q') \<and>
     fifo_contents q' = [\<lparr>Task = 20, Traits = TraitsBestEffort, ID = 2\<rparr>]"
  using FIFO_queue_refines_list [OF ex_fifo_invar, of id 0 0 DefaultTaskTraits] by (auto simp: ex_fifo_contents)

text \<open>
  Compaction is invisible and effective. \<^verbatim>\<open>MaybeCompact\<close> keeps the contents and never
  grows the capacity; an empty queue is left with a capacity below 64, and a capacity of 64 or
  more that is less than a quarter used is at least halved.
\<close>
theorem FIFO_compaction_invisible:
  assumes "fifo_invar q"
  shows "fifo_contents (FIFO_MaybeCompact q) = fifo_contents q \<and> fifo_invar (FIFO_MaybeCompact q) \<and>
    s_cap (fq_tasks (FIFO_MaybeCompact q)) \<le> s_cap (fq_tasks q) \<and>
    (FIFO_Len q = 0 \<longrightarrow> s_cap (fq_tasks (FIFO_MaybeCompact q)) < compactMinCap) \<and>
    (compactShrinkFactor * FIFO_Len q < s_cap (fq_tasks q) \<longrightarrow> compactMinCap \<le> s_cap (fq_tasks q) \<longrightarrow>
       s_cap (fq_tasks (FIFO_MaybeCompact q)) \<le> s_cap (fq_tasks q) div 2)"
proof -
  have wf: "slice_wf (fq_mem q) (fq_tasks q)" using assms by (simp add: fifo_invar_def)
  have caps: "s_cap (fq_tasks (FIFO_MaybeCompact q)) \<le> s_cap (fq_tasks q) \<and>
    (FIFO_Len q = 0 \<longrightarrow> s_cap (fq_tasks (FIFO_MaybeCompact q)) < compactMinCap) \<and>
    (compactShrinkFactor * FIFO_Len q < s_cap (fq_tasks q) \<longrightarrow> compactMinCap \<le> s_cap (fq_tasks q) \<longrightarrow>
       s_cap (fq_tasks (FIFO_MaybeCompact q)) \<le> s_cap (fq_tasks q) div 2)"
    by (auto simp: FIFO_MaybeCompact_def FIFO_maybeCompactLocked_def FIFO_Len_def Let_def
        make_slice_def compactMinCap_def compactShrinkFactor_def defaultQueueCap_def)
  with compact_cells [OF wf] assms show ?thesis
    by (simp add: FIFO_MaybeCompact_def fifo_contents_def fifo_invar_def)
qed

text \<open>
  A batch that \<^verbatim>\<open>PopUpTo(max)\<close> cuts off a longer queue holds the oldest \<open>max\<close>
  items, the queue keeps the rest, and the batch is a copy: no later \<^verbatim>\<open>Push\<close>, \<^verbatim>\<open>Pop\<close>,
  \<^verbatim>\<open>MaybeCompact\<close> or \<^verbatim>\<open>Clear\<close> changes what the caller reads from it.
\<close>
theorem FIFO_PopUpTo_batch_is_private:
  assumes "fifo_invar q" "k < FIFO_Len q"
  shows "\<exists>batch q'. FIFO_PopUpTo (int k) q = Some (Some batch, q') \<and> fifo_invar q' \<and>
    map the (slice_read (fq_mem q') batch) = take k (fifo_contents q) \<and>
    fifo_contents q' = drop k (fifo_contents q) \<and>
    (\<forall>q''. q'' \<in> {FIFO_Push grow i t tr q', snd (FIFO_Pop q'), FIFO_MaybeCompact q', FIFO_Clear q'} \<longrightarrow>
       slice_read (fq_mem q'') batch = slice_read (fq_mem q') batch)"
proof -
  have "k < length (fifo_cells q)" using assms by (simp add: FIFO_Len_def fifo_invar_def)
  from PopUpTo_split [OF assms(1) this] obtain batch q' where b:
    "FIFO_PopUpTo (int k) q = Some (Some batch, q')"
    "slice_read (fq_mem q') batch = take k (fifo_cells q)"
    "fifo_cells q' = drop k (fifo_cells q)" "fifo_invar q'"
    "s_arr batch \<noteq> s_arr (fq_tasks q')" "s_arr batch < length (fq_mem q')" by metis
  have "fifo_frame (s_arr batch) q' q''"
    if "q'' \<in> {FIFO_Push grow i t tr q', snd (FIFO_Pop q'), FIFO_MaybeCompact q', FIFO_Clear q'}" for q''
    using that push_frame [OF b(6,5)] pop_frame [OF b(6,5)] compact_frame [OF b(6,5)]
      clear_frame [OF b(6)] by (auto simp: FIFO_MaybeCompact_def)
  with b show ?thesis
    by (auto simp: fifo_contents_def take_map drop_map slice_read_def fifo_frame_def)
qed

text \<open>
  A batch that empties the queue is not private. When the queue holds at most
  \<open>max\<close> items, \<^verbatim>\<open>PopUpTo\<close> returns the queue's own slice and keeps writing to its array:
  whatever is pushed next overwrites the first item of the batch the caller holds.
\<close>
theorem FIFO_PopUpTo_batch_overwritten:
  assumes "fifo_invar q" "fifo_contents q \<noteq> []" "int (FIFO_Len q) \<le> mx"
  shows "\<exists>batch q'. FIFO_PopUpTo mx q = Some (Some batch, q') \<and>
    map the (slice_read (fq_mem q') batch) = fifo_contents q \<and> fifo_contents q' = [] \<and>
    slice_read (fq_mem (FIFO_Push grow i t tr q')) batch ! 0 = Some \<lparr>Task = t, Traits = tr, ID = i\<rparr>"
proof -
  let ?s = "fq_tasks q"
  let ?q' = "q\<lparr>fq_tasks := ?s\<lparr>s_len := 0\<rparr>\<rparr>"
  have wf: "slice_wf (fq_mem q) ?s" and len: "s_len ?s = length (fifo_cells q)"
    using assms(1) by (simp_all add: fifo_invar_def)
  have ne: "fifo_cells q \<noteq> []" using assms(2) by simp
  have pos: "0 < s_len ?s" using ne len by (metis length_greater_0_conv)
  have cap: "s_len ?s \<le> s_cap ?s" using wf by (simp add: slice_wf_def)
  have "fq_mem (FIFO_Push grow i t tr ?q') =
      slice_write ?s 0 (Some \<lparr>Task = t, Traits = tr, ID = i\<rparr>) (fq_mem q)"
    using pos cap by (simp add: FIFO_Push_def FIFO_PushWithID_def slice_append_def slice_write_def)
  moreover have "FIFO_PopUpTo mx q = Some (Some ?s, ?q')"
    using PopUpTo_whole [OF assms(1) ne] assms(3) len by (simp add: FIFO_Len_def)
  moreover have "fifo_contents ?q' = []" by (simp add: fifo_cells_def slice_read_def)
  moreover have "map the (slice_read (fq_mem ?q') ?s) = fifo_contents q"
    by (simp add: fifo_contents_def fifo_cells_def)
  moreover have "slice_read (slice_write ?s 0 c (fq_mem q)) ?s ! 0 = c" for c
    using pos wf by (simp add: slice_read_write)
  ultimately show ?thesis by (metis (no_types))
qed

end
