(* ===== verification/Go_Heap.thy ===== *)
theory Go_Heap
  imports Prelude
begin

text \<open>
  The binary heap of Go's standard package \<^verbatim>\<open>container/heap\<close>, which
  \<^verbatim>\<open>core/queue.go\<close> and \<^verbatim>\<open>core/delay_manager.go\<close> build on.
  A heap is the list behind the slice. The operations of \<^verbatim>\<open>heap.Interface\<close>
  that the two clients supply are parameters: \<open>lt\<close> compares two elements and
  \<open>upd x k\<close> is the element with its \<^verbatim>\<open>index\<close> field set to \<open>k\<close>, which
  the clients' \<^verbatim>\<open>Swap\<close>, \<^verbatim>\<open>Push\<close> and \<^verbatim>\<open>Pop\<close> do. The locale
  \<open>go_heap\<close> states what a client's comparison has to satisfy and proves, once,
  that the heap property, the index fields and the stored payloads are kept and that
  \<open>heap_pop\<close> removes a least element.
\<close>

section \<open>The operations of container/heap\<close>

definition heap_swap :: "('a \<Rightarrow> int \<Rightarrow> 'a) \<Rightarrow> 'a list \<Rightarrow> nat \<Rightarrow> nat \<Rightarrow> 'a list" where
  "heap_swap upd h i j = h[i := upd (h ! j) (int i), j := upd (h ! i) (int j)]"

text \<open>\<open>heap_up\<close> also returns the position where the moved element ends.\<close>

function heap_up ::
  "('a \<Rightarrow> 'a \<Rightarrow> bool) \<Rightarrow> ('a \<Rightarrow> int \<Rightarrow> 'a) \<Rightarrow> 'a list \<Rightarrow> nat \<Rightarrow> 'a list \<times> nat" where
  "heap_up lt upd h j =
     (let i = (j - 1) div 2 in
      if i = j \<or> \<not> lt (h ! j) (h ! i) then (h, j)
      else heap_up lt upd (heap_swap upd h i j) i)"
  by pat_completeness auto
termination
  by (relation "measure (\<lambda>(lt, upd, h, j). j)") auto

function heap_down ::
  "('a \<Rightarrow> 'a \<Rightarrow> bool) \<Rightarrow> ('a \<Rightarrow> int \<Rightarrow> 'a) \<Rightarrow> 'a list \<Rightarrow> nat \<Rightarrow> nat \<Rightarrow> 'a list" where
  "heap_down lt upd h i n =
     (let j1 = 2 * i + 1 in
      if n \<le> j1 then h
      else let j = (if j1 + 1 < n \<and> lt (h ! (j1 + 1)) (h ! j1) then j1 + 1 else j1) in
           if \<not> lt (h ! j) (h ! i) then h
           else heap_down lt upd (heap_swap upd h i j) j n)"
  by pat_completeness auto
termination
  by (relation "measure (\<lambda>(lt, upd, h, i, n). n - i)") (auto split: if_splits)

declare heap_up.simps [simp del] heap_down.simps [simp del]

definition heap_push ::
  "('a \<Rightarrow> 'a \<Rightarrow> bool) \<Rightarrow> ('a \<Rightarrow> int \<Rightarrow> 'a) \<Rightarrow> 'a list \<Rightarrow> 'a \<Rightarrow> 'a list \<times> nat" where
  "heap_push lt upd h x = heap_up lt upd (h @ [upd x (int (length h))]) (length h)"

text \<open>Popping an empty heap is an index panic in Go: \<open>None\<close>.\<close>

definition heap_pop ::
  "('a \<Rightarrow> 'a \<Rightarrow> bool) \<Rightarrow> ('a \<Rightarrow> int \<Rightarrow> 'a) \<Rightarrow> 'a list \<Rightarrow> ('a \<times> 'a list) option" where
  "heap_pop lt upd h =
     (if h = [] then None
      else let n = length h - 1;
               h' = heap_down lt upd (heap_swap upd h 0 n) 0 n
           in Some (upd (h' ! n) (- 1), take n h'))"

fun heap_init_from ::
  "('a \<Rightarrow> 'a \<Rightarrow> bool) \<Rightarrow> ('a \<Rightarrow> int \<Rightarrow> 'a) \<Rightarrow> nat \<Rightarrow> 'a list \<Rightarrow> 'a list" where
  "heap_init_from lt upd 0 h = h"
| "heap_init_from lt upd (Suc i) h =
     heap_init_from lt upd i (heap_down lt upd h i (length h))"

definition heap_init :: "('a \<Rightarrow> 'a \<Rightarrow> bool) \<Rightarrow> ('a \<Rightarrow> int \<Rightarrow> 'a) \<Rightarrow> 'a list \<Rightarrow> 'a list" where
  "heap_init lt upd h = heap_init_from lt upd (length h div 2) h"

section \<open>What a heap is\<close>

definition heap_ok :: "('a \<Rightarrow> 'a \<Rightarrow> bool) \<Rightarrow> 'a list \<Rightarrow> nat \<Rightarrow> bool" where
  "heap_ok lt h n \<longleftrightarrow> (\<forall>k. 0 < k \<and> k < n \<longrightarrow> \<not> lt (h ! k) (h ! ((k - 1) div 2)))"

definition indexed :: "('a \<Rightarrow> int) \<Rightarrow> 'a list \<Rightarrow> bool" where
  "indexed idx h \<longleftrightarrow> (\<forall>k < length h. idx (h ! k) = int k)"

definition heap_wf :: "('a \<Rightarrow> 'a \<Rightarrow> bool) \<Rightarrow> ('a \<Rightarrow> int) \<Rightarrow> 'a list \<Rightarrow> bool" where
  "heap_wf lt idx h \<longleftrightarrow> heap_ok lt h (length h) \<and> indexed idx h"

lemma heap_ok_code [code]: "heap_ok lt h n \<longleftrightarrow> (\<forall>k \<in> set [1..<n]. \<not> lt (h ! k) (h ! ((k - 1) div 2)))"
  by (auto simp: heap_ok_def Suc_le_eq)

lemma heap_ok_Nil [simp]: "heap_ok lt [] 0"
  by (simp add: heap_ok_def)

lemma indexed_Nil [simp]: "indexed idx []"
  by (simp add: indexed_def)

lemma heap_wf_Nil [simp]: "heap_wf lt idx []"
  by (simp add: heap_wf_def)

lemma parent_less: "0 < k \<Longrightarrow> (k - 1) div 2 < (k :: nat)"
  by auto

lemma heap_ok_take: "heap_ok lt h n \<Longrightarrow> heap_ok lt (take n h) n"
proof (unfold heap_ok_def, intro allI impI)
  fix k
  assume ok: "\<forall>k. 0 < k \<and> k < n \<longrightarrow> \<not> lt (h ! k) (h ! ((k - 1) div 2))" and k: "0 < k \<and> k < n"
  then have "(k - 1) div 2 < n" using parent_less [of k] by linarith
  with ok k show "\<not> lt (take n h ! k) (take n h ! ((k - 1) div 2))" by simp
qed

lemma heap_init_Nil [simp]: "heap_init lt upd [] = []"
  by (simp add: heap_init_def)

lemma length_heap_swap [simp]: "length (heap_swap upd h i j) = length h"
  by (simp add: heap_swap_def)

lemma nth_heap_swap:
  "i < length h \<Longrightarrow> j < length h \<Longrightarrow>
   heap_swap upd h i j ! k =
     (if k = j then upd (h ! i) (int j) else if k = i then upd (h ! j) (int i) else h ! k)"
  by (simp add: heap_swap_def nth_list_update)

lemma nth_heap_swap_other: "k \<noteq> i \<Longrightarrow> k \<noteq> j \<Longrightarrow> heap_swap upd h i j ! k = h ! k"
  by (simp add: heap_swap_def)

lemma length_heap_up [simp]: "length (fst (heap_up lt upd h j)) = length h"
proof (induction lt upd h j rule: heap_up.induct)
  case (1 lt upd h j)
  then show ?case by (subst heap_up.simps) (auto simp: Let_def)
qed

lemma length_heap_down [simp]: "length (heap_down lt upd h i n) = length h"
proof (induction lt upd h i n rule: heap_down.induct)
  case (1 lt upd h i n)
  show ?case
    by (subst heap_down.simps) (use 1 in \<open>auto simp: Let_def\<close>)
qed

text \<open>Sifting up that does not reach the root leaves the root alone.\<close>

lemma heap_up_root:
  "snd (heap_up lt upd h j) \<noteq> 0 \<Longrightarrow> fst (heap_up lt upd h j) ! 0 = h ! 0"
proof (induction lt upd h j rule: heap_up.induct)
  case (1 lt upd h j)
  let ?i = "(j - 1) div 2"
  show ?case
  proof (cases "?i = j \<or> \<not> lt (h ! j) (h ! ?i)")
    case True
    then show ?thesis by (subst heap_up.simps) (simp add: Let_def)
  next
    case False
    then have eq: "heap_up lt upd h j = heap_up lt upd (heap_swap upd h ?i j) ?i"
      by (subst heap_up.simps) (simp add: Let_def)
    have "?i \<noteq> 0"
    proof
      assume i: "?i = 0"
      have "snd (heap_up lt upd (heap_swap upd h 0 j) 0) = 0" by (subst heap_up.simps) simp
      with "1.prems" eq i show False by simp
    qed
    moreover from this have "j \<noteq> 0" by auto
    ultimately have "heap_swap upd h ?i j ! 0 = h ! 0" by (simp add: nth_heap_swap_other)
    with "1.IH" [OF refl False] "1.prems" eq show ?thesis by simp
  qed
qed

lemma heap_pop_shorter: "heap_pop lt upd h = Some (x, h') \<Longrightarrow> length h' < length h"
  by (auto simp: heap_pop_def Let_def split: if_splits)

text \<open>The child that sifting down compares with: the right one where it is the lesser.\<close>

definition down_child :: "('a \<Rightarrow> 'a \<Rightarrow> bool) \<Rightarrow> 'a list \<Rightarrow> nat \<Rightarrow> nat \<Rightarrow> nat" where
  "down_child lt h i n =
     (if 2 * i + 2 < n \<and> lt (h ! (2 * i + 2)) (h ! (2 * i + 1)) then 2 * i + 2 else 2 * i + 1)"

lemma heap_down_unfold:
  "heap_down lt upd h i n =
     (if n \<le> 2 * i + 1 \<or> \<not> lt (h ! down_child lt h i n) (h ! i) then h
      else heap_down lt upd (heap_swap upd h i (down_child lt h i n)) (down_child lt h i n) n)"
  by (subst heap_down.simps) (simp add: Let_def down_child_def)

lemma down_child_props:
  assumes "2 * i + 1 < n"
  shows "down_child lt h i n < n" "0 < down_child lt h i n"
    "(down_child lt h i n - 1) div 2 = i" "i < down_child lt h i n"
  using assms by (auto simp: down_child_def)

lemma heap_down_beyond:
  "i < n \<Longrightarrow> n \<le> k \<Longrightarrow> n \<le> length h \<Longrightarrow> heap_down lt upd h i n ! k = h ! k"
proof (induction lt upd h i n rule: heap_down.induct)
  case (1 lt upd h i n)
  show ?case
    by (subst heap_down.simps) (use 1 in \<open>auto simp: Let_def nth_heap_swap\<close>)
qed

section \<open>The contract of a heap client\<close>

locale go_heap =
  fixes lt :: "'a \<Rightarrow> 'a \<Rightarrow> bool"
    and upd :: "'a \<Rightarrow> int \<Rightarrow> 'a"
    and idx :: "'a \<Rightarrow> int"
    and payload :: "'a \<Rightarrow> 'b"
  assumes less_asym: "lt a b \<Longrightarrow> \<not> lt b a"
    and less_negtrans: "\<not> lt a b \<Longrightarrow> \<not> lt b c \<Longrightarrow> \<not> lt a c"
    and less_upd_left [simp]: "lt (upd a k) b = lt a b"
    and less_upd_right [simp]: "lt a (upd b k) = lt a b"
    and idx_upd [simp]: "idx (upd a k) = k"
    and payload_upd [simp]: "payload (upd a k) = payload a"
begin

lemma less_irrefl [simp]: "\<not> lt a a"
  using less_asym by blast

lemma heap_root_least:
  assumes "heap_ok lt h n" "k < n"
  shows "\<not> lt (h ! k) (h ! 0)"
  using assms(2)
proof (induction k rule: less_induct)
  case (less k)
  show ?case
  proof (cases "k = 0")
    case False
    let ?p = "(k - 1) div 2"
    have p: "?p < k" "?p < n" using False less.prems by auto
    then have "\<not> lt (h ! ?p) (h ! 0)" by (rule less.IH)
    moreover have "\<not> lt (h ! k) (h ! ?p)"
      using assms(1) False less.prems by (simp add: heap_ok_def)
    ultimately show ?thesis using less_negtrans by metis
  qed simp
qed

subsection \<open>Sifting up\<close>

text \<open>The heap property holds but for the element at \<open>j\<close> against its parent.\<close>

definition up_inv :: "'a list \<Rightarrow> nat \<Rightarrow> bool" where
  "up_inv h j \<longleftrightarrow> j < length h \<and>
     (\<forall>k. 0 < k \<and> k < length h \<and> k \<noteq> j \<longrightarrow> \<not> lt (h ! k) (h ! ((k - 1) div 2))) \<and>
     (\<forall>k. 0 < k \<and> k < length h \<and> (k - 1) div 2 = j \<and> 0 < j \<longrightarrow>
        \<not> lt (h ! k) (h ! ((j - 1) div 2)))"

lemma up_inv_swap:
  assumes inv: "up_inv h j" and j: "0 < j" and lt: "lt (h ! j) (h ! ((j - 1) div 2))"
  shows "up_inv (heap_swap upd h ((j - 1) div 2) j) ((j - 1) div 2)"
proof -
  let ?i = "(j - 1) div 2"
  have jl: "j < length h" and ij: "?i < j" "?i < length h"
    using inv j by (auto simp: up_inv_def)
  have old: "\<not> lt (h ! k) (h ! ((k - 1) div 2))" if "0 < k" "k < length h" "k \<noteq> j" for k
    using inv that by (simp add: up_inv_def)
  have gp: "\<not> lt (h ! k) (h ! ?i)" if "0 < k" "k < length h" "(k - 1) div 2 = j" for k
    using inv that j by (simp add: up_inv_def)
  have sib: "\<not> lt (h ! k) (h ! j)" if "0 < k" "k < length h" "(k - 1) div 2 = ?i" "k \<noteq> j" for k
    using old [of k] lt that less_negtrans less_asym by metis
  have "\<not> lt (heap_swap upd h ?i j ! k) (heap_swap upd h ?i j ! ((k - 1) div 2))"
    if k: "0 < k" "k < length h" "k \<noteq> ?i" for k
  proof (cases "k = j")
    case True
    with ij jl lt show ?thesis by (simp add: nth_heap_swap less_asym)
  next
    case False
    with k ij jl old [of k] gp [of k] sib [of k] show ?thesis by (auto simp: nth_heap_swap)
  qed
  moreover have "\<not> lt (heap_swap upd h ?i j ! k) (heap_swap upd h ?i j ! ((?i - 1) div 2))"
    if k: "0 < k" "k < length h" "(k - 1) div 2 = ?i" "0 < ?i" for k
  proof -
    have pi: "(?i - 1) div 2 \<noteq> j" "(?i - 1) div 2 \<noteq> ?i" "(?i - 1) div 2 < length h"
      using ij parent_less [OF k(4)] by linarith+
    have base: "\<not> lt (h ! ?i) (h ! ((?i - 1) div 2))" using old [of ?i] ij k by auto
    show ?thesis
    proof (cases "k = j")
      case True
      with pi base ij jl show ?thesis by (simp add: nth_heap_swap)
    next
      case False
      with k have "k \<noteq> ?i" "\<not> lt (h ! k) (h ! ?i)" using old [of k] by auto
      then have "\<not> lt (h ! k) (h ! ((?i - 1) div 2))" using base less_negtrans by metis
      with nth_heap_swap_other [OF \<open>k \<noteq> ?i\<close> False] nth_heap_swap_other [OF pi(2,1)]
      show ?thesis by metis
    qed
  qed
  ultimately show ?thesis using ij by (simp add: up_inv_def)
qed

lemma heap_up_ok: "up_inv h j \<Longrightarrow> heap_ok lt (fst (heap_up lt upd h j)) (length h)"
proof (induction j arbitrary: h rule: less_induct)
  case (less j)
  let ?i = "(j - 1) div 2"
  show ?case
  proof (cases "?i = j \<or> \<not> lt (h ! j) (h ! ?i)")
    case True
    then have "heap_ok lt h (length h)"
      using less.prems unfolding up_inv_def heap_ok_def by auto
    with True show ?thesis by (subst heap_up.simps) (simp add: Let_def)
  next
    case False
    then have j: "0 < j" "lt (h ! j) (h ! ?i)" "?i < j" by (auto intro: gr0I)
    have "heap_ok lt (fst (heap_up lt upd (heap_swap upd h ?i j) ?i)) (length h)"
      using less.IH [OF j(3) up_inv_swap [OF less.prems j(1,2)]] by simp
    with False show ?thesis by (subst heap_up.simps) (simp add: Let_def)
  qed
qed

lemma heap_up_indexed:
  assumes "indexed idx h" "j < length h"
  shows "indexed idx (fst (heap_up lt upd h j))"
  using assms
proof (induction j arbitrary: h rule: less_induct)
  case (less j)
  let ?i = "(j - 1) div 2"
  have "indexed idx (heap_swap upd h ?i j)"
    using less.prems by (auto simp: indexed_def nth_heap_swap)
  with less.IH [of ?i "heap_swap upd h ?i j"] less.prems show ?case
    by (subst heap_up.simps) (auto simp: Let_def)
qed

text \<open>The element that started at \<open>j\<close> ends at the returned position.\<close>

lemma heap_up_position:
  assumes "j < length h"
  shows "snd (heap_up lt upd h j) < length h \<and>
    payload (fst (heap_up lt upd h j) ! snd (heap_up lt upd h j)) = payload (h ! j)"
  using assms
proof (induction j arbitrary: h rule: less_induct)
  case (less j)
  let ?i = "(j - 1) div 2"
  show ?case
  proof (cases "?i = j \<or> \<not> lt (h ! j) (h ! ?i)")
    case True
    with less.prems show ?thesis by (subst (1 2 3) heap_up.simps) (simp add: Let_def)
  next
    case False
    then have i: "?i < j" "?i < length h" using less.prems by auto
    then have "payload (heap_swap upd h ?i j ! ?i) = payload (h ! j)"
      using less.prems by (simp add: nth_heap_swap)
    with less.IH [of ?i "heap_swap upd h ?i j"] i False show ?thesis
      by (subst (1 2 3) heap_up.simps) (simp add: Let_def)
  qed
qed

lemma mset_heap_swap [simp]:
  assumes "i < length h" "j < length h"
  shows "image_mset payload (mset (heap_swap upd h i j)) = image_mset payload (mset h)"
proof -
  have "map payload (heap_swap upd h i j) = (map payload h)[i := map payload h ! j, j := map payload h ! i]"
    using assms by (simp add: heap_swap_def map_update)
  with assms have "mset (map payload (heap_swap upd h i j)) = mset (map payload h)"
    by (simp only: length_map mset_swap)
  then show ?thesis by simp
qed

lemma mset_heap_up:
  assumes "j < length h"
  shows "image_mset payload (mset (fst (heap_up lt upd h j))) = image_mset payload (mset h)"
  using assms
proof (induction j arbitrary: h rule: less_induct)
  case (less j)
  let ?i = "(j - 1) div 2"
  have "?i < length h" using less.prems by auto
  with less.IH [of ?i "heap_swap upd h ?i j"] less.prems show ?case
    by (subst heap_up.simps) (auto simp: Let_def)
qed

subsection \<open>Sifting down\<close>

text \<open>The heap property holds on the first \<open>n\<close> but for the element at \<open>i\<close> against its children.\<close>

definition down_inv :: "'a list \<Rightarrow> nat \<Rightarrow> nat \<Rightarrow> bool" where
  "down_inv h i n \<longleftrightarrow> n \<le> length h \<and> i < n \<and>
     (\<forall>k. 0 < k \<and> k < n \<and> (k - 1) div 2 \<noteq> i \<longrightarrow> \<not> lt (h ! k) (h ! ((k - 1) div 2))) \<and>
     (\<forall>k. 0 < k \<and> k < n \<and> (k - 1) div 2 = i \<and> 0 < i \<longrightarrow> \<not> lt (h ! k) (h ! ((i - 1) div 2)))"

lemma child_cases: "0 < k \<Longrightarrow> (k - 1) div 2 = i \<Longrightarrow> k = 2 * i + 1 \<or> k = 2 * i + 1 + (1 :: nat)"
  by presburger

lemma down_inv_swap:
  assumes inv: "down_inv h i n" and j: "j < n" "0 < j" "(j - 1) div 2 = i"
    and least: "\<And>k. 0 < k \<Longrightarrow> k < n \<Longrightarrow> (k - 1) div 2 = i \<Longrightarrow> \<not> lt (h ! k) (h ! j)"
    and jlt: "lt (h ! j) (h ! i)"
  shows "down_inv (heap_swap upd h i j) j n"
proof -
  have l: "i < j" "i < length h" "j < length h" "n \<le> length h"
    using inv j parent_less [OF j(2)] by (auto simp: down_inv_def)
  have old: "\<not> lt (h ! k) (h ! ((k - 1) div 2))" if "0 < k" "k < n" "(k - 1) div 2 \<noteq> i" for k
    using inv that by (simp add: down_inv_def)
  have gp: "\<not> lt (h ! k) (h ! ((i - 1) div 2))" if "0 < k" "k < n" "(k - 1) div 2 = i" "0 < i" for k
    using inv that by (simp add: down_inv_def)
  have "\<not> lt (heap_swap upd h i j ! k) (heap_swap upd h i j ! ((k - 1) div 2))"
    if k: "0 < k" "k < n" "(k - 1) div 2 \<noteq> j" for k
  proof (cases "(k - 1) div 2 = i")
    case True
    then have "k \<noteq> i" using parent_less [OF k(1)] by auto
    with True k l least [of k] jlt show ?thesis by (auto simp: nth_heap_swap less_asym)
  next
    case False
    then have "k \<noteq> j" using j by auto
    with False k l old [of k] gp [OF j(2,1,3)] show ?thesis by (auto simp: nth_heap_swap)
  qed
  moreover have "\<not> lt (heap_swap upd h i j ! k) (heap_swap upd h i j ! ((j - 1) div 2))"
    if k: "0 < k" "k < n" "(k - 1) div 2 = j" for k
  proof -
    have "k \<noteq> j" "k \<noteq> i" using parent_less [OF k(1)] k l by auto
    moreover have "\<not> lt (h ! k) (h ! j)" using old [of k] k l by auto
    ultimately show ?thesis using j l by (simp add: nth_heap_swap)
  qed
  ultimately show ?thesis using l j by (simp add: down_inv_def)
qed

lemma down_child_least:
  assumes k: "0 < k" "k < n" "(k - 1) div 2 = i"
  shows "\<not> lt (h ! k) (h ! down_child lt h i n)"
proof (cases "k = down_child lt h i n")
  case False
  with child_cases [OF k(1,3)] k(2) show ?thesis
    by (elim disjE) (auto simp: down_child_def split: if_splits dest: less_asym)
qed simp

lemma heap_down_ok: "down_inv h i n \<Longrightarrow> heap_ok lt (heap_down lt upd h i n) n"
proof (induction "n - i" arbitrary: h i rule: less_induct)
  case less
  let ?j = "down_child lt h i n"
  note eq = heap_down_unfold [of lt upd h i n]
  have whole: "heap_ok lt h n"
    if stop: "\<And>k. 0 < k \<Longrightarrow> k < n \<Longrightarrow> (k - 1) div 2 = i \<Longrightarrow> \<not> lt (h ! k) (h ! i)"
    using less.prems stop unfolding down_inv_def heap_ok_def by metis
  consider (leaf) "n \<le> 2 * i + 1" | (stop) "2 * i + 1 < n" "\<not> lt (h ! ?j) (h ! i)"
    | (swap) "2 * i + 1 < n" "lt (h ! ?j) (h ! i)" by linarith
  then show ?case
  proof cases
    case leaf
    then have "heap_ok lt h n" by (intro whole) (auto dest: child_cases)
    with leaf eq show ?thesis by simp
  next
    case stop
    then have "heap_ok lt h n"
      using down_child_least less_negtrans by (intro whole) metis
    with stop eq show ?thesis by simp
  next
    case swap
    note j = down_child_props [OF swap(1), of lt h]
    have "down_inv (heap_swap upd h i ?j) ?j n"
      using down_inv_swap [OF less.prems j(1-3) down_child_least swap(2)] by simp
    then have "heap_ok lt (heap_down lt upd (heap_swap upd h i ?j) ?j n) n"
      using j swap by (intro less.hyps) auto
    with swap eq show ?thesis by simp
  qed
qed

lemma mset_heap_down:
  assumes "n \<le> length h" "i < n"
  shows "image_mset payload (mset (heap_down lt upd h i n)) = image_mset payload (mset h)"
  using assms
proof (induction "n - i" arbitrary: h i rule: less_induct)
  case less
  let ?j = "down_child lt h i n"
  show ?case
  proof (cases "n \<le> 2 * i + 1 \<or> \<not> lt (h ! ?j) (h ! i)")
    case True
    then show ?thesis by (subst heap_down_unfold) simp
  next
    case False
    then have j: "?j < n" "i < ?j" using down_child_props [of i n lt h] by auto
    with less.prems less.hyps [of ?j "heap_swap upd h i ?j"] False show ?thesis
      by (subst heap_down_unfold) simp
  qed
qed

lemma heap_down_indexed:
  assumes "indexed idx h" "n \<le> length h" "i < n"
  shows "indexed idx (heap_down lt upd h i n)"
  using assms
proof (induction "n - i" arbitrary: h i rule: less_induct)
  case less
  let ?j = "down_child lt h i n"
  show ?case
  proof (cases "n \<le> 2 * i + 1 \<or> \<not> lt (h ! ?j) (h ! i)")
    case True
    with less.prems show ?thesis by (subst heap_down_unfold) simp
  next
    case False
    then have j: "?j < n" "i < ?j" using down_child_props [of i n lt h] by auto
    with less.prems have "indexed idx (heap_swap upd h i ?j)"
      by (auto simp: indexed_def nth_heap_swap)
    with less.prems less.hyps [of ?j "heap_swap upd h i ?j"] j False show ?thesis
      by (subst heap_down_unfold) simp
  qed
qed

subsection \<open>Pushing and popping\<close>

lemma heap_push_wf:
  assumes "heap_wf lt idx h"
  shows "heap_wf lt idx (fst (heap_push lt upd h x))"
proof -
  let ?h = "h @ [upd x (int (length h))]"
  have "up_inv ?h (length h)"
    using assms parent_less [of "length h"] less_irrefl
    by (auto simp: up_inv_def heap_wf_def heap_ok_def nth_append)
  moreover have "indexed idx ?h"
    using assms by (auto simp: indexed_def heap_wf_def nth_append)
  ultimately show ?thesis
    using heap_up_ok [of ?h "length h"] heap_up_indexed [of ?h "length h"]
    by (simp add: heap_wf_def heap_push_def)
qed

lemma length_heap_push [simp]: "length (fst (heap_push lt upd h x)) = Suc (length h)"
  by (simp add: heap_push_def)

lemma mset_heap_push:
  "image_mset payload (mset (fst (heap_push lt upd h x))) =
     add_mset (payload x) (image_mset payload (mset h))"
  by (simp add: heap_push_def mset_heap_up)

lemma heap_push_position:
  assumes "heap_wf lt idx h" "heap_push lt upd h x = (h', p)"
  shows "p < length h'" "payload (h' ! p) = payload x" "idx (h' ! p) = int p"
proof -
  let ?h = "h @ [upd x (int (length h))]"
  have eq: "h' = fst (heap_up lt upd ?h (length h))" "p = snd (heap_up lt upd ?h (length h))"
    using assms(2) by (auto simp: heap_push_def)
  from heap_up_position [of "length h" ?h] eq
  show p: "p < length h'" and "payload (h' ! p) = payload x" by (simp_all add: nth_append)
  from heap_push_wf [OF assms(1), of x] assms(2) have "indexed idx h'" by (simp add: heap_wf_def)
  with p show "idx (h' ! p) = int p" by (simp add: indexed_def)
qed

text \<open>The list that \<open>heap_pop\<close> works on before it cuts the last element off.\<close>

lemma heap_pop_body:
  assumes wf: "heap_wf lt idx h" and ne: "h \<noteq> []"
    and h2: "h2 = heap_down lt upd (heap_swap upd h 0 (length h - 1)) 0 (length h - 1)"
  shows "length h2 = length h" "heap_ok lt h2 (length h - 1)" "indexed idx h2"
    "image_mset payload (mset h2) = image_mset payload (mset h)"
    "h2 ! (length h - 1) = upd (h ! 0) (int (length h - 1))"
proof -
  let ?n = "length h - 1" and ?h1 = "heap_swap upd h 0 (length h - 1)"
  have n: "?n < length h" "0 < length h" using ne by (auto intro: diff_less)
  show "length h2 = length h" by (simp add: h2)
  have idx1: "indexed idx ?h1"
    using wf n by (auto simp: heap_wf_def indexed_def nth_heap_swap)
  have last1: "?h1 ! ?n = upd (h ! 0) (int ?n)" using n by (simp add: nth_heap_swap)
  have "heap_ok lt h2 ?n \<and> indexed idx h2 \<and>
    image_mset payload (mset h2) = image_mset payload (mset h) \<and> h2 ! ?n = upd (h ! 0) (int ?n)"
  proof (cases "?n = 0")
    case True
    then have "h2 = ?h1" by (simp add: h2 heap_down.simps)
    with True idx1 last1 n show ?thesis by (simp add: heap_ok_def)
  next
    case False
    have "\<not> lt (?h1 ! k) (?h1 ! ((k - 1) div 2))" if "0 < k" "k < ?n" "(k - 1) div 2 \<noteq> 0" for k
    proof -
      have "(k - 1) div 2 < ?n" using that parent_less [of k] by linarith
      with that n wf show ?thesis by (auto simp: nth_heap_swap heap_wf_def heap_ok_def)
    qed
    then have "down_inv ?h1 0 ?n" using n False by (auto simp: down_inv_def)
    then have "heap_ok lt h2 ?n" unfolding h2 by (rule heap_down_ok)
    with idx1 last1 n False show ?thesis
      using heap_down_indexed [of ?h1 ?n 0] mset_heap_down [of ?n ?h1 0]
        heap_down_beyond [of 0 ?n ?n ?h1] by (simp add: h2)
  qed
  then show "heap_ok lt h2 ?n" "indexed idx h2"
    "image_mset payload (mset h2) = image_mset payload (mset h)" "h2 ! ?n = upd (h ! 0) (int ?n)"
    by blast+
qed

lemma heap_pop_spec:
  assumes wf: "heap_wf lt idx h" and ne: "h \<noteq> []"
  obtains x h' where "heap_pop lt upd h = Some (x, h')" "heap_wf lt idx h'"
    "length h = Suc (length h')" "payload x = payload (h ! 0)" "idx x = - 1"
    "image_mset payload (mset h) = add_mset (payload x) (image_mset payload (mset h'))"
    "\<And>y. y \<in> set h \<Longrightarrow> \<not> lt y x"
proof -
  define n where "n = length h - 1"
  define h2 where "h2 = heap_down lt upd (heap_swap upd h 0 n) 0 n"
  define x where "x = upd (h2 ! n) (- 1)"
  note body = heap_pop_body [OF wf ne, folded n_def, OF h2_def]
  have n: "length h = Suc n" using ne by (simp add: n_def)
  have pop: "heap_pop lt upd h = Some (x, take n h2)"
    using ne by (simp add: heap_pop_def n_def h2_def x_def Let_def)
  have "heap_wf lt idx (take n h2)"
    using body n heap_ok_take [OF body(2)] by (simp add: heap_wf_def indexed_def)
  moreover have "h2 = take n h2 @ [h2 ! n]"
    using body(1) n by (metis lessI take_Suc_conv_app_nth take_all order_refl)
  then have "image_mset payload (mset h2) = add_mset (payload (h2 ! n)) (image_mset payload (mset (take n h2)))"
    by (metis mset_append mset_single_iff union_mset_add_mset_right add.right_neutral
        image_mset_add_mset mset.simps(1,2))
  then have "image_mset payload (mset h) = add_mset (payload x) (image_mset payload (mset (take n h2)))"
    using body(4) by (simp add: x_def)
  moreover have "\<not> lt y x" if "y \<in> set h" for y
  proof -
    from that obtain k where "k < length h" "y = h ! k" by (auto simp: in_set_conv_nth)
    with wf have "\<not> lt y (h ! 0)" using heap_root_least [of h "length h" k] by (simp add: heap_wf_def)
    with body(5) show ?thesis by (simp add: x_def)
  qed
  ultimately show ?thesis
    using that [OF pop] body(1,5) n by (simp add: x_def)
qed

lemma heap_pop_None: "heap_pop lt upd h = None \<longleftrightarrow> h = []"
  by (simp add: heap_pop_def Let_def)

end

end
