(* ===== verification/Priority_Queue.thy ===== *)
theory Priority_Queue
  imports Task_Queue_Spec Go_Heap "HOL-Library.Product_Lexorder"
begin

text \<open>
  \<^verbatim>\<open>PriorityTaskQueue\<close> of \<^verbatim>\<open>core/queue.go\<close>: a binary heap ordered by descending
  priority, ties broken by a 64-bit sequence number. Every operation runs under the queue's
  mutex. The queue is shown to refine a stable priority list: a pushed item lands behind every
  queued item of the same or a higher priority, and \<^verbatim>\<open>Pop\<close> takes the first item of that list,
  as long as the sequence counter has not wrapped around on a queue that is not empty.
\<close>

section \<open>The heap's elements and comparison\<close>

record 't priorityItem =
  pi_TaskItem :: "'t TaskItem"
  pi_sequence :: "64 word"
  pi_index :: int

definition priorityHeap_Less :: "'t priorityItem \<Rightarrow> 't priorityItem \<Rightarrow> bool" where
  "priorityHeap_Less a b =
     (if item_priority (pi_TaskItem a) > item_priority (pi_TaskItem b) then True
      else if item_priority (pi_TaskItem a) < item_priority (pi_TaskItem b) then False
      else pi_sequence a < pi_sequence b)"

definition pi_set_index :: "'t priorityItem \<Rightarrow> int \<Rightarrow> 't priorityItem" where
  "pi_set_index x k = x\<lparr>pi_index := k\<rparr>"

definition priorityHeap_Swap :: "'t priorityItem list \<Rightarrow> nat \<Rightarrow> nat \<Rightarrow> 't priorityItem list" where
  "priorityHeap_Swap h i j = h[i := (h ! j)\<lparr>pi_index := int i\<rparr>, j := (h ! i)\<lparr>pi_index := int j\<rparr>]"

definition priorityHeap_Push :: "'t priorityItem list \<Rightarrow> 't priorityItem \<Rightarrow> 't priorityItem list" where
  "priorityHeap_Push h x = h @ [x\<lparr>pi_index := int (length h)\<rparr>]"

definition priorityHeap_Pop :: "'t priorityItem list \<Rightarrow> 't priorityItem \<times> 't priorityItem list" where
  "priorityHeap_Pop h = (let n = length h in ((h ! (n - 1))\<lparr>pi_index := - 1\<rparr>, take (n - 1) h))"

text \<open>The generic heap of \<open>Go_Heap\<close> at these operations calls exactly the methods above.\<close>

lemma heap_swap_priority: "heap_swap pi_set_index = priorityHeap_Swap"
  by (simp add: fun_eq_iff heap_swap_def priorityHeap_Swap_def pi_set_index_def)

lemma heap_push_priority:
  "heap_push lt pi_set_index h x = heap_up lt pi_set_index (priorityHeap_Push h x) (length h)"
  by (simp add: heap_push_def priorityHeap_Push_def pi_set_index_def)

lemma heap_pop_priority:
  "h \<noteq> [] \<Longrightarrow> heap_pop lt pi_set_index h =
     Some (priorityHeap_Pop (heap_down lt pi_set_index (priorityHeap_Swap h 0 (length h - 1)) 0 (length h - 1)))"
  by (simp add: heap_pop_def Let_def priorityHeap_Pop_def pi_set_index_def heap_swap_priority [symmetric])

section \<open>The queue\<close>

record 't PriorityTaskQueue =
  pq :: "'t priorityItem list"
  nextSequence :: "64 word"

definition NewPriorityTaskQueue :: "'t PriorityTaskQueue" where
  "NewPriorityTaskQueue = \<lparr>pq = [], nextSequence = 0\<rparr>"

definition PQ_PushWithID ::
  "TaskID \<Rightarrow> 't \<Rightarrow> TaskTraits \<Rightarrow> 't PriorityTaskQueue \<Rightarrow> TaskID \<times> 't PriorityTaskQueue" where
  "PQ_PushWithID i t traits q =
     (let ns = (if nextSequence q = - 1 then (if pq q = [] then 0 else nextSequence q)
                else nextSequence q);
          item = \<lparr>pi_TaskItem = \<lparr>Task = t, Traits = traits, ID = i\<rparr>, pi_sequence = ns, pi_index = 0\<rparr>;
          (h, _) = heap_push priorityHeap_Less pi_set_index (pq q) item
      in (i, \<lparr>pq = h, nextSequence = ns + 1\<rparr>))"

definition PQ_Push ::
  "TaskID \<Rightarrow> 't \<Rightarrow> TaskTraits \<Rightarrow> 't PriorityTaskQueue \<Rightarrow> 't PriorityTaskQueue" where
  "PQ_Push i t traits q = snd (PQ_PushWithID i t traits q)"

definition PQ_Pop :: "'t PriorityTaskQueue \<Rightarrow> 't TaskItem option \<times> 't PriorityTaskQueue" where
  "PQ_Pop q =
     (if pq q = [] then (None, q)
      else case heap_pop priorityHeap_Less pi_set_index (pq q) of
             None \<Rightarrow> (None, q)
           | Some (x, h) \<Rightarrow> (Some (pi_TaskItem x), q\<lparr>pq := h\<rparr>))"

text \<open>
  The loop of \<^verbatim>\<open>PopUpTo\<close>: \<open>count\<close> pops of the heap. The outer \<open>None\<close> of
  \<open>PQ_PopUpTo\<close> is the panic of \<^verbatim>\<open>make\<close> with a negative length, the inner one the nil slice.
\<close>

fun PQ_pop_batch :: "nat \<Rightarrow> 't PriorityTaskQueue \<Rightarrow> 't TaskItem list \<times> 't PriorityTaskQueue" where
  "PQ_pop_batch 0 q = ([], q)"
| "PQ_pop_batch (Suc n) q =
     (case heap_pop priorityHeap_Less pi_set_index (pq q) of
        None \<Rightarrow> ([], q)
      | Some (x, h) \<Rightarrow> let (xs, q') = PQ_pop_batch n (q\<lparr>pq := h\<rparr>) in (pi_TaskItem x # xs, q'))"

definition PQ_PopUpTo ::
  "int \<Rightarrow> 't PriorityTaskQueue \<Rightarrow> ('t TaskItem list option \<times> 't PriorityTaskQueue) option" where
  "PQ_PopUpTo mx q =
     (let count = int (length (pq q)) in
      if count = 0 then Some (None, q)
      else let count = (if count > mx then mx else count) in
           if count < 0 then None
           else let (batch, q') = PQ_pop_batch (nat count) q in Some (Some batch, q'))"

definition PQ_PeekTraits :: "'t PriorityTaskQueue \<Rightarrow> TaskTraits option" where
  "PQ_PeekTraits q = (if pq q = [] then None else Some (Traits (pi_TaskItem (pq q ! 0))))"

definition PQ_Len :: "'t PriorityTaskQueue \<Rightarrow> nat" where
  "PQ_Len q = length (pq q)"

definition PQ_IsEmpty :: "'t PriorityTaskQueue \<Rightarrow> bool" where
  "PQ_IsEmpty q \<longleftrightarrow> PQ_Len q = 0"

definition PQ_MaybeCompact :: "'t PriorityTaskQueue \<Rightarrow> 't PriorityTaskQueue" where
  "PQ_MaybeCompact q = q"

definition PQ_Clear :: "'t PriorityTaskQueue \<Rightarrow> 't PriorityTaskQueue" where
  "PQ_Clear q = \<lparr>pq = heap_init priorityHeap_Less pi_set_index [], nextSequence = 0\<rparr>"

section \<open>The comparison satisfies the heap's contract\<close>

definition pq_payload :: "'t priorityItem \<Rightarrow> 't TaskItem \<times> 64 word" where
  "pq_payload x = (pi_TaskItem x, pi_sequence x)"

definition pq_key :: "'t TaskItem \<times> 64 word \<Rightarrow> int \<times> nat" where
  "pq_key = (\<lambda>(it, s). (- item_priority it, unat s))"

lemma priorityHeap_Less_key:
  "priorityHeap_Less a b \<longleftrightarrow> pq_key (pq_payload a) < pq_key (pq_payload b)"
  by (auto simp: priorityHeap_Less_def pq_key_def pq_payload_def word_less_nat_alt)

lemma pq_payload_set_index [simp]: "pq_payload (pi_set_index a k) = pq_payload a"
  by (simp add: pq_payload_def pi_set_index_def)

interpretation ph: go_heap priorityHeap_Less pi_set_index pi_index pq_payload
  by unfold_locales (auto simp: priorityHeap_Less_key pi_set_index_def pq_payload_def)

section \<open>The queue refines a stable priority list\<close>

definition pq_pairs :: "'t PriorityTaskQueue \<Rightarrow> ('t TaskItem \<times> 64 word) list" where
  "pq_pairs q = sort_key pq_key (map pq_payload (pq q))"

definition pq_contents :: "'t PriorityTaskQueue \<Rightarrow> 't TaskItem list" where
  "pq_contents q = map fst (pq_pairs q)"

definition pq_invar :: "'t PriorityTaskQueue \<Rightarrow> bool" where
  "pq_invar q \<longleftrightarrow> heap_wf priorityHeap_Less pi_index (pq q) \<and>
     distinct (map pi_sequence (pq q)) \<and> (\<forall>x \<in> set (pq q). pi_sequence x < nextSequence q)"

text \<open>Room for one more sequence number: the counter is not at its last value, or will be reset.\<close>

definition pq_room :: "'t PriorityTaskQueue \<Rightarrow> bool" where
  "pq_room q \<longleftrightarrow> nextSequence q \<noteq> - 1 \<or> pq q = []"

lemma sorted_key_insert:
  fixes f :: "'a \<Rightarrow> 'b :: linorder"
  shows "sorted (map f xs) \<Longrightarrow> (\<And>y. y \<in> set xs \<Longrightarrow> Q y \<longleftrightarrow> f y \<le> f p) \<Longrightarrow>
   sorted (map f (takeWhile Q xs @ p # dropWhile Q xs))"
proof (induction xs)
  case (Cons y xs)
  then show ?case by (auto simp: not_le dest: set_takeWhileD set_dropWhileD)
qed simp

lemma distinct_pq_keys: "distinct (map pi_sequence h) \<Longrightarrow> distinct (map pq_key (map pq_payload h))"
  by (induction h) (auto simp: pq_key_def pq_payload_def image_iff word_unat_eq_iff)

lemma pq_pairs_Nil [simp]: "pq_pairs q = [] \<longleftrightarrow> pq q = []"
  by (metis pq_pairs_def length_0_conv length_map length_sort)

lemma pq_contents_Nil [simp]: "pq_contents q = [] \<longleftrightarrow> pq q = []"
  by (simp add: pq_contents_def)

lemma sorted_pq_pairs: "sorted (map pq_key (pq_pairs q))"
  by (simp add: pq_pairs_def)

lemma mset_pq_pairs: "mset (pq_pairs q) = image_mset pq_payload (mset (pq q))"
  by (simp add: pq_pairs_def)

lemma mset_sequences: "mset (map pi_sequence h) = image_mset snd (image_mset pq_payload (mset h))"
  by (simp add: multiset.map_comp comp_def pq_payload_def)

lemma sequences_add:
  assumes "image_mset pq_payload (mset h) = add_mset p (image_mset pq_payload (mset h'))"
  shows "distinct (map pi_sequence h) \<longleftrightarrow> distinct (snd p # map pi_sequence h')"
    "pi_sequence ` set h = insert (snd p) (pi_sequence ` set h')"
proof -
  have m: "mset (map pi_sequence h) = mset (snd p # map pi_sequence h')"
    unfolding mset_sequences assms mset.simps by simp
  from m show "distinct (map pi_sequence h) \<longleftrightarrow> distinct (snd p # map pi_sequence h')"
    by (rule mset_eq_imp_distinct_iff)
  from mset_eq_setD [OF m] show "pi_sequence ` set h = insert (snd p) (pi_sequence ` set h')" by simp
qed

text \<open>The new state of a push, with the sequence number the item gets.\<close>

lemma pq_push_state:
  assumes inv: "pq_invar q" and room: "pq_room q"
  obtains ns where "fst (PQ_PushWithID i t tr q) = i"
    "image_mset pq_payload (mset (pq (PQ_Push i t tr q))) =
       add_mset (\<lparr>Task = t, Traits = tr, ID = i\<rparr>, ns) (image_mset pq_payload (mset (pq q)))"
    "heap_wf priorityHeap_Less pi_index (pq (PQ_Push i t tr q))"
    "nextSequence (PQ_Push i t tr q) = ns + 1" "ns \<noteq> - 1" "\<forall>x \<in> set (pq q). pi_sequence x < ns"
proof -
  define ns where "ns = (if nextSequence q = - 1 \<and> pq q = [] then 0 else nextSequence q)"
  define item where "item = \<lparr>pi_TaskItem = \<lparr>Task = t, Traits = tr, ID = i\<rparr>, pi_sequence = ns, pi_index = 0\<rparr>"
  have eq: "PQ_PushWithID i t tr q =
      (i, \<lparr>pq = fst (heap_push priorityHeap_Less pi_set_index (pq q) item), nextSequence = ns + 1\<rparr>)"
    by (auto simp: PQ_PushWithID_def item_def ns_def Let_def split: prod.splits)
  have "ns \<noteq> - 1" "\<forall>x \<in> set (pq q). pi_sequence x < ns"
    using inv room by (auto simp: ns_def pq_room_def pq_invar_def)
  moreover have "heap_wf priorityHeap_Less pi_index (pq q)" using inv by (simp add: pq_invar_def)
  ultimately show ?thesis
    using that [of ns] ph.heap_push_wf [of "pq q" item] ph.mset_heap_push [of "pq q" item]
    by (simp add: eq PQ_Push_def item_def pq_payload_def)
qed

lemma less_word_suc: "ns \<noteq> - 1 \<Longrightarrow> x < ns + 1 \<longleftrightarrow> x \<le> (ns :: 64 word)"
  using inc_less_eq_iff [of ns x] by (auto simp: not_less simp flip: not_le)

lemma pq_push:
  assumes inv: "pq_invar q" and room: "pq_room q"
  shows "pq_invar (PQ_Push i t tr q)"
    "pq_contents (PQ_Push i t tr q) = stable_insert \<lparr>Task = t, Traits = tr, ID = i\<rparr> (pq_contents q)"
proof -
  let ?it = "\<lparr>Task = t, Traits = tr, ID = i\<rparr>" and ?q' = "PQ_Push i t tr q"
  obtain ns where pay: "image_mset pq_payload (mset (pq ?q')) = add_mset (?it, ns) (image_mset pq_payload (mset (pq q)))"
    and wf: "heap_wf priorityHeap_Less pi_index (pq ?q')" and next': "nextSequence ?q' = ns + 1"
    and ns: "ns \<noteq> - 1" "\<forall>x \<in> set (pq q). pi_sequence x < ns"
    using pq_push_state [OF inv room, of i t tr] by metis
  note sq = sequences_add [OF pay]
  have dist: "distinct (map pi_sequence (pq ?q'))"
    using sq(1) inv ns(2) by (auto simp: pq_invar_def)
  have "pi_sequence x < ns + 1" if "x \<in> set (pq ?q')" for x
  proof -
    from that sq(2) have "pi_sequence x = ns \<or> (\<exists>y \<in> set (pq q). pi_sequence x = pi_sequence y)"
      by (auto simp: set_eq_iff image_iff)
    with ns show ?thesis by (auto simp: less_word_suc)
  qed
  with dist wf next' show inv': "pq_invar ?q'" by (simp add: pq_invar_def)
  let ?Q = "\<lambda>y. item_priority ?it \<le> item_priority (fst y)"
  let ?ys = "takeWhile ?Q (pq_pairs q) @ (?it, ns) # dropWhile ?Q (pq_pairs q)"
  have sub: "snd y < ns" if "y \<in> set (pq_pairs q)" for y
    using that ns(2) by (auto simp: pq_pairs_def pq_payload_def)
  have "sorted (map pq_key ?ys)"
  proof (rule sorted_key_insert [OF sorted_pq_pairs])
    fix y assume "y \<in> set (pq_pairs q)"
    with sub [of y] show "?Q y \<longleftrightarrow> pq_key y \<le> pq_key (?it, ns)"
      by (auto simp: pq_key_def word_less_nat_alt split: prod.splits)
  qed
  moreover have "mset ?ys = mset (map pq_payload (pq ?q'))"
    unfolding mset_insert_between mset_map pay mset_pq_pairs ..
  ultimately have "pq_pairs ?q' = ?ys"
    unfolding pq_pairs_def by (intro sort_key_unique distinct_pq_keys [OF dist]) simp_all
  then show "pq_contents ?q' = stable_insert ?it (pq_contents q)"
    by (simp add: pq_contents_def stable_insert_def takeWhile_map dropWhile_map comp_def)
qed

lemma pq_pop_heap:
  assumes inv: "pq_invar q" and ne: "pq q \<noteq> []"
  obtains x h p ps where "heap_pop priorityHeap_Less pi_set_index (pq q) = Some (x, h)"
    "pq_pairs q = p # ps" "pi_TaskItem x = fst p" "pq_pairs (q\<lparr>pq := h\<rparr>) = ps" "pq_invar (q\<lparr>pq := h\<rparr>)"
    "pi_TaskItem x = pi_TaskItem (pq q ! 0)"
proof -
  have wf: "heap_wf priorityHeap_Less pi_index (pq q)" using inv by (simp add: pq_invar_def)
  obtain x h where pop: "heap_pop priorityHeap_Less pi_set_index (pq q) = Some (x, h)"
    and wf': "heap_wf priorityHeap_Less pi_index h" and root: "pq_payload x = pq_payload (pq q ! 0)"
    and pay: "image_mset pq_payload (mset (pq q)) = add_mset (pq_payload x) (image_mset pq_payload (mset h))"
    and least: "\<And>y. y \<in> set (pq q) \<Longrightarrow> \<not> priorityHeap_Less y x"
    using ph.heap_pop_spec [OF wf ne] by metis
  let ?q' = "q\<lparr>pq := h\<rparr>"
  note sq = sequences_add [OF pay]
  have "pi_sequence y < nextSequence q" if "y \<in> set h" for y
  proof -
    from that sq(2) have "pi_sequence y \<in> pi_sequence ` set (pq q)" by auto
    with inv show ?thesis by (auto simp: pq_invar_def)
  qed
  with inv wf' sq(1) have inv': "pq_invar ?q'" by (simp add: pq_invar_def)
  have "sorted (map pq_key (pq_payload x # pq_pairs ?q'))"
  proof -
    have "pq_payload ` set h \<subseteq> pq_payload ` set (pq q)"
      using arg_cong [OF pay, of set_mset] by auto
    then have "pq_key (pq_payload x) \<le> pq_key y" if "y \<in> pq_payload ` set h" for y
      using that least by (auto simp: priorityHeap_Less_key not_less)
    then show ?thesis by (auto simp: pq_pairs_def)
  qed
  moreover have "mset (pq_payload x # pq_pairs ?q') = mset (map pq_payload (pq q))"
    using pay by (simp add: mset_pq_pairs)
  moreover have "distinct (map pq_key (map pq_payload (pq q)))"
    using inv by (intro distinct_pq_keys) (simp add: pq_invar_def)
  ultimately have "pq_pairs q = pq_payload x # pq_pairs ?q'"
    unfolding pq_pairs_def [of q] by (intro sort_key_unique)
  with that [OF pop] inv' root show ?thesis by (auto simp: pq_payload_def)
qed

lemma pq_pop:
  assumes "pq_invar q" "pq_contents q = x # xs"
  shows "\<exists>q'. PQ_Pop q = (Some x, q') \<and> pq_contents q' = xs \<and> pq_invar q'"
proof -
  from assms(2) have ne: "pq q \<noteq> []" by (metis list.discI pq_contents_Nil)
  from pq_pop_heap [OF assms(1) ne] assms(2) ne show ?thesis
    by (fastforce simp: PQ_Pop_def pq_contents_def)
qed

lemma pq_peek:
  assumes "pq_invar q"
  shows "PQ_PeekTraits q = map_option Traits (case pq_contents q of [] \<Rightarrow> None | x # _ \<Rightarrow> Some x)"
proof (cases "pq q = []")
  case True
  then have "pq_contents q = []" by simp
  with True show ?thesis by (simp only: PQ_PeekTraits_def) simp
next
  case False
  from pq_pop_heap [OF assms False] False show ?thesis
    by (fastforce simp: PQ_PeekTraits_def pq_contents_def)
qed

lemma pq_is_stable_priority_queue:
  "task_queue pq_invar pq_room pq_contents stable_insert PQ_Push PQ_Pop PQ_PeekTraits PQ_Len PQ_Clear"
proof (unfold_locales, goal_cases)
  case (4 q)
  then show ?case by (simp add: PQ_Pop_def)
next
  case (5 q x xs)
  then show ?case by (rule pq_pop)
next
  case (6 q)
  then show ?case by (rule pq_peek)
next
  case (7 q)
  show ?case by (simp add: PQ_Len_def pq_contents_def pq_pairs_def)
next
  case (9 q)
  show ?case by (simp add: PQ_Clear_def pq_invar_def)
qed (simp_all add: pq_push PQ_Clear_def)

interpretation pri: task_queue pq_invar pq_room pq_contents stable_insert PQ_Push PQ_Pop
  PQ_PeekTraits PQ_Len PQ_Clear
  by (rule pq_is_stable_priority_queue)

lemma pq_new [simp]: "pq_invar NewPriorityTaskQueue" "pq_contents NewPriorityTaskQueue = []"
  by (simp_all add: NewPriorityTaskQueue_def pq_invar_def)

lemma pq_pop_batch:
  "pq_invar q \<Longrightarrow> n \<le> PQ_Len q \<Longrightarrow>
   \<exists>q'. PQ_pop_batch n q = (take n (pq_contents q), q') \<and> pq_contents q' = drop n (pq_contents q) \<and> pq_invar q'"
proof (induction n arbitrary: q)
  case (Suc n)
  then have ne: "pq q \<noteq> []" by (auto simp: PQ_Len_def)
  from Suc.prems(1) ne obtain x h p ps where pop: "heap_pop priorityHeap_Less pi_set_index (pq q) = Some (x, h)"
    and pairs: "pq_pairs q = p # ps" "pi_TaskItem x = fst p" "pq_pairs (q\<lparr>pq := h\<rparr>) = ps"
    and inv: "pq_invar (q\<lparr>pq := h\<rparr>)" by (rule pq_pop_heap)
  have "n \<le> PQ_Len (q\<lparr>pq := h\<rparr>)"
    using Suc.prems pairs pri.len_eq [OF inv] pri.len_eq [OF Suc.prems(1)] by (simp add: pq_contents_def)
  from Suc.IH [OF inv this] pop pairs show ?case by (auto simp: pq_contents_def)
qed simp

text \<open>Popping heaps of up to three elements, for evaluating small queues.\<close>

lemma small_heap_pops:
  "heap_pop lt upd [a] = Some (upd (upd a 0) (- 1), [])"
  "heap_pop lt upd [a, b] = Some (upd (upd a 1) (- 1), [upd b 0])"
  "\<not> lt b (upd c 0) \<Longrightarrow> heap_pop lt upd [a, b, c] = Some (upd (upd a 2) (- 1), [upd c 0, b])"
proof -
  have d0: "heap_down lt upd h 0 0 = h" "heap_down lt upd h 0 (Suc 0) = h" for h
    by (subst heap_down_unfold, simp)+
  show "heap_pop lt upd [a] = Some (upd (upd a 0) (- 1), [])"
    "heap_pop lt upd [a, b] = Some (upd (upd a 1) (- 1), [upd b 0])"
    by (simp_all add: heap_pop_def d0 heap_swap_def)
  assume "\<not> lt b (upd c 0)"
  then have "heap_down lt upd [upd c 0, b, x] 0 (Suc (Suc 0)) = [upd c 0, b, x]" for x
    by (subst heap_down_unfold) (simp add: down_child_def)
  then show "heap_pop lt upd [a, b, c] = Some (upd (upd a 2) (- 1), [upd c 0, b])"
    by (simp add: heap_pop_def heap_swap_def)
qed

section \<open>Many pushes\<close>

definition pushed_items :: "(TaskID \<times> 't \<times> TaskTraits) list \<Rightarrow> 't TaskItem list" where
  "pushed_items ps = map (\<lambda>(i, t, tr). \<lparr>Task = t, Traits = tr, ID = i\<rparr>) ps"

definition PQ_push_all :: "(TaskID \<times> 't \<times> TaskTraits) list \<Rightarrow> 't PriorityTaskQueue \<Rightarrow> 't PriorityTaskQueue" where
  "PQ_push_all ps q = fold (\<lambda>(i, t, tr). PQ_Push i t tr) ps q"

lemma unat_next_push:
  assumes "pq_invar q" "Suc (unat (nextSequence q)) < 2 ^ 64"
  shows "pq_room q" "unat (nextSequence (PQ_Push i t tr q)) = Suc (unat (nextSequence q))"
proof -
  have m: "unat (- 1 :: 64 word) = 2 ^ 64 - 1" by (simp add: unsigned_minus_1_eq_mask mask_eq_exp_minus_1)
  then have ne: "nextSequence q \<noteq> - 1" using assms(2) by auto
  then show "pq_room q" by (simp add: pq_room_def)
  have "unat (nextSequence q + 1) = Suc (unat (nextSequence q))"
    using assms(2) by (simp add: unat_word_ariths)
  with ne show "unat (nextSequence (PQ_Push i t tr q)) = Suc (unat (nextSequence q))"
    by (simp add: PQ_Push_def PQ_PushWithID_def Let_def split: prod.splits)
qed

lemma pq_push_all:
  "pq_invar q \<Longrightarrow> unat (nextSequence q) + length ps < 2 ^ 64 \<Longrightarrow>
   pq_invar (PQ_push_all ps q) \<and> pq_contents (PQ_push_all ps q) = fold stable_insert (pushed_items ps) (pq_contents q)"
proof (induction ps arbitrary: q)
  case Nil
  then show ?case by (simp add: PQ_push_all_def pushed_items_def)
next
  case (Cons p ps)
  obtain i t tr where p: "p = (i, t, tr)" by (cases p)
  from Cons.prems have r: "pq_room q" "unat (nextSequence (PQ_Push i t tr q)) = Suc (unat (nextSequence q))"
    by (simp_all add: unat_next_push)
  with Cons.prems pq_push [OF Cons.prems(1) r(1), of i t tr] Cons.IH [of "PQ_Push i t tr q"]
  show ?case by (simp add: p PQ_push_all_def pushed_items_def)
qed

section \<open>Properties\<close>


definition ex_pushes :: "(TaskID \<times> nat \<times> TaskTraits) list" where
  "ex_pushes = [(1, 10, TraitsBestEffort), (2, 20, TraitsUserBlocking), (3, 30, TraitsUserBlocking)]"

lemma ex_pq_contents:
  "pq_invar (PQ_push_all ex_pushes NewPriorityTaskQueue) \<and>
   pq_contents (PQ_push_all ex_pushes NewPriorityTaskQueue) =
     [\<lparr>Task = 20, Traits = TraitsUserBlocking, ID = 2\<rparr>, \<lparr>Task = 30, Traits = TraitsUserBlocking, ID = 3\<rparr>,
      \<lparr>Task = 10, Traits = TraitsBestEffort, ID = 1\<rparr>]"
  using pq_push_all [of NewPriorityTaskQueue ex_pushes]
  by (simp add: NewPriorityTaskQueue_def [THEN arg_cong, of nextSequence] ex_pushes_def pushed_items_def
      stable_insert_def traits_defs)


text \<open>
  C8: Draining a priority queue is a stable sort. If fewer than \<open>2^64\<close> items are pushed on
  a new queue, one \<^verbatim>\<open>PopUpTo\<close> that asks for at least that many returns all of them, highest
  priority first and in push order within a priority, and leaves the queue empty.
\<close>
theorem PQ_drain_is_stable_sort:
  assumes "length ps < 2 ^ 64" "ps \<noteq> []" "int (length ps) \<le> mx"
  shows "\<exists>q'. PQ_PopUpTo mx (PQ_push_all ps NewPriorityTaskQueue) =
      Some (Some (sort_key desc_priority (pushed_items ps)), q') \<and> pq_contents q' = []"
proof -
  let ?q = "PQ_push_all ps NewPriorityTaskQueue"
  have inv: "pq_invar ?q" and c: "pq_contents ?q = sort_key desc_priority (pushed_items ps)"
    using pq_push_all [of NewPriorityTaskQueue ps] assms(1)
    by (simp_all add: fold_stable_insert_is_sort NewPriorityTaskQueue_def [THEN arg_cong, of nextSequence])
  have len: "length (pq ?q) = length ps"
    using pri.len_eq [OF inv] c by (simp add: PQ_Len_def pushed_items_def)
  from pq_pop_batch [OF inv, of "length ps"] len c obtain q'
    where "PQ_pop_batch (length ps) ?q = (sort_key desc_priority (pushed_items ps), q')" "pq_contents q' = []"
    by (auto simp: PQ_Len_def pushed_items_def)
  with len assms(2,3) show ?thesis by (auto simp: PQ_PopUpTo_def Let_def)
qed

theorem PQ_drain_is_stable_sort_witness:
  "\<exists>q'. PQ_PopUpTo 8 (PQ_push_all ex_pushes NewPriorityTaskQueue) =
      Some (Some (sort_key desc_priority (pushed_items ex_pushes)), q') \<and> pq_contents q' = []"
  by (rule PQ_drain_is_stable_sort) (simp_all add: ex_pushes_def)

text \<open>
  The order is lost when the 64-bit sequence counter wraps on a queue that is not empty:
  there is a well-formed queue, its counter at the last value, on which two pushes of one priority
  come out in the opposite order, the second even before the item that was already there.
\<close>
theorem PQ_wrap_breaks_fifo:
  "\<exists>q :: nat PriorityTaskQueue. pq_invar q \<and> \<not> pq_room q \<and>
     (\<exists>q'. PQ_PopUpTo 3 (PQ_Push 3 30 DefaultTaskTraits (PQ_Push 2 20 DefaultTaskTraits q)) =
       Some (Some [\<lparr>Task = 30, Traits = DefaultTaskTraits, ID = 3\<rparr>,
                   \<lparr>Task = 10, Traits = DefaultTaskTraits, ID = 1\<rparr>,
                   \<lparr>Task = 20, Traits = DefaultTaskTraits, ID = 2\<rparr>], q'))"
proof -
  let ?q = "\<lparr>pq = [\<lparr>pi_TaskItem = \<lparr>Task = (10 :: nat), Traits = DefaultTaskTraits, ID = 1\<rparr>,
    pi_sequence = - 2, pi_index = 0\<rparr>], nextSequence = - 1\<rparr>"
  have "pq_invar ?q \<and> \<not> pq_room ?q"
    by (simp add: pq_invar_def pq_room_def heap_wf_def heap_ok_def indexed_def)
  moreover have "PQ_Push 3 30 DefaultTaskTraits (PQ_Push 2 20 DefaultTaskTraits ?q) =
    \<lparr>pq = [\<lparr>pi_TaskItem = \<lparr>Task = 30, Traits = DefaultTaskTraits, ID = 3\<rparr>, pi_sequence = 0, pi_index = 0\<rparr>,
           \<lparr>pi_TaskItem = \<lparr>Task = 20, Traits = DefaultTaskTraits, ID = 2\<rparr>, pi_sequence = - 1, pi_index = 1\<rparr>,
           \<lparr>pi_TaskItem = \<lparr>Task = 10, Traits = DefaultTaskTraits, ID = 1\<rparr>, pi_sequence = - 2, pi_index = 2\<rparr>],
     nextSequence = 1\<rparr>"
    by (simp add: PQ_Push_def PQ_PushWithID_def Let_def heap_push_def heap_up.simps heap_swap_def
        priorityHeap_Less_def pi_set_index_def word_gt_0)
  ultimately show ?thesis
    by (intro exI [of _ ?q])
      (simp add: PQ_PopUpTo_def numeral_3_eq_3 pi_set_index_def priorityHeap_Less_def small_heap_pops)
qed

end
