(* ===== verification/Delay_Manager.thy ===== *)
theory Delay_Manager
  imports Core_Task Go_Heap
begin

text \<open>
  \<^verbatim>\<open>DelayManager\<close> of \<^verbatim>\<open>core/delay_manager.go\<close>. Times and durations are integers
  (nanoseconds); the clock is an argument of every operation that calls \<^verbatim>\<open>time.Now\<close>. A target
  runner is a value of type \<open>'r\<close>. The first part models the operations one by one, each under
  the manager's mutex; the second part puts the goroutine \<^verbatim>\<open>loop\<close>, callers of
  \<^verbatim>\<open>AddDelayedTask\<close> and \<^verbatim>\<open>Stop\<close> and the passing of time into one transition function, in
  which they interleave freely.
\<close>

section \<open>The heap of delayed tasks\<close>

record ('t, 'r) DelayedTask =
  RunAt :: int
  dt_Task :: 't
  dt_Traits :: TaskTraits
  dt_Target :: 'r
  dt_index :: int

definition DelayedTaskHeap_Less :: "('t, 'r) DelayedTask \<Rightarrow> ('t, 'r) DelayedTask \<Rightarrow> bool" where
  "DelayedTaskHeap_Less a b \<longleftrightarrow> RunAt a < RunAt b"

definition dt_set_index :: "('t, 'r) DelayedTask \<Rightarrow> int \<Rightarrow> ('t, 'r) DelayedTask" where
  "dt_set_index x k = x\<lparr>dt_index := k\<rparr>"

definition DelayedTaskHeap_Swap ::
  "('t, 'r) DelayedTask list \<Rightarrow> nat \<Rightarrow> nat \<Rightarrow> ('t, 'r) DelayedTask list" where
  "DelayedTaskHeap_Swap h i j = h[i := (h ! j)\<lparr>dt_index := int i\<rparr>, j := (h ! i)\<lparr>dt_index := int j\<rparr>]"

definition DelayedTaskHeap_Push ::
  "('t, 'r) DelayedTask list \<Rightarrow> ('t, 'r) DelayedTask \<Rightarrow> ('t, 'r) DelayedTask list" where
  "DelayedTaskHeap_Push h x = h @ [x\<lparr>dt_index := int (length h)\<rparr>]"

definition DelayedTaskHeap_Pop ::
  "('t, 'r) DelayedTask list \<Rightarrow> ('t, 'r) DelayedTask \<times> ('t, 'r) DelayedTask list" where
  "DelayedTaskHeap_Pop h = (let n = length h in ((h ! (n - 1))\<lparr>dt_index := - 1\<rparr>, take (n - 1) h))"

definition DelayedTaskHeap_Peek :: "('t, 'r) DelayedTask list \<Rightarrow> ('t, 'r) DelayedTask option" where
  "DelayedTaskHeap_Peek h = (if length h = 0 then None else Some (h ! 0))"

lemma heap_swap_delayed: "heap_swap dt_set_index = DelayedTaskHeap_Swap"
  by (simp add: fun_eq_iff heap_swap_def DelayedTaskHeap_Swap_def dt_set_index_def)

lemma heap_push_delayed:
  "heap_push lt dt_set_index h x = heap_up lt dt_set_index (DelayedTaskHeap_Push h x) (length h)"
  by (simp add: heap_push_def DelayedTaskHeap_Push_def dt_set_index_def)

lemma heap_pop_delayed:
  "h \<noteq> [] \<Longrightarrow> heap_pop lt dt_set_index h =
     Some (DelayedTaskHeap_Pop (heap_down lt dt_set_index (DelayedTaskHeap_Swap h 0 (length h - 1)) 0 (length h - 1)))"
  by (simp add: heap_pop_def Let_def DelayedTaskHeap_Pop_def dt_set_index_def heap_swap_delayed [symmetric])

definition dt_payload :: "('t, 'r) DelayedTask \<Rightarrow> int \<times> 't \<times> TaskTraits \<times> 'r" where
  "dt_payload x = (RunAt x, dt_Task x, dt_Traits x, dt_Target x)"

lemma dt_payload_set_index [simp]: "dt_payload (dt_set_index a k) = dt_payload a"
  by (simp add: dt_payload_def dt_set_index_def)

interpretation dh: go_heap DelayedTaskHeap_Less dt_set_index dt_index dt_payload
  by unfold_locales (auto simp: DelayedTaskHeap_Less_def dt_set_index_def dt_payload_def)

section \<open>The manager and its operations\<close>

text \<open>
  \<open>dm_wakeup\<close> says whether the one-place channel \<^verbatim>\<open>wakeup\<close> holds a token, \<open>dm_cancelled\<close>
  whether the context is cancelled, \<open>dm_done\<close> whether the goroutine has closed \<^verbatim>\<open>done\<close>.
\<close>

record ('t, 'r) DelayManager =
  dm_pq :: "('t, 'r) DelayedTask list"
  dm_wakeup :: bool
  dm_cancelled :: bool
  dm_done :: bool

datatype delayNextRunState = delayStateEmpty | delayStateExpiredNow | delayStateFuture

datatype delay_panic = NegativeDelay

definition NewDelayManager :: "('t, 'r) DelayManager" where
  "NewDelayManager = \<lparr>dm_pq = heap_init DelayedTaskHeap_Less dt_set_index [], dm_wakeup = False,
     dm_cancelled = False, dm_done = False\<rparr>"

text \<open>
  \<open>heap_push\<close> returns where the pushed item ended up; the code reads that item's
  \<^verbatim>\<open>index\<close> field through its pointer. The send on \<^verbatim>\<open>wakeup\<close> does not block: a token that is
  there already stays.
\<close>

definition AddDelayedTask ::
  "int \<Rightarrow> 't \<Rightarrow> int \<Rightarrow> TaskTraits \<Rightarrow> 'r \<Rightarrow> ('t, 'r) DelayManager \<Rightarrow> delay_panic + ('t, 'r) DelayManager" where
  "AddDelayedTask now task delay traits target dm =
     (if delay < 0 then Inl NegativeDelay
      else let item = \<lparr>RunAt = now + delay, dt_Task = task, dt_Traits = traits, dt_Target = target, dt_index = 0\<rparr>;
               (h, p) = heap_push DelayedTaskHeap_Less dt_set_index (dm_pq dm) item;
               dm' = dm\<lparr>dm_pq := h\<rparr>
           in Inr (if dt_index (h ! p) = 0 then dm'\<lparr>dm_wakeup := True\<rparr> else dm'))"

definition calculateNextRun :: "int \<Rightarrow> ('t, 'r) DelayManager \<Rightarrow> int \<times> delayNextRunState" where
  "calculateNextRun now dm =
     (case DelayedTaskHeap_Peek (dm_pq dm) of
        None \<Rightarrow> (0, delayStateEmpty)
      | Some item \<Rightarrow> if \<not> RunAt item > now then (0, delayStateExpiredNow)
                      else (RunAt item - now, delayStateFuture))"

text \<open>The loop of \<^verbatim>\<open>processExpiredTasks\<close>: peek, stop at the first task in the future, else pop.\<close>

function collect_expired ::
  "int \<Rightarrow> ('t, 'r) DelayedTask list \<Rightarrow> ('t, 'r) DelayedTask list \<times> ('t, 'r) DelayedTask list" where
  "collect_expired now h =
     (if length h = 0 \<or> RunAt (h ! 0) > now then ([], h)
      else case heap_pop DelayedTaskHeap_Less dt_set_index h of
             None \<Rightarrow> ([], h)
           | Some (item, h') \<Rightarrow> let (xs, h'') = collect_expired now h' in (item # xs, h''))"
  by pat_completeness auto
termination
  by (relation "measure (\<lambda>(now, h). length h)") (auto dest: heap_pop_shorter)

declare collect_expired.simps [simp del]

text \<open>
  The posts that \<^verbatim>\<open>processExpiredTasks\<close> makes after it has released the lock, in order: one
  call \<^verbatim>\<open>Target.PostTaskWithTraits(Task, Traits)\<close> for each expired task.
\<close>

definition processExpiredTasks ::
  "int \<Rightarrow> ('t, 'r) DelayManager \<Rightarrow> ('t, 'r) DelayedTask list \<times> ('t, 'r) DelayManager" where
  "processExpiredTasks now dm =
     (let (expired, h) = collect_expired now (dm_pq dm) in (expired, dm\<lparr>dm_pq := h\<rparr>))"

text \<open>\<^verbatim>\<open>Stop\<close> cancels the context, waits for the goroutine to close \<^verbatim>\<open>done\<close>, then drops the heap.\<close>

definition dm_Stop_cancel :: "('t, 'r) DelayManager \<Rightarrow> ('t, 'r) DelayManager" where
  "dm_Stop_cancel dm = dm\<lparr>dm_cancelled := True\<rparr>"

definition dm_Stop_clear :: "('t, 'r) DelayManager \<Rightarrow> ('t, 'r) DelayManager option" where
  "dm_Stop_clear dm =
     (if dm_done dm then Some (dm\<lparr>dm_pq := heap_init DelayedTaskHeap_Less dt_set_index []\<rparr>) else None)"

definition dm_TaskCount :: "('t, 'r) DelayManager \<Rightarrow> nat" where
  "dm_TaskCount dm = length (dm_pq dm)"

section \<open>What the operations do\<close>

abbreviation dm_wf :: "('t, 'r) DelayManager \<Rightarrow> bool" where
  "dm_wf dm \<equiv> heap_wf DelayedTaskHeap_Less dt_index (dm_pq dm)"

definition pending :: "('t, 'r) DelayedTask list \<Rightarrow> (int \<times> 't \<times> TaskTraits \<times> 'r) multiset" where
  "pending h = image_mset dt_payload (mset h)"

lemma pending_Nil [simp]: "pending [] = {#}"
  by (simp add: pending_def)

lemma pending_Cons [simp]: "pending (x # h) = add_mset (dt_payload x) (pending h)"
  by (simp add: pending_def)

lemma collect_expired_spec:
  "heap_wf DelayedTaskHeap_Less dt_index h \<Longrightarrow> collect_expired now h = (xs, h') \<Longrightarrow>
   heap_wf DelayedTaskHeap_Less dt_index h' \<and> pending h = pending xs + pending h' \<and>
   (\<forall>x \<in> set xs. RunAt x \<le> now) \<and> (\<forall>x \<in> set h'. now < RunAt x) \<and> sorted (map RunAt xs)"
proof (induction "length h" arbitrary: h xs h' rule: less_induct)
  case less
  note wf = less.prems(1)
  show ?case
  proof (cases "length h = 0 \<or> RunAt (h ! 0) > now")
    case True
    then have eq: "xs = []" "h' = h"
      using less.prems(2) by (subst (asm) collect_expired.simps, simp)+
    have "now < RunAt x" if "x \<in> set h" for x
    proof -
      from that obtain k where "k < length h" "x = h ! k" by (auto simp: in_set_conv_nth)
      with dh.heap_root_least [of h "length h" k] wf True show ?thesis
        by (auto simp: heap_wf_def DelayedTaskHeap_Less_def)
    qed
    with wf eq show ?thesis by simp
  next
    case False
    then have ne: "h \<noteq> []" by auto
    obtain x h1 where pop: "heap_pop DelayedTaskHeap_Less dt_set_index h = Some (x, h1)"
      and wf1: "heap_wf DelayedTaskHeap_Less dt_index h1" and root: "dt_payload x = dt_payload (h ! 0)"
      and pay: "pending h = add_mset (dt_payload x) (pending h1)"
      and least: "\<And>y. y \<in> set h \<Longrightarrow> \<not> DelayedTaskHeap_Less y x"
      using dh.heap_pop_spec [OF wf ne] unfolding pending_def by metis
    obtain ys h2 where rest: "collect_expired now h1 = (ys, h2)" by fastforce
    have eq: "xs = x # ys" "h' = h2"
      using less.prems(2) False pop rest by (subst (asm) collect_expired.simps, simp)+
    note ih = less.hyps [OF heap_pop_shorter [OF pop] wf1 rest]
    have "RunAt x \<le> now" using root False by (auto simp: dt_payload_def)
    moreover have "RunAt x \<le> RunAt y" if "y \<in> set ys" for y
    proof -
      have "dt_payload y \<in># pending ys" using that by (simp add: pending_def)
      with ih pay have "dt_payload y \<in># pending h" by auto
      then obtain z where "z \<in> set h" "dt_payload z = dt_payload y" by (auto simp: pending_def)
      with least [of z] show ?thesis by (auto simp: DelayedTaskHeap_Less_def dt_payload_def)
    qed
    ultimately show ?thesis using ih pay eq by auto
  qed
qed

lemma AddDelayedTask_spec:
  assumes wf: "dm_wf dm" and eq: "AddDelayedTask now task delay traits target dm = Inr dm'"
  shows "dm_wf dm'" "pending (dm_pq dm') = add_mset (now + delay, task, traits, target) (pending (dm_pq dm))"
    "dm_wakeup dm' \<or> (dm_pq dm \<noteq> [] \<and> RunAt (dm_pq dm' ! 0) = RunAt (dm_pq dm ! 0) \<and> dm_wakeup dm' = dm_wakeup dm)"
    "dm_wakeup dm \<longrightarrow> dm_wakeup dm'" "dm_pq dm' \<noteq> []"
    "dm_cancelled dm' = dm_cancelled dm" "dm_done dm' = dm_done dm" "0 \<le> delay"
proof -
  define item where "item = \<lparr>RunAt = now + delay, dt_Task = task, dt_Traits = traits, dt_Target = target, dt_index = 0\<rparr>"
  obtain h p where push: "heap_push DelayedTaskHeap_Less dt_set_index (dm_pq dm) item = (h, p)" by fastforce
  have d: "0 \<le> delay" and dm': "dm' = (if dt_index (h ! p) = 0 then dm\<lparr>dm_pq := h, dm_wakeup := True\<rparr> else dm\<lparr>dm_pq := h\<rparr>)"
    using eq push by (auto simp: AddDelayedTask_def item_def Let_def split: if_splits)
  have pq': "dm_pq dm' = h" by (simp add: dm')
  have h: "h = fst (heap_push DelayedTaskHeap_Less dt_set_index (dm_pq dm) item)" using push by simp
  show "dm_wf dm'" using dh.heap_push_wf [OF wf, of item] by (simp add: pq' h)
  show "pending (dm_pq dm') = add_mset (now + delay, task, traits, target) (pending (dm_pq dm))"
    using dh.mset_heap_push [of "dm_pq dm" item] by (simp add: pq' h pending_def dt_payload_def item_def)
  show "dm_pq dm' \<noteq> []" using dh.length_heap_push [of "dm_pq dm" item]
    by (metis pq' h length_0_conv nat.distinct(1))
  show "dm_wakeup dm' \<or> (dm_pq dm \<noteq> [] \<and> RunAt (dm_pq dm' ! 0) = RunAt (dm_pq dm ! 0) \<and> dm_wakeup dm' = dm_wakeup dm)"
  proof (cases "p = 0")
    case True
    then show ?thesis using dh.heap_push_position [OF wf push] by (simp add: dm')
  next
    case False
    have "dm_pq dm \<noteq> []"
    proof
      assume e: "dm_pq dm = []"
      have "length h = 1" using e dh.length_heap_push [of "dm_pq dm" item] by (simp add: h)
      with dh.heap_push_position(1) [OF wf push] False show False by simp
    qed
    moreover from this have "h ! 0 = dm_pq dm ! 0"
      using heap_up_root [of DelayedTaskHeap_Less dt_set_index "dm_pq dm @ [dt_set_index item (int (length (dm_pq dm)))]" "length (dm_pq dm)"]
        push False by (simp add: heap_push_def nth_append)
    ultimately show ?thesis using dh.heap_push_position [OF wf push] False by (simp add: dm')
  qed
  show "dm_wakeup dm \<longrightarrow> dm_wakeup dm'" "dm_cancelled dm' = dm_cancelled dm" "dm_done dm' = dm_done dm"
    by (simp_all add: dm')
  show "0 \<le> delay" by (rule d)
qed

section \<open>The goroutine, its callers and the clock\<close>

text \<open>
  Where the goroutine \<^verbatim>\<open>loop\<close> stands: at the head of the loop; about to call
  \<^verbatim>\<open>processExpiredTasks\<close>; posting the tasks it collected, after it has released the lock; with the
  duration \<^verbatim>\<open>nextRun\<close> computed at the clock value \<open>calc\<close> but the timer not yet set; waiting
  in the \<^verbatim>\<open>select\<close> with a timer set at \<open>armed\<close> that fires at \<open>armed + nextRun\<close>; or gone.
\<close>

datatype ('t, 'r) loop_pc =
  LoopHead | LoopProcess | LoopPost "('t, 'r) DelayedTask list" | LoopArm int int | LoopWait int int int | LoopExited

record ('t, 'r) dm_sys =
  ds_clock :: int
  ds_dm :: "('t, 'r) DelayManager"
  ds_pc :: "('t, 'r) loop_pc"
  ds_added :: "(int \<times> 't \<times> TaskTraits \<times> 'r) list"
  ds_posted :: "(int \<times> ('t, 'r) DelayedTask) list"

text \<open>\<open>ds_added\<close> and \<open>ds_posted\<close> record the history: what was added, and what was posted when.\<close>

definition dm_init_sys :: "int \<Rightarrow> ('t, 'r) dm_sys" where
  "dm_init_sys t0 = \<lparr>ds_clock = t0, ds_dm = NewDelayManager, ds_pc = LoopHead, ds_added = [], ds_posted = []\<rparr>"

definition thousand_hours :: int where
  "thousand_hours = 1000 * 3600 * 1000000000"

definition loop_head :: "('t, 'r) dm_sys \<Rightarrow> ('t, 'r) dm_sys" where
  "loop_head s =
     (case calculateNextRun (ds_clock s) (ds_dm s) of
        (_, delayStateExpiredNow) \<Rightarrow> s\<lparr>ds_pc := LoopProcess\<rparr>
      | (_, delayStateEmpty) \<Rightarrow> s\<lparr>ds_pc := LoopArm (ds_clock s) thousand_hours\<rparr>
      | (d, delayStateFuture) \<Rightarrow> s\<lparr>ds_pc := LoopArm (ds_clock s) d\<rparr>)"

definition loop_collect :: "('t, 'r) dm_sys \<Rightarrow> ('t, 'r) dm_sys" where
  "loop_collect s =
     (let (xs, dm) = processExpiredTasks (ds_clock s) (ds_dm s) in s\<lparr>ds_dm := dm, ds_pc := LoopPost xs\<rparr>)"

text \<open>
  The labels: the goroutine runs the head of the loop, collects the expired tasks, makes one post,
  sets the timer, or takes one of the three branches of its \<^verbatim>\<open>select\<close>; a caller adds a task or
  stops the manager; time passes.
\<close>

datatype ('t, 'r) dm_label =
    DmHead | DmCollect | DmPost | DmArm | DmDone | DmTimer | DmWakeup
  | DmAdd 't int TaskTraits 'r | DmCancel | DmClear | DmTick nat

fun dm_step :: "('t, 'r) dm_label \<Rightarrow> ('t, 'r) dm_sys \<Rightarrow> ('t, 'r) dm_sys option" where
  "dm_step DmHead s = (if ds_pc s = LoopHead then Some (loop_head s) else None)"
| "dm_step DmCollect s = (if ds_pc s = LoopProcess then Some (loop_collect s) else None)"
| "dm_step DmPost s =
     (case ds_pc s of
        LoopPost [] \<Rightarrow> Some (s\<lparr>ds_pc := LoopHead\<rparr>)
      | LoopPost (x # xs) \<Rightarrow> Some (s\<lparr>ds_pc := LoopPost xs, ds_posted := ds_posted s @ [(ds_clock s, x)]\<rparr>)
      | _ \<Rightarrow> None)"
| "dm_step DmArm s =
     (case ds_pc s of LoopArm calc d \<Rightarrow> Some (s\<lparr>ds_pc := LoopWait calc (ds_clock s) d\<rparr>) | _ \<Rightarrow> None)"
| "dm_step DmDone s =
     (case ds_pc s of
        LoopWait _ _ _ \<Rightarrow>
          if dm_cancelled (ds_dm s) then Some (s\<lparr>ds_pc := LoopExited, ds_dm := (ds_dm s)\<lparr>dm_done := True\<rparr>\<rparr>) else None
      | _ \<Rightarrow> None)"
| "dm_step DmTimer s =
     (case ds_pc s of
        LoopWait _ armed d \<Rightarrow> if armed + d \<le> ds_clock s then Some (s\<lparr>ds_pc := LoopProcess\<rparr>) else None
      | _ \<Rightarrow> None)"
| "dm_step DmWakeup s =
     (case ds_pc s of
        LoopWait _ _ _ \<Rightarrow>
          if dm_wakeup (ds_dm s) then Some (s\<lparr>ds_pc := LoopHead, ds_dm := (ds_dm s)\<lparr>dm_wakeup := False\<rparr>\<rparr>) else None
      | _ \<Rightarrow> None)"
| "dm_step (DmAdd t d tr r) s =
     (case AddDelayedTask (ds_clock s) t d tr r (ds_dm s) of
        Inl _ \<Rightarrow> None
      | Inr dm \<Rightarrow> Some (s\<lparr>ds_dm := dm, ds_added := ds_added s @ [(ds_clock s + d, t, tr, r)]\<rparr>))"
| "dm_step DmCancel s = Some (s\<lparr>ds_dm := dm_Stop_cancel (ds_dm s)\<rparr>)"
| "dm_step DmClear s = map_option (\<lambda>dm. s\<lparr>ds_dm := dm\<rparr>) (dm_Stop_clear (ds_dm s))"
| "dm_step (DmTick k) s = Some (s\<lparr>ds_clock := ds_clock s + int k\<rparr>)"

abbreviation dm_reachable :: "('t, 'r) dm_sys \<Rightarrow> bool" where
  "dm_reachable \<equiv> reach (\<lambda>s. \<exists>t0. s = dm_init_sys t0) (lstep dm_step)"

section \<open>Invariants of the running manager\<close>

text \<open>
  The timer is never set too late: while the goroutine is about to wait or waits, either a wakeup
  token is there, or the duration it computed reaches at most to the earliest pending task.
\<close>

definition armed_ok :: "('t, 'r) dm_sys \<Rightarrow> bool" where
  "armed_ok s \<longleftrightarrow>
     (\<forall>calc d. (ds_pc s = LoopArm calc d \<or> (\<exists>armed. ds_pc s = LoopWait calc armed d)) \<longrightarrow>
        dm_pq (ds_dm s) = [] \<or> dm_wakeup (ds_dm s) \<or> calc + d \<le> RunAt (dm_pq (ds_dm s) ! 0))"

fun in_hand :: "('t, 'r) loop_pc \<Rightarrow> ('t, 'r) DelayedTask list" where
  "in_hand (LoopPost xs) = xs"
| "in_hand _ = []"

definition posted_ok :: "('t, 'r) dm_sys \<Rightarrow> bool" where
  "posted_ok s \<longleftrightarrow> (\<forall>(t, x) \<in> set (ds_posted s). RunAt x \<le> t \<and> t \<le> ds_clock s) \<and>
     (\<forall>x \<in> set (in_hand (ds_pc s)). RunAt x \<le> ds_clock s)"

definition conserved :: "('t, 'r) dm_sys \<Rightarrow> bool" where
  "conserved s \<longleftrightarrow>
     (let acc = pending (map snd (ds_posted s)) + pending (in_hand (ds_pc s)) + pending (dm_pq (ds_dm s))
      in acc \<subseteq># mset (ds_added s) \<and> (\<not> dm_done (ds_dm s) \<longrightarrow> mset (ds_added s) = acc))"

fun arm_times_ok :: "('t, 'r) loop_pc \<Rightarrow> int \<Rightarrow> bool" where
  "arm_times_ok (LoopArm calc d) now \<longleftrightarrow> calc \<le> now"
| "arm_times_ok (LoopWait calc armed d) now \<longleftrightarrow> calc \<le> armed"
| "arm_times_ok _ now \<longleftrightarrow> True"

definition dm_inv :: "('t, 'r) dm_sys \<Rightarrow> bool" where
  "dm_inv s \<longleftrightarrow> dm_wf (ds_dm s) \<and> armed_ok s \<and> posted_ok s \<and> conserved s \<and> arm_times_ok (ds_pc s) (ds_clock s) \<and>
     (ds_pc s = LoopExited \<longleftrightarrow> dm_done (ds_dm s))"

lemmas dm_inv_parts = dm_inv_def armed_ok_def posted_ok_def
lemmas dm_inv_defs = dm_inv_parts conserved_def Let_def

lemma dm_inv_init: "dm_inv (dm_init_sys t0)"
  by (simp add: dm_inv_defs dm_init_sys_def NewDelayManager_def)

lemma pending_append [simp]: "pending (xs @ ys) = pending xs + pending ys"
  by (simp add: pending_def)

lemma loop_collect_inv:
  assumes "dm_inv s" "ds_pc s = LoopProcess"
  shows "dm_inv (loop_collect s)"
proof -
  obtain xs h where c: "collect_expired (ds_clock s) (dm_pq (ds_dm s)) = (xs, h)" by fastforce
  then have eq: "loop_collect s = s\<lparr>ds_dm := (ds_dm s)\<lparr>dm_pq := h\<rparr>, ds_pc := LoopPost xs\<rparr>"
    by (simp add: loop_collect_def processExpiredTasks_def)
  from assms have "dm_wf (ds_dm s)" by (simp add: dm_inv_def)
  note sp = collect_expired_spec [OF this c]
  then have "conserved (loop_collect s)"
    using assms by (simp add: eq dm_inv_def conserved_def Let_def add.assoc)
  with assms sp show ?thesis
    by (auto simp: eq dm_inv_parts)
qed

lemma loop_head_inv:
  assumes "dm_inv s" "ds_pc s = LoopHead"
  shows "dm_inv (loop_head s)"
  using assms
  by (auto simp: loop_head_def calculateNextRun_def DelayedTaskHeap_Peek_def dm_inv_defs
      split: option.splits if_splits)

lemma dm_add_inv:
  assumes inv: "dm_inv s" and add: "AddDelayedTask (ds_clock s) t d tr r (ds_dm s) = Inr dm"
  shows "dm_inv (s\<lparr>ds_dm := dm, ds_added := ds_added s @ [(ds_clock s + d, t, tr, r)]\<rparr>)"
proof -
  from inv have wf: "dm_wf (ds_dm s)" by (simp add: dm_inv_def)
  note a = AddDelayedTask_spec [OF wf add]
  from inv a(3,4) have "armed_ok (s\<lparr>ds_dm := dm, ds_added := ds_added s @ [(ds_clock s + d, t, tr, r)]\<rparr>)"
    by (auto simp: dm_inv_def armed_ok_def)
  with inv a show ?thesis by (auto simp: dm_inv_def posted_ok_def conserved_def Let_def)
qed

lemma dm_clear_inv:
  assumes inv: "dm_inv s" and "dm_Stop_clear (ds_dm s) = Some dm"
  shows "dm_inv (s\<lparr>ds_dm := dm\<rparr>)"
proof -
  have dm: "dm = (ds_dm s)\<lparr>dm_pq := []\<rparr>" "dm_done (ds_dm s)"
    using assms(2) by (auto simp: dm_Stop_clear_def split: if_splits)
  have "conserved (s\<lparr>ds_dm := dm\<rparr>)"
    using inv dm by (auto simp: dm_inv_defs intro: subset_mset.order_trans [OF mset_subset_eq_add_left])
  with inv dm show ?thesis by (auto simp: dm_inv_parts)
qed

lemma dm_post_inv:
  assumes "dm_inv s" "dm_step DmPost s = Some s'"
  shows "dm_inv s'"
  using assms by (auto simp: dm_inv_defs split: loop_pc.splits list.splits)

lemma dm_select_inv:
  assumes "dm_inv s" "in_hand (ds_pc s) = []" "in_hand pc = []" "ds_pc s \<noteq> LoopExited"
    and "pc = LoopHead \<or> pc = LoopProcess \<or> (\<exists>calc d. ds_pc s = LoopArm calc d \<and> pc = LoopWait calc (ds_clock s) d)"
  shows "dm_inv (s\<lparr>ds_pc := pc\<rparr>)"
  using assms by (auto simp: dm_inv_parts conserved_def)

lemma dm_wakeup_inv:
  assumes "dm_inv s" "ds_pc s = LoopWait calc armed d"
  shows "dm_inv (s\<lparr>ds_pc := LoopHead, ds_dm := (ds_dm s)\<lparr>dm_wakeup := False\<rparr>\<rparr>)"
  using assms by (simp add: dm_inv_parts conserved_def Let_def)

lemma dm_exit_inv:
  assumes "dm_inv s" "ds_pc s = LoopWait calc armed d"
  shows "dm_inv (s\<lparr>ds_pc := LoopExited, ds_dm := (ds_dm s)\<lparr>dm_done := True\<rparr>\<rparr>)"
  using assms by (simp add: dm_inv_parts conserved_def Let_def)

lemma dm_cancel_inv: "dm_inv s \<Longrightarrow> dm_inv (s\<lparr>ds_dm := dm_Stop_cancel (ds_dm s)\<rparr>)"
  by (simp add: dm_inv_parts conserved_def dm_Stop_cancel_def)

lemma arm_times_ok_later: "arm_times_ok pc now \<Longrightarrow> arm_times_ok pc (now + int k)"
  by (cases pc) auto

lemma dm_tick_inv:
  assumes "dm_inv s" shows "dm_inv (s\<lparr>ds_clock := ds_clock s + int k\<rparr>)"
  using assms by (force simp: dm_inv_parts conserved_def arm_times_ok_later)

lemma dm_step_inv: "dm_inv s \<Longrightarrow> dm_step l s = Some s' \<Longrightarrow> dm_inv s'"
  by (cases l)
    (auto intro: loop_head_inv loop_collect_inv dm_clear_inv dm_tick_inv dm_add_inv dm_cancel_inv
      dm_select_inv dm_wakeup_inv dm_exit_inv dest: dm_post_inv
      split: if_splits sum.splits loop_pc.splits simp del: dm_step.simps(3))

interpretation dms: inv_system "\<lambda>s. \<exists>t0. s = dm_init_sys t0" "lstep dm_step" dm_inv
  by unfold_locales (auto simp: dm_inv_init lstep_def intro: dm_step_inv)

section \<open>Progress of the goroutine\<close>

lemma run_posts:
  "ds_pc s = LoopPost xs \<Longrightarrow>
   run dm_step (replicate (length xs) DmPost) s =
     Some (s\<lparr>ds_pc := LoopPost [], ds_posted := ds_posted s @ map (\<lambda>x. (ds_clock s, x)) xs\<rparr>)"
  by (induction xs arbitrary: s) auto

definition due :: "int \<Rightarrow> ('t, 'r) DelayedTask list \<Rightarrow> (int \<times> 't \<times> TaskTraits \<times> 'r) multiset" where
  "due now h = filter_mset (\<lambda>(t, _). t \<le> now) (pending h)"

lemma due_collected:
  assumes "heap_wf DelayedTaskHeap_Less dt_index h" "collect_expired now h = (xs, h')"
  shows "due now h = pending xs"
proof -
  note sp = collect_expired_spec [OF assms]
  have "filter_mset (\<lambda>(t, _). t \<le> now) (pending xs) = pending xs"
    using sp by (auto simp: filter_mset_eq_conv pending_def dt_payload_def)
  moreover have "filter_mset (\<lambda>(t, _). t \<le> now) (pending h') = {#}"
    using sp by (force simp: filter_mset_eq_mempty_iff pending_def dt_payload_def)
  ultimately show ?thesis using sp by (simp add: due_def)
qed

lemma run_process:
  assumes "ds_pc s = LoopProcess" "dm_wf (ds_dm s)"
  obtains n s' where "run dm_step (DmCollect # replicate n DmPost) s = Some s'"
    "pending (map snd (ds_posted s')) = pending (map snd (ds_posted s)) + due (ds_clock s) (dm_pq (ds_dm s))"
    "\<forall>x \<in> set (dm_pq (ds_dm s')). ds_clock s < RunAt x"
proof -
  obtain xs h where c: "collect_expired (ds_clock s) (dm_pq (ds_dm s)) = (xs, h)" by fastforce
  define s1 where "s1 = s\<lparr>ds_dm := (ds_dm s)\<lparr>dm_pq := h\<rparr>, ds_pc := LoopPost xs\<rparr>"
  have col: "dm_step DmCollect s = Some s1"
    using assms(1) c by (simp add: loop_collect_def processExpiredTasks_def s1_def)
  have "ds_pc s1 = LoopPost xs" by (simp add: s1_def)
  note run_posts [OF this]
  moreover have "map snd (map (\<lambda>x. (ds_clock s, x)) xs) = xs" by (simp add: comp_def)
  ultimately show thesis
    using that [of "length xs"] col collect_expired_spec [OF assms(2) c] due_collected [OF assms(2) c]
    by (simp add: s1_def)
qed

lemma heap_root_earliest:
  assumes "dm_wf dm" "x \<in> set (dm_pq dm)"
  shows "RunAt (dm_pq dm ! 0) \<le> RunAt x" "dm_pq dm \<noteq> []"
proof -
  from assms(2) obtain k where "k < length (dm_pq dm)" "x = dm_pq dm ! k" by (auto simp: in_set_conv_nth)
  with dh.heap_root_least [of "dm_pq dm" "length (dm_pq dm)" k] assms(1)
  show "RunAt (dm_pq dm ! 0) \<le> RunAt x"
    by (auto simp: heap_wf_def DelayedTaskHeap_Less_def)
  show "dm_pq dm \<noteq> []" using assms(2) by auto
qed

section \<open>The properties\<close>

text \<open>Example values for the witnesses: a heap of three tasks, and a manager that waits with a due task.\<close>

definition dt_example :: "int \<Rightarrow> string \<Rightarrow> int \<Rightarrow> (string, nat) DelayedTask" where
  "dt_example t x i = \<lparr>RunAt = t, dt_Task = x, dt_Traits = DefaultTaskTraits, dt_Target = 0, dt_index = i\<rparr>"

definition dm_example :: "(string, nat) DelayManager" where
  "dm_example = \<lparr>dm_pq = [dt_example 2 ''b'' 0, dt_example 5 ''a'' 1, dt_example 3 ''c'' 2], dm_wakeup = False,
     dm_cancelled = False, dm_done = False\<rparr>"

definition dm_waiting :: "(string, nat) dm_sys" where
  "dm_waiting = \<lparr>ds_clock = 9, ds_dm = \<lparr>dm_pq = [dt_example 5 ''a'' 0], dm_wakeup = True, dm_cancelled = False, dm_done = False\<rparr>,
     ds_pc = LoopWait 0 1 5, ds_added = [(5, ''a'', DefaultTaskTraits, 0)], ds_posted = []\<rparr>"

lemma dm_waiting_reachable: "dm_reachable dm_waiting"
proof -
  have "run dm_step [DmAdd ''a'' 5 DefaultTaskTraits 0, DmHead, DmTick 1, DmArm, DmTick 8] (dm_init_sys 0) = Some dm_waiting"
    by code_simp
  then show ?thesis by (rule run_reach [rotated]) (auto intro: reach_init)
qed

text \<open>
  \<^verbatim>\<open>processExpiredTasks\<close> is exact: from a well-formed heap it hands out precisely the tasks
  whose time has come, each once and in the order of their times, keeps precisely the others, and
  leaves a well-formed heap.
\<close>

theorem processExpiredTasks_exact:
  assumes "dm_wf dm" "processExpiredTasks now dm = (xs, dm')"
  shows "dm_wf dm' \<and> pending xs + pending (dm_pq dm') = pending (dm_pq dm) \<and>
         (\<forall>x \<in> set xs. RunAt x \<le> now) \<and> (\<forall>x \<in> set (dm_pq dm'). now < RunAt x) \<and> sorted (map RunAt xs)"
proof -
  obtain h where "collect_expired now (dm_pq dm) = (xs, h)" "dm' = dm\<lparr>dm_pq := h\<rparr>"
    using assms(2) by (auto simp: processExpiredTasks_def split: prod.splits)
  with collect_expired_spec [OF assms(1)] show ?thesis by simp
qed

text \<open>
  C15: In every reachable state of the running manager, whatever the interleaving of its goroutine
  with the callers: no task was posted before its time, and until the manager is stopped the
  accepted tasks are exactly those posted, those being posted and those still in the heap; after
  it is stopped nothing is ever posted that was not added.
\<close>

theorem delayed_tasks_kept_and_never_early:
  assumes "dm_reachable s"
  shows "(\<forall>(t, x) \<in> set (ds_posted s). RunAt x \<le> t) \<and>
         pending (map snd (ds_posted s)) \<subseteq># mset (ds_added s) \<and>
         (ds_pc s \<noteq> LoopExited \<longrightarrow>
            mset (ds_added s) =
              pending (map snd (ds_posted s)) + pending (in_hand (ds_pc s)) + pending (dm_pq (ds_dm s)))"
proof -
  have inv: "dm_inv s" using dms.holds_reach [OF assms] .
  then have "pending (map snd (ds_posted s)) \<subseteq># mset (ds_added s)"
    by (auto simp: dm_inv_defs dest: mset_subset_eq_insertD intro: subset_mset.order_trans [OF mset_subset_eq_add_left]
        subset_mset.order_trans [OF subset_mset.order_trans [OF mset_subset_eq_add_left mset_subset_eq_add_left]])
  with inv show ?thesis by (auto simp: dm_inv_defs)
qed

theorem delayed_tasks_kept_and_never_early_witness:
  "mset [(5, ''a'', DefaultTaskTraits, 0)] = pending (dm_pq (ds_dm dm_waiting)) \<and> ds_posted dm_waiting = []"
  using delayed_tasks_kept_and_never_early [OF dm_waiting_reachable] by (simp add: dm_waiting_def)

text \<open>
  The manager never sleeps through a deadline. While its goroutine waits and the heap is not
  empty, a wakeup token is pending or the timer fires no later than the earliest task's time plus
  the delay that passed between computing the duration and setting the timer.
\<close>

theorem delay_timer_covers_earliest:
  assumes "dm_reachable s" "ds_pc s = LoopWait calc armed d" "x \<in> set (dm_pq (ds_dm s))"
  shows "dm_wakeup (ds_dm s) \<or> (armed + d \<le> RunAt x + (armed - calc) \<and> calc \<le> armed)"
proof -
  have inv: "dm_inv s" using dms.holds_reach [OF assms(1)] .
  then have "dm_wf (ds_dm s)" by (simp add: dm_inv_def)
  from heap_root_earliest [OF this assms(3)] inv assms(2) show ?thesis
    by (auto simp: dm_inv_parts)
qed



end
