(* ===== verification/Task_Scheduler.thy ===== *)
theory Task_Scheduler
  imports Fifo_Queue Priority_Queue Delay_Manager
begin

text \<open>
  \<^verbatim>\<open>TaskScheduler\<close> of \<^verbatim>\<open>core/task_scheduler.go\<close> with the handler interfaces of
  \<^verbatim>\<open>core/interfaces.go\<close>. The scheduler's queue is a value of the interface type
  \<^verbatim>\<open>TaskQueue\<close>: a datatype with one constructor for each implementation, whose operations
  dispatch. Operations that run without a lock are split into their atomic steps; the whole
  operation is their composition, and the thread pool interleaves the steps.
\<close>

section \<open>The queue interface\<close>

datatype 't TaskQueue = FIFOQ "'t FIFOTaskQueue" | PriorityQ "'t PriorityTaskQueue"

fun TQ_Push :: "(nat \<Rightarrow> nat) \<Rightarrow> TaskID \<Rightarrow> 't \<Rightarrow> TaskTraits \<Rightarrow> 't TaskQueue \<Rightarrow> 't TaskQueue" where
  "TQ_Push grow i t tr (FIFOQ q) = FIFOQ (FIFO_Push grow i t tr q)"
| "TQ_Push grow i t tr (PriorityQ q) = PriorityQ (PQ_Push i t tr q)"

fun TQ_Pop :: "'t TaskQueue \<Rightarrow> 't TaskItem option \<times> 't TaskQueue" where
  "TQ_Pop (FIFOQ q) = (case fifo_pop_item q of (r, q') \<Rightarrow> (r, FIFOQ q'))"
| "TQ_Pop (PriorityQ q) = (case PQ_Pop q of (r, q') \<Rightarrow> (r, PriorityQ q'))"

fun TQ_Clear :: "'t TaskQueue \<Rightarrow> 't TaskQueue" where
  "TQ_Clear (FIFOQ q) = FIFOQ (FIFO_Clear q)"
| "TQ_Clear (PriorityQ q) = PriorityQ (PQ_Clear q)"

fun TQ_items :: "'t TaskQueue \<Rightarrow> 't TaskItem list" where
  "TQ_items (FIFOQ q) = fifo_contents q"
| "TQ_items (PriorityQ q) = map pi_TaskItem (pq q)"

fun TQ_invar :: "'t TaskQueue \<Rightarrow> bool" where
  "TQ_invar (FIFOQ q) = fifo_invar q"
| "TQ_invar (PriorityQ q) = heap_wf priorityHeap_Less pi_index (pq q)"

lemma heap_items_mset: "mset (map pi_TaskItem h) = image_mset fst (image_mset pq_payload (mset h))"
  by (simp add: image_mset.compositionality comp_def pq_payload_def)

lemma PQ_Push_bag:
  assumes "heap_wf priorityHeap_Less pi_index (pq q)"
  shows "heap_wf priorityHeap_Less pi_index (pq (PQ_Push i t tr q))"
    "mset (map pi_TaskItem (pq (PQ_Push i t tr q))) =
       add_mset \<lparr>Task = t, Traits = tr, ID = i\<rparr> (mset (map pi_TaskItem (pq q)))"
proof -
  define x where "x = \<lparr>pi_TaskItem = \<lparr>Task = t, Traits = tr, ID = i\<rparr>,
      pi_sequence = (if nextSequence q = - 1 then (if pq q = [] then 0 else nextSequence q) else nextSequence q),
      pi_index = 0\<rparr>"
  have x: "pq (PQ_Push i t tr q) = fst (heap_push priorityHeap_Less pi_set_index (pq q) x)"
    "pi_TaskItem x = \<lparr>Task = t, Traits = tr, ID = i\<rparr>"
    by (simp_all add: PQ_Push_def PQ_PushWithID_def Let_def split_beta x_def)
  show "heap_wf priorityHeap_Less pi_index (pq (PQ_Push i t tr q))"
    by (simp add: x ph.heap_push_wf assms)
  show "mset (map pi_TaskItem (pq (PQ_Push i t tr q))) =
       add_mset \<lparr>Task = t, Traits = tr, ID = i\<rparr> (mset (map pi_TaskItem (pq q)))"
    unfolding heap_items_mset x(1) ph.mset_heap_push by (simp add: pq_payload_def x)
qed

lemma PQ_Pop_bag:
  assumes "heap_wf priorityHeap_Less pi_index (pq q)" "pq q \<noteq> []"
  obtains x q' where "PQ_Pop q = (Some x, q')" "heap_wf priorityHeap_Less pi_index (pq q')"
    "mset (map pi_TaskItem (pq q)) = add_mset x (mset (map pi_TaskItem (pq q')))"
proof -
  obtain x h' where "heap_pop priorityHeap_Less pi_set_index (pq q) = Some (x, h')"
    "heap_wf priorityHeap_Less pi_index h'"
    and m: "image_mset pq_payload (mset (pq q)) = add_mset (pq_payload x) (image_mset pq_payload (mset h'))"
    using ph.heap_pop_spec [OF assms] by metis
  moreover from m have "mset (map pi_TaskItem (pq q)) = add_mset (pi_TaskItem x) (mset (map pi_TaskItem h'))"
    unfolding heap_items_mset by (simp add: pq_payload_def)
  ultimately show thesis using assms(2) by (intro that) (auto simp: PQ_Pop_def)
qed

lemma TQ_bag: "task_bag TQ_invar TQ_items (TQ_Push grow) TQ_Pop TQ_Clear"
proof (unfold_locales, goal_cases)
  case (1 q i t tr)
  then show ?case
  proof (cases q)
    case (FIFOQ f)
    with 1 fifo.push_conserves [of f grow i t tr] show ?thesis by (simp add: fifo_push)
  next
    case (PriorityQ p)
    with 1 show ?thesis by (simp add: PQ_Push_bag del: mset_map)
  qed
next
  case (2 q)
  then show ?case by (cases q) (auto simp: fifo.pop_empty PQ_Pop_def)
next
  case (3 q)
  show ?case
  proof (cases q)
    case (FIFOQ f)
    with 3 obtain x xs where "fifo_contents f = x # xs" by (cases "fifo_contents f") auto
    with 3 FIFOQ fifo.pop_Cons [of f x xs] show ?thesis by auto
  next
    case (PriorityQ p)
    with 3 obtain x p' where "PQ_Pop p = (Some x, p')" "heap_wf priorityHeap_Less pi_index (pq p')"
      "mset (map pi_TaskItem (pq p)) = add_mset x (mset (map pi_TaskItem (pq p')))"
      by (auto elim: PQ_Pop_bag)
    with PriorityQ show ?thesis by (auto simp del: mset_map)
  qed
next
  case (4 q)
  show ?case by (cases q) (auto simp: PQ_Clear_def)
qed

interpretation tq: task_bag TQ_invar TQ_items "TQ_Push grow" TQ_Pop TQ_Clear for grow
  by (rule TQ_bag)

section \<open>Handlers and configuration\<close>

text \<open>
  Each of the three handlers is the library's default or an implementation of the user, of type
  \<open>'h\<close>. Calls on them are effects: an operation appends them to the log, in order.
\<close>

datatype 'h handler = DefaultHandler | UserHandler 'h

record 'h TaskSchedulerConfig =
  cfg_PanicHandler :: "'h handler option"
  cfg_Metrics :: "'h handler option"
  cfg_RejectedTaskHandler :: "'h handler option"

definition DefaultTaskSchedulerConfig :: "'h TaskSchedulerConfig" where
  "DefaultTaskSchedulerConfig =
     \<lparr>cfg_PanicHandler = Some DefaultHandler, cfg_Metrics = Some DefaultHandler,
      cfg_RejectedTaskHandler = Some DefaultHandler\<rparr>"

datatype handler_call =
    HandleRejectedTask string string
  | RecordTaskRejected string string
  | RecordQueueDepth string int
  | HandlePanic string int
  | RecordTaskPanic string
  | RecordTaskDuration string TaskPriority

section \<open>The scheduler\<close>

record ('t, 'r, 'h) TaskScheduler =
  sch_queue :: "'t TaskQueue"
  sch_signal :: nat
  sch_signal_cap :: nat
  sch_workerCount :: int
  sch_delayManager :: "('t, 'r) DelayManager"
  metricQueued :: "32 word"
  metricActive :: "32 word"
  sch_panicHandler :: "'h handler"
  sch_metrics :: "'h handler"
  sch_rejectedTaskHandler :: "'h handler"
  shuttingDown :: bool
  sch_log :: "handler_call list"

text \<open>
  A nil configuration and a nil field both mean the default. \<open>None\<close> is the panic of
  \<^verbatim>\<open>make(chan struct{}, workerCount*2)\<close> on a negative size.
\<close>

definition with_default :: "('h TaskSchedulerConfig \<Rightarrow> 'h handler option) \<Rightarrow> 'h TaskSchedulerConfig option \<Rightarrow> 'h handler" where
  "with_default field config =
     (let h = (case config of None \<Rightarrow> None | Some c \<Rightarrow> field c)
      in case h of None \<Rightarrow> DefaultHandler | Some x \<Rightarrow> x)"

definition new_scheduler ::
  "'t TaskQueue \<Rightarrow> int \<Rightarrow> 'h TaskSchedulerConfig option \<Rightarrow> ('t, 'r, 'h) TaskScheduler option" where
  "new_scheduler q workerCount config =
     (if workerCount * 2 < 0 then None
      else Some \<lparr>sch_queue = q, sch_signal = 0, sch_signal_cap = nat (workerCount * 2),
             sch_workerCount = workerCount, sch_delayManager = NewDelayManager,
             metricQueued = 0, metricActive = 0,
             sch_panicHandler = with_default cfg_PanicHandler config,
             sch_metrics = with_default cfg_Metrics config,
             sch_rejectedTaskHandler = with_default cfg_RejectedTaskHandler config,
             shuttingDown = False, sch_log = []\<rparr>)"

definition NewPriorityTaskSchedulerWithConfig ::
  "int \<Rightarrow> 'h TaskSchedulerConfig option \<Rightarrow> ('t, 'r, 'h) TaskScheduler option" where
  "NewPriorityTaskSchedulerWithConfig workerCount config =
     new_scheduler (PriorityQ NewPriorityTaskQueue) workerCount config"

definition NewPriorityTaskScheduler :: "int \<Rightarrow> ('t, 'r, 'h) TaskScheduler option" where
  "NewPriorityTaskScheduler workerCount =
     NewPriorityTaskSchedulerWithConfig workerCount (Some DefaultTaskSchedulerConfig)"

definition NewFIFOTaskSchedulerWithConfig ::
  "'t memory \<Rightarrow> int \<Rightarrow> 'h TaskSchedulerConfig option \<Rightarrow> ('t, 'r, 'h) TaskScheduler option" where
  "NewFIFOTaskSchedulerWithConfig mem workerCount config =
     new_scheduler (FIFOQ (NewFIFOTaskQueue mem)) workerCount config"

definition NewFIFOTaskScheduler :: "'t memory \<Rightarrow> int \<Rightarrow> ('t, 'r, 'h) TaskScheduler option" where
  "NewFIFOTaskScheduler mem workerCount =
     NewFIFOTaskSchedulerWithConfig mem workerCount (Some DefaultTaskSchedulerConfig)"

definition log_call :: "handler_call \<Rightarrow> ('t, 'r, 'h) TaskScheduler \<Rightarrow> ('t, 'r, 'h) TaskScheduler" where
  "log_call c s = s\<lparr>sch_log := sch_log s @ [c]\<rparr>"

subsection \<open>Posting\<close>

definition Post_reject :: "('t, 'r, 'h) TaskScheduler \<Rightarrow> ('t, 'r, 'h) TaskScheduler" where
  "Post_reject s = log_call (RecordTaskRejected ''TaskScheduler'' ''shutting down'')
     (log_call (HandleRejectedTask ''TaskScheduler'' ''shutting down'') s)"

definition Post_push ::
  "(nat \<Rightarrow> nat) \<Rightarrow> TaskID \<Rightarrow> 't \<Rightarrow> TaskTraits \<Rightarrow> ('t, 'r, 'h) TaskScheduler \<Rightarrow> ('t, 'r, 'h) TaskScheduler" where
  "Post_push grow i task traits s = s\<lparr>sch_queue := TQ_Push grow i task traits (sch_queue s)\<rparr>"

definition Post_count :: "('t, 'r, 'h) TaskScheduler \<Rightarrow> ('t, 'r, 'h) TaskScheduler" where
  "Post_count s =
     (let depth = metricQueued s + 1
      in log_call (RecordQueueDepth ''TaskScheduler'' (sint depth)) (s\<lparr>metricQueued := depth\<rparr>))"

definition Post_signal :: "('t, 'r, 'h) TaskScheduler \<Rightarrow> ('t, 'r, 'h) TaskScheduler" where
  "Post_signal s = (if sch_signal s < sch_signal_cap s then s\<lparr>sch_signal := sch_signal s + 1\<rparr> else s)"

definition PostInternal ::
  "(nat \<Rightarrow> nat) \<Rightarrow> TaskID \<Rightarrow> 't \<Rightarrow> TaskTraits \<Rightarrow> ('t, 'r, 'h) TaskScheduler \<Rightarrow> ('t, 'r, 'h) TaskScheduler" where
  "PostInternal grow i task traits s =
     (if shuttingDown s then Post_reject s
      else Post_signal (Post_count (Post_push grow i task traits s)))"

definition PostDelayedInternal ::
  "int \<Rightarrow> 't \<Rightarrow> int \<Rightarrow> TaskTraits \<Rightarrow> 'r \<Rightarrow> ('t, 'r, 'h) TaskScheduler \<Rightarrow> delay_panic + ('t, 'r, 'h) TaskScheduler" where
  "PostDelayedInternal now task delay traits target s =
     (if shuttingDown s then Inr s
      else case AddDelayedTask now task delay traits target (sch_delayManager s) of
             Inl p \<Rightarrow> Inl p
           | Inr dm \<Rightarrow> Inr (s\<lparr>sch_delayManager := dm\<rparr>))"

subsection \<open>Taking work\<close>

text \<open>
  One round of the loop of \<^verbatim>\<open>GetWork\<close>: the pop; the metric update after a successful pop; and
  the two branches of the \<^verbatim>\<open>select\<close>, of which the first consumes a token and goes round again.
\<close>

definition GetWork_pop :: "('t, 'r, 'h) TaskScheduler \<Rightarrow> 't TaskItem option \<times> ('t, 'r, 'h) TaskScheduler" where
  "GetWork_pop s = (case TQ_Pop (sch_queue s) of (r, q) \<Rightarrow> (r, s\<lparr>sch_queue := q\<rparr>))"

definition GetWork_count :: "('t, 'r, 'h) TaskScheduler \<Rightarrow> ('t, 'r, 'h) TaskScheduler" where
  "GetWork_count s =
     (let depth = metricQueued s - 1
      in log_call (RecordQueueDepth ''TaskScheduler'' (sint depth)) (s\<lparr>metricQueued := depth\<rparr>))"

definition GetWork_signal :: "('t, 'r, 'h) TaskScheduler \<Rightarrow> ('t, 'r, 'h) TaskScheduler option" where
  "GetWork_signal s = (if 0 < sch_signal s then Some (s\<lparr>sch_signal := sch_signal s - 1\<rparr>) else None)"

subsection \<open>Stopping\<close>

definition Shutdown_mark :: "('t, 'r, 'h) TaskScheduler \<Rightarrow> ('t, 'r, 'h) TaskScheduler" where
  "Shutdown_mark s = s\<lparr>shuttingDown := True\<rparr>"

definition Shutdown_stop_delays :: "('t, 'r, 'h) TaskScheduler \<Rightarrow> ('t, 'r, 'h) TaskScheduler option" where
  "Shutdown_stop_delays s = map_option (\<lambda>dm. s\<lparr>sch_delayManager := dm\<rparr>) (dm_Stop_clear (sch_delayManager s))"

definition Shutdown_clear :: "('t, 'r, 'h) TaskScheduler \<Rightarrow> ('t, 'r, 'h) TaskScheduler" where
  "Shutdown_clear s = s\<lparr>sch_queue := TQ_Clear (sch_queue s)\<rparr>"

definition Shutdown_reset :: "('t, 'r, 'h) TaskScheduler \<Rightarrow> ('t, 'r, 'h) TaskScheduler" where
  "Shutdown_reset s = log_call (RecordQueueDepth ''TaskScheduler'' 0) (s\<lparr>metricQueued := 0\<rparr>)"

text \<open>
  \<^verbatim>\<open>Shutdown\<close> as one uninterrupted call: the delay manager's goroutine observes the cancelled
  context and closes \<^verbatim>\<open>done\<close>, for which \<^verbatim>\<open>Stop\<close> waits.
\<close>

definition dm_Stop :: "('t, 'r) DelayManager \<Rightarrow> ('t, 'r) DelayManager" where
  "dm_Stop dm = (let dm1 = (dm_Stop_cancel dm)\<lparr>dm_done := True\<rparr>
                 in case dm_Stop_clear dm1 of None \<Rightarrow> dm1 | Some dm2 \<Rightarrow> dm2)"

definition Shutdown :: "('t, 'r, 'h) TaskScheduler \<Rightarrow> ('t, 'r, 'h) TaskScheduler" where
  "Shutdown s =
     (let s = Shutdown_mark s;
          s = s\<lparr>sch_delayManager := dm_Stop (sch_delayManager s)\<rparr>
      in Shutdown_reset (Shutdown_clear s))"

definition QueuedTaskCount :: "('t, 'r, 'h) TaskScheduler \<Rightarrow> int" where
  "QueuedTaskCount s = sint (metricQueued s)"

definition ActiveTaskCount :: "('t, 'r, 'h) TaskScheduler \<Rightarrow> int" where
  "ActiveTaskCount s = sint (metricActive s)"

definition DelayedTaskCount :: "('t, 'r, 'h) TaskScheduler \<Rightarrow> nat" where
  "DelayedTaskCount s = dm_TaskCount (sch_delayManager s)"

text \<open>
  One turn of the loop of \<^verbatim>\<open>ShutdownGraceful\<close>: the \<^verbatim>\<open>select\<close> received from \<^verbatim>\<open>deadline\<close> or from
  the ticker. The result says whether the call returns, and with what.
\<close>

datatype graceful_event = DeadlineFired | TickerFired

datatype graceful_result = StillWaiting | ReturnNil | ReturnTimeoutError

definition ShutdownGraceful_turn ::
  "graceful_event \<Rightarrow> ('t, 'r, 'h) TaskScheduler \<Rightarrow> graceful_result \<times> ('t, 'r, 'h) TaskScheduler" where
  "ShutdownGraceful_turn e s =
     (case e of
        DeadlineFired \<Rightarrow> (ReturnTimeoutError, Shutdown_reset (Shutdown_clear s))
      | TickerFired \<Rightarrow>
          if QueuedTaskCount s = 0 \<and> ActiveTaskCount s = 0 then (ReturnNil, s) else (StillWaiting, s))"

definition OnTaskStart :: "('t, 'r, 'h) TaskScheduler \<Rightarrow> ('t, 'r, 'h) TaskScheduler" where
  "OnTaskStart s = s\<lparr>metricActive := metricActive s + 1\<rparr>"

definition OnTaskEnd :: "('t, 'r, 'h) TaskScheduler \<Rightarrow> ('t, 'r, 'h) TaskScheduler" where
  "OnTaskEnd s = s\<lparr>metricActive := metricActive s - 1\<rparr>"

lemmas sched_ops [model_defs] =
  Post_reject_def Post_push_def Post_count_def Post_signal_def GetWork_count_def Shutdown_mark_def
  Shutdown_clear_def Shutdown_reset_def OnTaskStart_def OnTaskEnd_def log_call_def Let_def

end
