(* ===== verification/Thread_Pool.thy ===== *)
theory Thread_Pool
  imports Task_Scheduler
begin

text \<open>
  \<^verbatim>\<open>GoroutineThreadPool\<close> of \<^verbatim>\<open>pool.go\<close> and, around it, the concurrent behaviour of the
  scheduler. The state holds the pool, one program counter for each worker goroutine, for each
  caller inside \<^verbatim>\<open>PostInternal\<close> and for each caller inside \<^verbatim>\<open>Stop\<close> or \<^verbatim>\<open>StopGraceful\<close>, and the
  history of the tasks. Each atomic operation or critical section of the code is one step, and the
  steps of all goroutines interleave freely. A task is opaque: when a worker runs it the label says
  whether it panicked, and what it posts are further callers of \<^verbatim>\<open>PostInternal\<close>. The delayed tasks
  arrive the same way, as posts of the delay manager's goroutine.
\<close>

section \<open>The pool\<close>

record ('t, 'r, 'h) GoroutineThreadPool =
  pool_id :: string
  pool_workers :: int
  pool_scheduler :: "('t, 'r, 'h) TaskScheduler"
  pool_running :: bool
  pool_ctx_cancelled :: bool

definition new_pool :: "string \<Rightarrow> int \<Rightarrow> ('t, 'r, 'h) TaskScheduler option \<Rightarrow> ('t, 'r, 'h) GoroutineThreadPool option" where
  "new_pool name workers sched =
     map_option (\<lambda>s. \<lparr>pool_id = name, pool_workers = workers, pool_scheduler = s, pool_running = False,
       pool_ctx_cancelled = False\<rparr>) sched"

definition NewGoroutineThreadPool :: "'t memory \<Rightarrow> string \<Rightarrow> int \<Rightarrow> ('t, 'r, 'h) GoroutineThreadPool option" where
  "NewGoroutineThreadPool mem name workers = new_pool name workers (NewFIFOTaskScheduler mem workers)"

definition NewGoroutineThreadPoolWithConfig ::
  "'t memory \<Rightarrow> string \<Rightarrow> int \<Rightarrow> 'h TaskSchedulerConfig option \<Rightarrow> ('t, 'r, 'h) GoroutineThreadPool option" where
  "NewGoroutineThreadPoolWithConfig mem name workers config =
     new_pool name workers (NewFIFOTaskSchedulerWithConfig mem workers config)"

definition NewPriorityGoroutineThreadPool :: "string \<Rightarrow> int \<Rightarrow> ('t, 'r, 'h) GoroutineThreadPool option" where
  "NewPriorityGoroutineThreadPool name workers = new_pool name workers (NewPriorityTaskScheduler workers)"

definition NewPriorityGoroutineThreadPoolWithConfig ::
  "string \<Rightarrow> int \<Rightarrow> 'h TaskSchedulerConfig option \<Rightarrow> ('t, 'r, 'h) GoroutineThreadPool option" where
  "NewPriorityGoroutineThreadPoolWithConfig name workers config =
     new_pool name workers (NewPriorityTaskSchedulerWithConfig workers config)"

definition pool_Stats :: "('t, 'r, 'h) GoroutineThreadPool \<Rightarrow> PoolStats" where
  "pool_Stats tg = \<lparr>stats_ID = pool_id tg, stats_Workers = pool_workers tg,
     stats_Queued = QueuedTaskCount (pool_scheduler tg), stats_Active = ActiveTaskCount (pool_scheduler tg),
     stats_Delayed = DelayedTaskCount (pool_scheduler tg), stats_Running = pool_running tg\<rparr>"

section \<open>The goroutines\<close>

text \<open>
  A worker in \<^verbatim>\<open>workerLoop\<close>: at the pop of \<^verbatim>\<open>GetWork\<close>, at its \<^verbatim>\<open>select\<close>, between the pop and the
  update of \<^verbatim>\<open>metricQueued\<close>, before \<^verbatim>\<open>OnTaskStart\<close>, at the call of the task, before
  \<^verbatim>\<open>OnTaskEnd\<close>, before the report to the handlers, or returned.
\<close>

datatype 't worker_pc =
    WPop | WSelect | WCount "'t TaskItem" | WStart "'t TaskItem" | WRun "'t TaskItem"
  | WEnd "'t TaskItem" bool | WReport "'t TaskItem" bool | WGone

fun worker_step ::
  "string \<Rightarrow> nat \<Rightarrow> bool \<Rightarrow> bool \<Rightarrow> 't worker_pc \<Rightarrow> ('t, 'r, 'h) TaskScheduler \<Rightarrow>
     ('t worker_pc \<times> ('t, 'r, 'h) TaskScheduler) option" where
  "worker_step name i choice cancelled WPop s =
     (case GetWork_pop s of (Some x, s') \<Rightarrow> Some (WCount x, s') | (None, s') \<Rightarrow> Some (WSelect, s'))"
| "worker_step name i choice cancelled (WCount x) s = Some (WStart x, GetWork_count s)"
| "worker_step name i choice cancelled WSelect s =
     (if choice then map_option (\<lambda>s'. (WPop, s')) (GetWork_signal s)
      else if cancelled then Some (WGone, s) else None)"
| "worker_step name i choice cancelled (WStart x) s = Some (WRun x, OnTaskStart s)"
| "worker_step name i choice cancelled (WRun x) s = Some (WEnd x choice, s)"
| "worker_step name i choice cancelled (WEnd x panicked) s = Some (WReport x panicked, OnTaskEnd s)"
| "worker_step name i choice cancelled (WReport x panicked) s =
     Some (WPop,
       if panicked then log_call (RecordTaskPanic name) (log_call (HandlePanic name (int i)) s)
       else log_call (RecordTaskDuration name (item_priority x)) s)"
| "worker_step name i choice cancelled WGone s = None"

datatype 't poster_pc = PPush 't TaskTraits | PCount | PSignal | PDone

fun poster_step ::
  "(nat \<Rightarrow> nat) \<Rightarrow> TaskID \<Rightarrow> 't poster_pc \<Rightarrow> ('t, 'r, 'h) TaskScheduler \<Rightarrow>
     ('t poster_pc \<times> ('t, 'r, 'h) TaskScheduler) option" where
  "poster_step grow i (PPush t tr) s = Some (PCount, Post_push grow i t tr s)"
| "poster_step grow i PCount s = Some (PSignal, Post_count s)"
| "poster_step grow i PSignal s = Some (PDone, Post_signal s)"
| "poster_step grow i PDone s = None"

text \<open>
  A caller of \<^verbatim>\<open>Stop\<close> (\<open>graceful = False\<close>) or \<^verbatim>\<open>StopGraceful\<close>: marking the scheduler,
  stopping the delay manager, in the loop of \<^verbatim>\<open>ShutdownGraceful\<close> (at its \<^verbatim>\<open>select\<close>, then loading
  the two counters one after the other), clearing the queue, resetting the counter, looking at
  \<^verbatim>\<open>running\<close>, cancelling the context, in \<^verbatim>\<open>Join\<close>, setting \<^verbatim>\<open>running\<close>, returned.
\<close>

datatype stop_pc =
    SpMark bool | SpDelays bool | SpWait | SpLoadQueued | SpLoadActive | SpClear bool | SpReset bool
  | SpCheck | SpCancel graceful_result | SpJoin graceful_result | SpSetRunning graceful_result
  | SpDone graceful_result

text \<open>\<open>ps_cleared\<close> records that some shutdown has begun to clear the queue or its counter.\<close>

record ('t, 'r, 'h) pool_sys =
  ps_pool :: "('t, 'r, 'h) GoroutineThreadPool"
  ps_workers :: "'t worker_pc list"
  ps_posters :: "'t poster_pc list"
  ps_stoppers :: "stop_pc list"
  ps_accepted :: "'t TaskItem list"
  ps_executed :: "'t TaskItem list"
  ps_discarded :: "'t TaskItem list"
  ps_cleared :: bool

abbreviation ps_sched :: "('t, 'r, 'h) pool_sys \<Rightarrow> ('t, 'r, 'h) TaskScheduler" where
  "ps_sched s \<equiv> pool_scheduler (ps_pool s)"

definition set_sched :: "('t, 'r, 'h) TaskScheduler \<Rightarrow> ('t, 'r, 'h) pool_sys \<Rightarrow> ('t, 'r, 'h) pool_sys" where
  "set_sched c s = s\<lparr>ps_pool := (ps_pool s)\<lparr>pool_scheduler := c\<rparr>\<rparr>"

definition pool_init_sys :: "('t, 'r, 'h) GoroutineThreadPool \<Rightarrow> ('t, 'r, 'h) pool_sys" where
  "pool_init_sys tg = \<lparr>ps_pool = tg, ps_workers = [], ps_posters = [], ps_stoppers = [],
     ps_accepted = [], ps_executed = [], ps_discarded = [], ps_cleared = False\<rparr>"

definition pool_Start :: "('t, 'r, 'h) pool_sys \<Rightarrow> ('t, 'r, 'h) pool_sys" where
  "pool_Start s =
     (if pool_running (ps_pool s) then s
      else s\<lparr>ps_pool := (ps_pool s)\<lparr>pool_ctx_cancelled := False, pool_running := True\<rparr>,
             ps_workers := replicate (nat (pool_workers (ps_pool s))) WPop\<rparr>)"

text \<open>The step of one stopper; \<open>e\<close> is the branch that the \<^verbatim>\<open>select\<close> of \<^verbatim>\<open>ShutdownGraceful\<close> takes.\<close>

fun stop_step :: "graceful_event \<Rightarrow> stop_pc \<Rightarrow> ('t, 'r, 'h) pool_sys \<Rightarrow> (stop_pc \<times> ('t, 'r, 'h) pool_sys) option" where
  "stop_step e (SpMark g) s = Some (SpDelays g, set_sched (Shutdown_mark (ps_sched s)) s)"
| "stop_step e (SpDelays g) s =
     Some (if g then SpWait else SpClear False,
       set_sched ((ps_sched s)\<lparr>sch_delayManager := dm_Stop (sch_delayManager (ps_sched s))\<rparr>) s)"
| "stop_step e SpWait s =
     Some (case e of DeadlineFired \<Rightarrow> SpClear True | TickerFired \<Rightarrow> SpLoadQueued, s)"
| "stop_step e SpLoadQueued s =
     Some (if QueuedTaskCount (ps_sched s) = 0 then SpLoadActive else SpWait, s)"
| "stop_step e SpLoadActive s =
     Some (if ActiveTaskCount (ps_sched s) = 0 then SpCancel ReturnNil else SpWait, s)"
| "stop_step e (SpClear g) s =
     Some (SpReset g,
       (set_sched (Shutdown_clear (ps_sched s)) s)
         \<lparr>ps_discarded := ps_discarded s @ TQ_items (sch_queue (ps_sched s)), ps_cleared := True\<rparr>)"
| "stop_step e (SpReset g) s =
     Some (if g then SpCancel ReturnTimeoutError else SpCheck,
       (set_sched (Shutdown_reset (ps_sched s)) s)\<lparr>ps_cleared := True\<rparr>)"
| "stop_step e SpCheck s =
     Some (if pool_running (ps_pool s) then SpCancel ReturnNil else SpDone ReturnNil, s)"
| "stop_step e (SpCancel r) s = Some (SpJoin r, s\<lparr>ps_pool := (ps_pool s)\<lparr>pool_ctx_cancelled := True\<rparr>\<rparr>)"
| "stop_step e (SpJoin r) s = (if set (ps_workers s) \<subseteq> {WGone} then Some (SpSetRunning r, s) else None)"
| "stop_step e (SpSetRunning r) s =
     Some (SpDone r, s\<lparr>ps_pool := (ps_pool s)\<lparr>pool_running := False\<rparr>\<rparr>)"
| "stop_step e (SpDone r) s = None"

text \<open>
  The labels. \<open>TPost\<close> is the check of \<^verbatim>\<open>shuttingDown\<close> at the head of \<^verbatim>\<open>PostInternal\<close>: the
  caller is turned away there or becomes a poster. \<open>TStart\<close> is the first start: a pool that was
  stopped can be started again, but its scheduler then rejects every post. A caller of
  \<^verbatim>\<open>StopGraceful\<close> returns at once when the pool does not run.
\<close>

datatype 't pool_label =
    TStart | TPost 't TaskTraits | TPoster nat TaskID | TWorker nat bool
  | TStop | TStopGraceful | TStopper nat graceful_event

definition poster_moves ::
  "nat \<Rightarrow> 't poster_pc \<times> ('t, 'r, 'h) TaskScheduler \<Rightarrow> TaskID \<Rightarrow> ('t, 'r, 'h) pool_sys \<Rightarrow> ('t, 'r, 'h) pool_sys" where
  "poster_moves k res i s =
     (case res of (pc, c) \<Rightarrow>
        (set_sched c s)\<lparr>ps_posters := (ps_posters s)[k := pc],
           ps_accepted := ps_accepted s @
             (case ps_posters s ! k of PPush t tr \<Rightarrow> [\<lparr>Task = t, Traits = tr, ID = i\<rparr>] | _ \<Rightarrow> [])\<rparr>)"

definition worker_moves ::
  "nat \<Rightarrow> 't worker_pc \<times> ('t, 'r, 'h) TaskScheduler \<Rightarrow> ('t, 'r, 'h) pool_sys \<Rightarrow> ('t, 'r, 'h) pool_sys" where
  "worker_moves k res s =
     (case res of (pc, c) \<Rightarrow>
        (set_sched c s)\<lparr>ps_workers := (ps_workers s)[k := pc],
           ps_executed := ps_executed s @ (case ps_workers s ! k of WRun x \<Rightarrow> [x] | _ \<Rightarrow> [])\<rparr>)"

fun pool_step :: "(nat \<Rightarrow> nat) \<Rightarrow> 't pool_label \<Rightarrow> ('t, 'r, 'h) pool_sys \<Rightarrow> ('t, 'r, 'h) pool_sys option" where
  "pool_step grow TStart s = (if ps_workers s = [] then Some (pool_Start s) else None)"
| "pool_step grow (TPost t tr) s =
     (if shuttingDown (ps_sched s) then Some (set_sched (Post_reject (ps_sched s)) s)
      else Some (s\<lparr>ps_posters := ps_posters s @ [PPush t tr]\<rparr>))"
| "pool_step grow (TPoster k i) s =
     (if k < length (ps_posters s)
      then map_option (\<lambda>res. poster_moves k res i s) (poster_step grow i (ps_posters s ! k) (ps_sched s))
      else None)"
| "pool_step grow (TWorker k choice) s =
     (if k < length (ps_workers s)
      then map_option (\<lambda>res. worker_moves k res s)
             (worker_step (pool_id (ps_pool s)) k choice (pool_ctx_cancelled (ps_pool s)) (ps_workers s ! k) (ps_sched s))
      else None)"
| "pool_step grow TStop s = Some (s\<lparr>ps_stoppers := ps_stoppers s @ [SpMark False]\<rparr>)"
| "pool_step grow TStopGraceful s =
     Some (s\<lparr>ps_stoppers := ps_stoppers s @ [if pool_running (ps_pool s) then SpMark True else SpDone ReturnNil]\<rparr>)"
| "pool_step grow (TStopper k e) s =
     (if k < length (ps_stoppers s)
      then map_option (\<lambda>(pc, s'). s'\<lparr>ps_stoppers := (ps_stoppers s)[k := pc]\<rparr>) (stop_step e (ps_stoppers s ! k) s)
      else None)"

definition fresh_pool :: "('t, 'r, 'h) GoroutineThreadPool \<Rightarrow> bool" where
  "fresh_pool tg \<longleftrightarrow> (\<exists>mem name n config.
     NewGoroutineThreadPoolWithConfig mem name n config = Some tg \<or>
     NewPriorityGoroutineThreadPoolWithConfig name n config = Some tg)"

abbreviation pool_reachable :: "(nat \<Rightarrow> nat) \<Rightarrow> ('t, 'r, 'h) pool_sys \<Rightarrow> bool" where
  "pool_reachable grow \<equiv> reach (\<lambda>s. \<exists>tg. fresh_pool tg \<and> s = pool_init_sys tg) (lstep (pool_step grow))"

section \<open>Stopping without interference, and the global pool\<close>

text \<open>
  \<^verbatim>\<open>Stop\<close> as one call, when nobody interferes and every worker returns as soon as the context is
  cancelled. The lemma below relates it to the steps of a stopper.
\<close>

definition pool_Stop :: "('t, 'r, 'h) GoroutineThreadPool \<Rightarrow> ('t, 'r, 'h) GoroutineThreadPool" where
  "pool_Stop tg =
     (let tg = tg\<lparr>pool_scheduler := Shutdown (pool_scheduler tg)\<rparr>
      in if \<not> pool_running tg then tg else tg\<lparr>pool_ctx_cancelled := True, pool_running := False\<rparr>)"

lemma stopper_runs_Stop:
  assumes "ps_stoppers s = [SpMark False]" "set (ps_workers s) \<subseteq> {WGone}"
  shows "\<exists>n s'. run (pool_step grow) (replicate n (TStopper 0 e)) s = Some s' \<and>
           ps_stoppers s' = [SpDone ReturnNil] \<and> ps_pool s' = pool_Stop (ps_pool s)"
  using assms
  by (intro exI [of _ "if pool_running (ps_pool s) then 8 else 5"])
    (simp add: numeral_eq_Suc set_sched_def pool_Stop_def Shutdown_def Shutdown_mark_def Shutdown_clear_def
      Shutdown_reset_def log_call_def Let_def)

datatype global_panic = GlobalThreadPoolNotInitialized | NegativeChannelSize

definition InitGlobalThreadPool ::
  "'t memory \<Rightarrow> int \<Rightarrow> ('t, 'r, 'h) pool_sys option \<Rightarrow> global_panic + ('t, 'r, 'h) pool_sys option" where
  "InitGlobalThreadPool mem workers g =
     (case g of
        Some s \<Rightarrow> Inr g
      | None \<Rightarrow>
          case NewGoroutineThreadPool mem ''global-pool'' workers of
            None \<Rightarrow> Inl NegativeChannelSize
          | Some tg \<Rightarrow> Inr (Some (pool_Start (pool_init_sys tg))))"

definition GetGlobalThreadPool :: "('t, 'r, 'h) pool_sys option \<Rightarrow> global_panic + ('t, 'r, 'h) pool_sys" where
  "GetGlobalThreadPool g = (case g of None \<Rightarrow> Inl GlobalThreadPoolNotInitialized | Some s \<Rightarrow> Inr s)"

text \<open>\<^verbatim>\<open>ShutdownGlobalThreadPool\<close> stops the pool and forgets it; the result is the stopped pool and the new global.\<close>

definition ShutdownGlobalThreadPool ::
  "('t, 'r, 'h) pool_sys option \<Rightarrow> ('t, 'r, 'h) GoroutineThreadPool option \<times> ('t, 'r, 'h) pool_sys option" where
  "ShutdownGlobalThreadPool g =
     (case g of None \<Rightarrow> (None, None) | Some s \<Rightarrow> (Some (pool_Stop (ps_pool s)), None))"

section \<open>Counting goroutines\<close>

fun w_pop :: "'t worker_pc \<Rightarrow> nat" where "w_pop WPop = 1" | "w_pop _ = 0"
fun w_select :: "'t worker_pc \<Rightarrow> nat" where "w_select WSelect = 1" | "w_select _ = 0"
fun w_count :: "'t worker_pc \<Rightarrow> nat" where "w_count (WCount x) = 1" | "w_count _ = 0"
fun w_active :: "'t worker_pc \<Rightarrow> nat" where "w_active (WRun x) = 1" | "w_active (WEnd x b) = 1" | "w_active _ = 0"

fun w_hand :: "'t worker_pc \<Rightarrow> 't TaskItem list" where
  "w_hand (WCount x) = [x]" | "w_hand (WStart x) = [x]" | "w_hand (WRun x) = [x]" | "w_hand _ = []"

fun p_count :: "'t poster_pc \<Rightarrow> nat" where "p_count PCount = 1" | "p_count _ = 0"
fun p_mid :: "'t poster_pc \<Rightarrow> nat" where "p_mid PCount = 1" | "p_mid PSignal = 1" | "p_mid _ = 0"

lemma weight_bounds:
  "w_select pc \<le> 1" "w_count pc \<le> 1" "w_active pc \<le> 1" "0 < w_pop pc \<longleftrightarrow> pc = WPop"
  "0 < p_mid p \<longleftrightarrow> p = PCount \<or> p = PSignal"
  by (cases pc; simp)+ (cases p; simp)

section \<open>The invariant\<close>

abbreviation qlen :: "('t, 'r, 'h) pool_sys \<Rightarrow> nat" where
  "qlen s \<equiv> length (TQ_items (sch_queue (ps_sched s)))"

text \<open>
  The tokens on \<^verbatim>\<open>signal\<close>: there are enough of them (with the workers about to pop and the posters about
  to signal) for every queued task, or enough for every worker that waits.
\<close>

definition tokens_ok :: "('t, 'r, 'h) pool_sys \<Rightarrow> bool" where
  "tokens_ok s \<longleftrightarrow>
     qlen s \<le> sch_signal (ps_sched s) + weight w_pop (ps_workers s) + weight p_mid (ps_posters s) \<or>
     weight w_select (ps_workers s) \<le> sch_signal (ps_sched s) + weight p_mid (ps_posters s)"

definition tasks_ok :: "('t, 'r, 'h) pool_sys \<Rightarrow> bool" where
  "tasks_ok s \<longleftrightarrow>
     mset (ps_accepted s) = mset (ps_executed s) + held w_hand (ps_workers s) +
       mset (TQ_items (sch_queue (ps_sched s))) + mset (ps_discarded s)"

definition metrics_ok :: "('t, 'r, 'h) pool_sys \<Rightarrow> bool" where
  "metrics_ok s \<longleftrightarrow>
     metricActive (ps_sched s) = of_nat (weight w_active (ps_workers s)) \<and>
     (\<not> ps_cleared s \<longrightarrow>
        metricQueued (ps_sched s) + of_nat (weight p_count (ps_posters s)) =
          of_nat (qlen s) + of_nat (weight w_count (ps_workers s)))"

definition shape_ok :: "('t, 'r, 'h) pool_sys \<Rightarrow> bool" where
  "shape_ok s \<longleftrightarrow> TQ_invar (sch_queue (ps_sched s)) \<and>
     sch_signal_cap (ps_sched s) = nat (pool_workers (ps_pool s) * 2) \<and>
     (ps_workers s = [] \<or> length (ps_workers s) = nat (pool_workers (ps_pool s))) \<and>
     (\<not> ps_cleared s \<longrightarrow> ps_discarded s = [])"

definition pool_inv :: "('t, 'r, 'h) pool_sys \<Rightarrow> bool" where
  "pool_inv s \<longleftrightarrow> shape_ok s \<and> tokens_ok s \<and> tasks_ok s \<and> metrics_ok s"

lemmas pool_inv_defs = pool_inv_def shape_ok_def tokens_ok_def tasks_ok_def metrics_ok_def

lemma pool_inv_init: "fresh_pool tg \<Longrightarrow> pool_inv (pool_init_sys tg)"
  by (auto simp: pool_inv_defs pool_init_sys_def fresh_pool_def new_pool_def new_scheduler_def
      NewGoroutineThreadPoolWithConfig_def NewFIFOTaskSchedulerWithConfig_def
      NewPriorityGoroutineThreadPoolWithConfig_def NewPriorityTaskSchedulerWithConfig_def
      NewPriorityTaskQueue_def heap_wf_def split: if_splits)

subsection \<open>A worker moves\<close>

lemma worker_weights:
  assumes "k < length ws" "ws ! k = pc"
  shows "weight w_pop (ws[k := q]) + w_pop pc = weight w_pop ws + w_pop q"
    "weight w_select (ws[k := q]) + w_select pc = weight w_select ws + w_select q"
    "weight w_count (ws[k := q]) + w_count pc = weight w_count ws + w_count q"
    "weight w_active (ws[k := q]) + w_active pc = weight w_active ws + w_active q"
    "held w_hand (ws[k := q]) + mset (w_hand pc) = held w_hand ws + mset (w_hand q)"
  using assms by (auto simp: weight_update held_update)

lemma worker_weight_le:
  assumes "k < length ws" "ws ! k = pc"
  shows "w_pop pc \<le> weight w_pop ws" "w_select pc \<le> weight w_select ws"
    "w_count pc \<le> weight w_count ws" "w_active pc \<le> weight w_active ws"
  using assms by (auto intro: weight_ge)

lemma worker_pop_inv:
  assumes inv: "pool_inv s" and k: "k < length (ps_workers s)" "ps_workers s ! k = WPop"
    and st: "worker_step name k choice cancelled WPop (ps_sched s) = Some res"
  shows "pool_inv (worker_moves k res s)"
proof -
  note w = worker_weights [OF k]
  have "TQ_invar (sch_queue (ps_sched s))" using inv by (simp add: pool_inv_defs)
  then show ?thesis
  proof (cases rule: tq.bag_pop_cases)
    case 1
    then have "res = (WSelect, ps_sched s)" using st by (simp add: GetWork_pop_def)
    with inv k w [of WSelect] 1 show ?thesis
      by (auto simp: pool_inv_defs worker_moves_def set_sched_def)
  next
    case (2 x q)
    then have res: "res = (WCount x, (ps_sched s)\<lparr>sch_queue := q\<rparr>)" using st by (simp add: GetWork_pop_def)
    from inv have "shape_ok (worker_moves k res s)"
      by (auto simp: pool_inv_defs worker_moves_def set_sched_def res 2)
    moreover have "tokens_ok (worker_moves k res s)"
      using inv w(1,2) [of "WCount x"] 2 k
      by (auto simp: pool_inv_defs worker_moves_def set_sched_def res)
    moreover have "tasks_ok (worker_moves k res s)"
      using inv w(5) [of "WCount x"] 2 k
      by (auto simp: pool_inv_defs worker_moves_def set_sched_def res)
    moreover have "metrics_ok (worker_moves k res s)"
      using inv w(3,4) [of "WCount x"] 2 k
      by (auto simp: pool_inv_defs worker_moves_def set_sched_def res)
    ultimately show ?thesis by (simp add: pool_inv_def)
  qed
qed

lemma worker_select_inv:
  assumes inv: "pool_inv s" and k: "k < length (ps_workers s)" "ps_workers s ! k = WSelect"
    and st: "worker_step name k choice cancelled WSelect (ps_sched s) = Some res"
  shows "pool_inv (worker_moves k res s)"
proof (cases choice)
  case True
  with st have "res = (WPop, (ps_sched s)\<lparr>sch_signal := sch_signal (ps_sched s) - 1\<rparr>)" "0 < sch_signal (ps_sched s)"
    by (auto simp: GetWork_signal_def split: if_splits)
  with inv k worker_weights [OF k, of WPop] worker_weight_le [OF k] show ?thesis
    by (auto simp: pool_inv_defs worker_moves_def set_sched_def)
next
  case False
  with st have "res = (WGone, ps_sched s)" by (auto split: if_splits)
  with inv k worker_weights [OF k, of WGone] worker_weight_le [OF k] show ?thesis
    by (auto simp: pool_inv_defs worker_moves_def set_sched_def)
qed

lemma worker_count_inv:
  assumes inv: "pool_inv s" and k: "k < length (ps_workers s)" "ps_workers s ! k = WCount x"
  shows "pool_inv (worker_moves k (WStart x, GetWork_count (ps_sched s)) s)"
proof -
  from worker_weights(3) [OF k, of "WStart x"]
  have "weight w_count (ps_workers s) = Suc (weight w_count ((ps_workers s)[k := WStart x]))" by simp
  with inv k worker_weights [OF k, of "WStart x"] show ?thesis
    by (auto simp: pool_inv_defs worker_moves_def set_sched_def sched_ops algebra_simps)
qed

lemma worker_start_inv:
  assumes inv: "pool_inv s" and k: "k < length (ps_workers s)" "ps_workers s ! k = WStart x"
  shows "pool_inv (worker_moves k (WRun x, OnTaskStart (ps_sched s)) s)"
proof -
  from worker_weights(4) [OF k, of "WRun x"]
  have "weight w_active ((ps_workers s)[k := WRun x]) = Suc (weight w_active (ps_workers s))" by simp
  with inv k worker_weights [OF k, of "WRun x"] show ?thesis
    by (auto simp: pool_inv_defs worker_moves_def set_sched_def sched_ops algebra_simps)
qed

lemma worker_run_inv:
  assumes inv: "pool_inv s" and k: "k < length (ps_workers s)" "ps_workers s ! k = WRun x"
  shows "pool_inv (worker_moves k (WEnd x b, ps_sched s) s)"
  using inv k worker_weights [OF k, of "WEnd x b"]
  by (auto simp: pool_inv_defs worker_moves_def set_sched_def algebra_simps)

lemma worker_end_inv:
  assumes inv: "pool_inv s" and k: "k < length (ps_workers s)" "ps_workers s ! k = WEnd x b"
  shows "pool_inv (worker_moves k (WReport x b, OnTaskEnd (ps_sched s)) s)"
proof -
  from worker_weights(4) [OF k, of "WReport x b"]
  have "weight w_active (ps_workers s) = Suc (weight w_active ((ps_workers s)[k := WReport x b]))" by simp
  with inv k worker_weights [OF k, of "WReport x b"] show ?thesis
    by (auto simp: pool_inv_defs worker_moves_def set_sched_def sched_ops algebra_simps)
qed

lemma worker_report_inv:
  assumes inv: "pool_inv s" and k: "k < length (ps_workers s)" "ps_workers s ! k = WReport x b"
  shows "pool_inv (worker_moves k (WPop, (ps_sched s)\<lparr>sch_log := l\<rparr>) s)"
  using inv k worker_weights [OF k, of WPop]
  by (auto simp: pool_inv_defs worker_moves_def set_sched_def)

lemma worker_inv:
  assumes inv: "pool_inv s" and k: "k < length (ps_workers s)"
    and st: "worker_step name k choice cancelled (ps_workers s ! k) (ps_sched s) = Some res"
  shows "pool_inv (worker_moves k res s)"
  using st worker_pop_inv [OF inv k] worker_select_inv [OF inv k] worker_count_inv [OF inv k]
    worker_start_inv [OF inv k] worker_run_inv [OF inv k] worker_end_inv [OF inv k]
    worker_report_inv [OF inv k]
  by (cases "ps_workers s ! k") (auto simp: log_call_def simp del: worker_step.simps(1,3))

subsection \<open>The other goroutines move\<close>

lemma poster_weights:
  assumes "k < length ps" "ps ! k = pc"
  shows "weight p_count (ps[k := q]) + p_count pc = weight p_count ps + p_count q"
    "weight p_mid (ps[k := q]) + p_mid pc = weight p_mid ps + p_mid q"
  using assms by (auto simp: weight_update)

lemma poster_push_inv:
  assumes inv: "pool_inv s" and k: "k < length (ps_posters s)" "ps_posters s ! k = PPush t tr"
  shows "pool_inv (poster_moves k (PCount, Post_push grow i t tr (ps_sched s)) i s)"
proof -
  have "TQ_invar (sch_queue (ps_sched s))" using inv by (simp add: pool_inv_defs)
  note push = tq.bag_push [OF this, of grow i t tr] tq.bag_push_length [OF this, of grow i t tr]
  from poster_weights [OF k, of PCount]
  have "weight p_count ((ps_posters s)[k := PCount]) = Suc (weight p_count (ps_posters s))"
    "weight p_mid ((ps_posters s)[k := PCount]) = Suc (weight p_mid (ps_posters s))" by simp_all
  with inv push show ?thesis
    by (auto simp: pool_inv_defs poster_moves_def set_sched_def sched_ops k algebra_simps)
qed

lemma poster_count_inv:
  assumes inv: "pool_inv s" and k: "k < length (ps_posters s)" "ps_posters s ! k = PCount"
  shows "pool_inv (poster_moves k (PSignal, Post_count (ps_sched s)) i s)"
proof -
  from poster_weights [OF k, of PSignal]
  have "weight p_count (ps_posters s) = Suc (weight p_count ((ps_posters s)[k := PSignal]))"
    "weight p_mid ((ps_posters s)[k := PSignal]) = weight p_mid (ps_posters s)" by simp_all
  with inv show ?thesis
    by (auto simp: pool_inv_defs poster_moves_def set_sched_def sched_ops k algebra_simps)
qed

lemma poster_signal_inv:
  assumes inv: "pool_inv s" and k: "k < length (ps_posters s)" "ps_posters s ! k = PSignal"
  shows "pool_inv (poster_moves k (PDone, Post_signal (ps_sched s)) i s)"
proof -
  from poster_weights [OF k, of PDone]
  have w: "weight p_count ((ps_posters s)[k := PDone]) = weight p_count (ps_posters s)"
    "weight p_mid (ps_posters s) = Suc (weight p_mid ((ps_posters s)[k := PDone]))" by simp_all
  have le: "weight w_select (ps_workers s) \<le> sch_signal (ps_sched s)" if "\<not> sch_signal (ps_sched s) < sch_signal_cap (ps_sched s)"
  proof -
    have "length (ps_workers s) \<le> sch_signal_cap (ps_sched s)"
      using inv by (auto simp: pool_inv_defs)
    with weight_le_length [of w_select "ps_workers s", OF weight_bounds(1)] that show ?thesis by linarith
  qed
  let ?s' = "poster_moves k (PDone, Post_signal (ps_sched s)) i s"
  have "tokens_ok ?s'"
    using inv w le by (auto simp: pool_inv_def tokens_ok_def poster_moves_def set_sched_def Post_signal_def)
  moreover have "metrics_ok ?s'"
    using inv w by (simp add: pool_inv_def metrics_ok_def poster_moves_def set_sched_def Post_signal_def)
  moreover have "shape_ok ?s'" "tasks_ok ?s'"
    using inv by (simp_all add: pool_inv_def shape_ok_def tasks_ok_def poster_moves_def set_sched_def Post_signal_def k)
  ultimately show ?thesis by (simp add: pool_inv_def)
qed

lemma poster_inv:
  assumes inv: "pool_inv s" and k: "k < length (ps_posters s)"
    and st: "poster_step grow i (ps_posters s ! k) (ps_sched s) = Some res"
  shows "pool_inv (poster_moves k res i s)"
  using st poster_push_inv [OF inv k] poster_count_inv [OF inv k] poster_signal_inv [OF inv k]
  by (cases "ps_posters s ! k") auto

lemma pool_inv_cong:
  assumes "pool_inv s" "sch_queue (ps_sched s') = sch_queue (ps_sched s)"
    "sch_signal (ps_sched s') = sch_signal (ps_sched s)" "sch_signal_cap (ps_sched s') = sch_signal_cap (ps_sched s)"
    "metricQueued (ps_sched s') = metricQueued (ps_sched s)" "metricActive (ps_sched s') = metricActive (ps_sched s)"
    "pool_workers (ps_pool s') = pool_workers (ps_pool s)" "ps_workers s' = ps_workers s" "ps_posters s' = ps_posters s"
    "ps_accepted s' = ps_accepted s" "ps_executed s' = ps_executed s" "ps_discarded s' = ps_discarded s"
    "ps_cleared s' = ps_cleared s"
  shows "pool_inv s'"
  using assms by (simp add: pool_inv_defs)

lemma clear_inv:
  assumes "pool_inv s" "stop_step e (SpClear g) s = Some (pc', s')"
  shows "pool_inv s'"
proof -
  have s': "s' = (set_sched (Shutdown_clear (ps_sched s)) s)
      \<lparr>ps_discarded := ps_discarded s @ TQ_items (sch_queue (ps_sched s)), ps_cleared := True\<rparr>"
    using assms(2) by simp
  note c = tq.bag_clear [of "sch_queue (ps_sched s)"]
  have "tasks_ok s'"
    using assms(1) c by (simp add: pool_inv_def tasks_ok_def s' set_sched_def Shutdown_clear_def ac_simps)
  with assms(1) c show ?thesis
    by (simp add: pool_inv_def shape_ok_def tokens_ok_def metrics_ok_def s' set_sched_def Shutdown_clear_def)
qed

lemma reset_inv:
  assumes "pool_inv s" "stop_step e (SpReset g) s = Some (pc', s')"
  shows "pool_inv s'"
proof -
  have "s' = (set_sched (Shutdown_reset (ps_sched s)) s)\<lparr>ps_cleared := True\<rparr>"
    using assms(2) by simp
  with assms(1) show ?thesis
    by (simp add: pool_inv_defs set_sched_def Shutdown_reset_def log_call_def)
qed

lemma stopper_inv:
  assumes inv: "pool_inv s" and st: "stop_step e pc s = Some (pc', s')"
  shows "pool_inv s'"
  using st clear_inv [OF inv] reset_inv [OF inv]
  by (cases pc) (auto intro!: pool_inv_cong [OF inv] simp: set_sched_def Shutdown_mark_def
      simp del: stop_step.simps(6,7) split: if_split_asm)

lemma fresh_workers:
  "weight w_select (replicate n WPop) = 0" "weight w_count (replicate n WPop) = 0"
  "weight w_active (replicate n WPop) = 0" "held w_hand (replicate n WPop) = {#}"
  by (auto simp: weight_zero_iff intro: held_empty)

lemma start_inv: "pool_inv s \<Longrightarrow> ps_workers s = [] \<Longrightarrow> pool_inv (pool_Start s)"
  by (auto simp: pool_inv_defs pool_Start_def fresh_workers)

lemma post_inv:
  assumes "pool_inv s" "pool_step grow (TPost t tr) s = Some s'"
  shows "pool_inv s'"
proof (cases "shuttingDown (ps_sched s)")
  case True
  with assms(2) have "s' = set_sched (Post_reject (ps_sched s)) s" by simp
  then show ?thesis
    by (intro pool_inv_cong [OF assms(1)]) (simp_all add: set_sched_def Post_reject_def log_call_def)
next
  case False
  with assms(2) have "s' = s\<lparr>ps_posters := ps_posters s @ [PPush t tr]\<rparr>" by simp
  with assms(1) show ?thesis by (simp add: pool_inv_defs)
qed

lemma stopper_step_inv:
  assumes "pool_inv s" "pool_step grow (TStopper k e) s = Some s'"
  shows "pool_inv s'"
proof -
  from assms(2) obtain pc t where "stop_step e (ps_stoppers s ! k) s = Some (pc, t)"
    and s': "s' = t\<lparr>ps_stoppers := (ps_stoppers s)[k := pc]\<rparr>"
    by (auto split: if_splits)
  then have "pool_inv t" using assms(1) by (auto intro: stopper_inv)
  then show ?thesis by (rule pool_inv_cong) (simp_all add: s')
qed

lemma pool_step_inv:
  assumes inv: "pool_inv s" and st: "pool_step grow l s = Some s'"
  shows "pool_inv s'"
proof (cases l)
  case TStart
  with assms show ?thesis by (auto intro: start_inv split: if_splits)
next
  case (TPost t tr)
  with assms show ?thesis by (blast intro: post_inv)
next
  case (TPoster k i)
  with st obtain res where "k < length (ps_posters s)" "s' = poster_moves k res i s"
    "poster_step grow i (ps_posters s ! k) (ps_sched s) = Some res"
    by (auto split: if_splits)
  with poster_inv [OF inv] show ?thesis by blast
next
  case (TWorker k b)
  with st obtain res where "k < length (ps_workers s)" "s' = worker_moves k res s"
    "worker_step (pool_id (ps_pool s)) k b (pool_ctx_cancelled (ps_pool s)) (ps_workers s ! k) (ps_sched s) = Some res"
    by (auto split: if_splits)
  with worker_inv [OF inv] show ?thesis by blast
next
  case (TStopper k e)
  with assms show ?thesis by (blast intro: stopper_step_inv)
next
  case TStop
  with st show ?thesis by (auto intro: pool_inv_cong [OF inv])
next
  case TStopGraceful
  with st show ?thesis by (auto intro: pool_inv_cong [OF inv])
qed

interpretation pools: inv_system "\<lambda>s. \<exists>tg. fresh_pool tg \<and> s = pool_init_sys tg" "lstep (pool_step grow)" pool_inv
  for grow
  by unfold_locales (auto simp: pool_inv_init lstep_def intro: pool_step_inv)

section \<open>Progress of a worker\<close>

definition executes :: "(nat \<Rightarrow> nat) \<Rightarrow> nat \<Rightarrow> ('t, 'r, 'h) pool_sys \<Rightarrow> bool" where
  "executes grow k s \<longleftrightarrow>
     (\<exists>ls s'. set ls \<subseteq> range (TWorker k) \<and> run (pool_step grow) ls s = Some s' \<and>
        length (ps_executed s') = Suc (length (ps_executed s)))"

lemma executes_step:
  assumes "pool_step grow (TWorker k b) s = Some s1" "ps_executed s1 = ps_executed s" "executes grow k s1"
  shows "executes grow k s"
proof -
  from assms(3) obtain ls s' where "set ls \<subseteq> range (TWorker k)" "run (pool_step grow) ls s1 = Some s'"
    "length (ps_executed s') = Suc (length (ps_executed s1))" by (auto simp: executes_def)
  with assms show ?thesis
    unfolding executes_def by (intro exI [of _ "TWorker k b # ls"] exI [of _ s']) (simp del: pool_step.simps)
qed

text \<open>From where a worker has to be for its own steps to execute a task.\<close>

fun can_execute :: "'t worker_pc \<Rightarrow> ('t, 'r, 'h) TaskScheduler \<Rightarrow> bool" where
  "can_execute WGone c = False"
| "can_execute (WRun x) c = True"
| "can_execute (WStart x) c = True"
| "can_execute (WCount x) c = True"
| "can_execute WSelect c = (0 < sch_signal c \<and> TQ_items (sch_queue c) \<noteq> [])"
| "can_execute _ c = (TQ_items (sch_queue c) \<noteq> [])"

fun w_rank :: "'t worker_pc \<Rightarrow> nat" where
  "w_rank (WRun x) = 0" | "w_rank (WStart x) = 1" | "w_rank (WCount x) = 2" | "w_rank WPop = 3"
| "w_rank (WReport x b) = 4" | "w_rank (WEnd x b) = 5" | "w_rank WSelect = 4" | "w_rank WGone = 0"

lemma worker_progress:
  assumes "can_execute pc c" "TQ_invar (sch_queue c)" "w_rank pc \<noteq> 0"
  shows "\<exists>pc' c'. worker_step name k True cancelled pc c = Some (pc', c') \<and> can_execute pc' c' \<and>
           TQ_invar (sch_queue c') \<and> w_rank pc' < w_rank pc"
proof (cases pc)
  case WPop
  from assms(2) show ?thesis
  proof (cases rule: tq.bag_pop_cases)
    case 1
    with assms WPop show ?thesis by simp
  next
    case (2 x q)
    with WPop show ?thesis by (simp add: GetWork_pop_def)
  qed
qed (use assms in \<open>auto simp: GetWork_count_def GetWork_signal_def OnTaskStart_def OnTaskEnd_def log_call_def Let_def\<close>)

lemma can_execute_executes:
  assumes "k < length (ps_workers s)" "can_execute (ps_workers s ! k) (ps_sched s)" "TQ_invar (sch_queue (ps_sched s))"
  shows "executes grow k s"
  using assms
proof (induction "w_rank (ps_workers s ! k)" arbitrary: s rule: less_induct)
  case less
  note can = less.prems(2) and inv = less.prems(3)
  show ?case
  proof (cases "w_rank (ps_workers s ! k) = 0")
    case True
    with can obtain x where x: "ps_workers s ! k = WRun x" by (cases "ps_workers s ! k") auto
    show ?thesis
      unfolding executes_def
      by (intro exI [of _ "[TWorker k True]"]) (simp add: less.prems x worker_moves_def set_sched_def)
  next
    case False
    then have notrun: "(case ps_workers s ! k of WRun x \<Rightarrow> [x] | _ \<Rightarrow> []) = []"
      by (cases "ps_workers s ! k") auto
    from worker_progress [OF can inv False, of "pool_id (ps_pool s)" k "pool_ctx_cancelled (ps_pool s)"]
    obtain pc c where st: "worker_step (pool_id (ps_pool s)) k True (pool_ctx_cancelled (ps_pool s)) (ps_workers s ! k) (ps_sched s) = Some (pc, c)"
      and nx: "can_execute pc c" "TQ_invar (sch_queue c)" "w_rank pc < w_rank (ps_workers s ! k)" by blast
    let ?s1 = "worker_moves k (pc, c) s"
    have s1: "ps_workers ?s1 = (ps_workers s)[k := pc]" "ps_sched ?s1 = c" "ps_executed ?s1 = ps_executed s"
      by (simp_all add: worker_moves_def set_sched_def notrun)
    have "executes grow k ?s1"
      using nx less.prems(1) by (intro less.hyps) (simp_all add: s1)
    moreover have "pool_step grow (TWorker k True) s = Some ?s1" using st less.prems(1) by simp
    ultimately show ?thesis using s1(3) by (blast intro: executes_step)
  qed
qed

section \<open>The properties\<close>

definition ex_pool :: "(nat, unit, unit) GoroutineThreadPool" where
  "ex_pool = the (NewGoroutineThreadPoolWithConfig [] ''p'' 1 None)"

lemma ex_pool_fresh: "fresh_pool ex_pool"
proof -
  have "NewGoroutineThreadPoolWithConfig [] ''p'' 1 None = Some ex_pool"
    by (simp add: ex_pool_def NewGoroutineThreadPoolWithConfig_def new_pool_def NewFIFOTaskSchedulerWithConfig_def
        new_scheduler_def)
  then show ?thesis unfolding fresh_pool_def by blast
qed

lemma ex_pool_run:
  "run (pool_step id) ls (pool_init_sys ex_pool) = Some s \<Longrightarrow> pool_reachable id s"
  by (rule run_reach [OF reach_init]) (use ex_pool_fresh in blast)+

lemma ex_pool_runE:
  assumes "map_option f (run (pool_step id) ls (pool_init_sys ex_pool)) = Some y"
  obtains s where "pool_reachable id s" "f s = y"
  using assms ex_pool_run by auto

text \<open>A pool of one worker, which waits, with one task posted.\<close>

definition ex_post_labels :: "nat pool_label list" where
  "ex_post_labels = [TStart, TWorker 0 True, TPost 7 TraitsUserBlocking, TPoster 0 1, TPoster 0 1, TPoster 0 1]"

definition ex_posted :: "(nat, unit, unit) pool_sys" where
  "ex_posted = the (run (pool_step id) ex_post_labels (pool_init_sys ex_pool))"

lemma ex_posted_state:
  "ps_workers ex_posted = [WSelect]" "ps_posters ex_posted = [PDone]"
  "TQ_items (sch_queue (ps_sched ex_posted)) = [\<lparr>Task = 7, Traits = TraitsUserBlocking, ID = 1\<rparr>]"
  "ps_executed ex_posted = []" "ps_cleared ex_posted = False" "sch_signal (ps_sched ex_posted) = 1"
  by code_simp+

lemma ex_posted_reachable: "pool_reachable id ex_posted"
proof -
  have "run (pool_step id) ex_post_labels (pool_init_sys ex_pool) \<noteq> None" by code_simp
  then have "run (pool_step id) ex_post_labels (pool_init_sys ex_pool) = Some ex_posted"
    unfolding ex_posted_def by (metis option.exhaust_sel)
  then show ?thesis by (rule ex_pool_run)
qed



text \<open>
  The pool is work conserving. Whenever a worker waits while a task is queued, a token lies in
  the signal channel, or another worker is about to pop, or a poster is about to signal.
\<close>

theorem pool_work_conserving:
  assumes "pool_reachable grow s" "WSelect \<in> set (ps_workers s)" "TQ_items (sch_queue (ps_sched s)) \<noteq> []"
  shows "0 < sch_signal (ps_sched s) \<or> WPop \<in> set (ps_workers s) \<or>
         PCount \<in> set (ps_posters s) \<or> PSignal \<in> set (ps_posters s)"
proof -
  have inv: "pool_inv s" using pools.holds_reach [OF assms(1)] .
  from assms(2) have "0 < weight w_select (ps_workers s)" by (force simp: weight_pos_iff)
  moreover have "0 < qlen s" using assms(3) by (simp only: length_greater_0_conv not_False_eq_True)
  moreover have "tokens_ok s" using inv by (simp add: pool_inv_def)
  ultimately have "0 < sch_signal (ps_sched s) \<or> 0 < weight w_pop (ps_workers s) \<or> 0 < weight p_mid (ps_posters s)"
    unfolding tokens_ok_def by linarith
  then show ?thesis by (auto simp: weight_pos_iff weight_bounds)
qed

text \<open>
  C17: No task is lost or run twice. In every reachable state the accepted tasks are, as multisets,
  exactly the executed ones, the ones a worker holds, the queued ones and the ones a shutdown
  discarded; and nothing is discarded before a shutdown clears the queue.
\<close>

theorem pool_conserves_tasks:
  assumes "pool_reachable grow s"
  shows "mset (ps_accepted s) = mset (ps_executed s) + held w_hand (ps_workers s) +
           mset (TQ_items (sch_queue (ps_sched s))) + mset (ps_discarded s) \<and>
         (ps_discarded s = [] \<or> ps_cleared s)"
  using pools.holds_reach [OF assms] by (auto simp: pool_inv_defs)

theorem pool_conserves_tasks_witness:
  "mset (ps_accepted ex_posted) = {#\<lparr>Task = 7, Traits = TraitsUserBlocking, ID = 1\<rparr>#}"
  using pool_conserves_tasks [OF ex_posted_reachable] by (simp add: ex_posted_state)



text \<open>
  \<^verbatim>\<open>ShutdownGraceful\<close> can report success while an accepted task has not even started: a worker
  that has popped a task and decremented \<^verbatim>\<open>metricQueued\<close> but has not yet called \<^verbatim>\<open>OnTaskStart\<close>
  is counted by neither counter.
\<close>

theorem graceful_shutdown_returns_before_task:
  "\<exists>s :: (nat, unit, unit) pool_sys. pool_reachable id s \<and> ps_stoppers s = [SpCancel ReturnNil] \<and>
     ps_executed s = [] \<and> ps_workers s = [WStart \<lparr>Task = 7, Traits = TraitsUserBlocking, ID = 1\<rparr>]"
proof -
  let ?ls = "ex_post_labels @ [TWorker 0 True, TWorker 0 True, TWorker 0 True, TStopGraceful] @
    replicate 5 (TStopper 0 TickerFired)"
  have "map_option (\<lambda>s. (ps_stoppers s, ps_executed s, ps_workers s)) (run (pool_step id) ?ls (pool_init_sys ex_pool)) =
      Some ([SpCancel ReturnNil], [], [WStart \<lparr>Task = 7, Traits = TraitsUserBlocking, ID = 1\<rparr>])"
    by code_simp
  then show ?thesis by (rule ex_pool_runE) auto
qed

text \<open>
  A post that races with \<^verbatim>\<open>Stop\<close> can be dropped in silence: the poster reads the flag, the
  shutdown clears the queue and all workers return, and the push then lands in a queue nobody
  serves. The task is neither executed nor reported to the rejection handler.
\<close>

theorem post_racing_with_stop_is_stranded:
  "\<exists>s :: (nat, unit, unit) pool_sys. pool_reachable id s \<and> ps_stoppers s = [SpDone ReturnNil] \<and>
     ps_posters s = [PDone] \<and> ps_workers s = [WGone] \<and> ps_executed s = [] \<and>
     length (TQ_items (sch_queue (ps_sched s))) = 1 \<and>
     sch_log (ps_sched s) = [RecordQueueDepth ''TaskScheduler'' 0, RecordQueueDepth ''TaskScheduler'' 1]"
proof -
  let ?ls = "[TStart, TWorker 0 True, TPost 7 TraitsUserBlocking, TStop] @ replicate 6 (TStopper 0 TickerFired) @
    [TWorker 0 False, TStopper 0 TickerFired, TStopper 0 TickerFired, TPoster 0 1, TPoster 0 1, TPoster 0 1]"
  have "map_option (\<lambda>s. (ps_stoppers s, ps_posters s, ps_workers s, ps_executed s,
          length (TQ_items (sch_queue (ps_sched s))), sch_log (ps_sched s)))
        (run (pool_step id) ?ls (pool_init_sys ex_pool)) =
      Some ([SpDone ReturnNil], [PDone], [WGone], [], 1,
        [RecordQueueDepth ''TaskScheduler'' 0, RecordQueueDepth ''TaskScheduler'' 1])"
    by code_simp
  then obtain s :: "(nat, unit, unit) pool_sys" where "pool_reachable id s" "ps_stoppers s = [SpDone ReturnNil]" "ps_posters s = [PDone]"
    "ps_workers s = [WGone]" "ps_executed s = []" "length (TQ_items (sch_queue (ps_sched s))) = 1"
    "sch_log (ps_sched s) = [RecordQueueDepth ''TaskScheduler'' 0, RecordQueueDepth ''TaskScheduler'' 1]"
    by (rule ex_pool_runE) auto
  then show ?thesis by (intro exI [of _ s]) simp
qed

end
