(* ===== verification/Sequenced_Runner.thy ===== *)
theory Sequenced_Runner
  imports Fifo_Queue Task_Queue_Spec "HOL-Library.Sublist"
begin

text \<open>
  \<^verbatim>\<open>SequencedTaskRunner\<close> of \<^verbatim>\<open>core/sequenced_task_runner.go\<close>: the operations, split at their
  atomic operations and critical sections, and the system in which callers of
  \<^verbatim>\<open>PostTaskWithTraitsNamed\<close> and \<^verbatim>\<open>Shutdown\<close> and the \<^verbatim>\<open>runLoop\<close> closures that the pool executes
  interleave freely. The pool is the interface \<^verbatim>\<open>ThreadPool\<close>: it holds the posted closures and
  starts them in any order and with any overlap; it may be stopped at any time, and then drops what
  it holds and what is posted.
\<close>

section \<open>The runner\<close>

record ('t, 'v) SequencedTaskRunner =
  sr_queue :: "'t FIFOTaskQueue"
  sr_runningCount :: "32 word"
  sr_closed :: bool
  sr_shutdownChan_closed :: bool
  sr_shutdownOnce :: bool
  sr_name :: string
  sr_metadata :: "string \<rightharpoonup> 'v"

definition NewSequencedTaskRunner :: "'t memory \<Rightarrow> ('t, 'v) SequencedTaskRunner" where
  "NewSequencedTaskRunner mem =
     \<lparr>sr_queue = NewFIFOTaskQueue mem, sr_runningCount = 0, sr_closed = False, sr_shutdownChan_closed = False,
      sr_shutdownOnce = False, sr_name = [], sr_metadata = Map.empty\<rparr>"

definition sr_SetName :: "string \<Rightarrow> ('t, 'v) SequencedTaskRunner \<Rightarrow> ('t, 'v) SequencedTaskRunner" where
  "sr_SetName n r = r\<lparr>sr_name := n\<rparr>"

definition sr_SetMetadata :: "string \<Rightarrow> 'v \<Rightarrow> ('t, 'v) SequencedTaskRunner \<Rightarrow> ('t, 'v) SequencedTaskRunner" where
  "sr_SetMetadata k v r = r\<lparr>sr_metadata := (sr_metadata r)(k \<mapsto> v)\<rparr>"

definition sr_PendingTaskCount :: "('t, 'v) SequencedTaskRunner \<Rightarrow> nat" where
  "sr_PendingTaskCount r = FIFO_Len (sr_queue r)"

definition sr_RunningTaskCount :: "('t, 'v) SequencedTaskRunner \<Rightarrow> int" where
  "sr_RunningTaskCount r = sint (sr_runningCount r)"

definition sr_observabilityName :: "('t, 'v) SequencedTaskRunner \<Rightarrow> string" where
  "sr_observabilityName r = (if sr_name r = [] then ''sequenced'' else sr_name r)"

definition sr_Stats :: "('t, 'v) SequencedTaskRunner \<Rightarrow> RunnerStats" where
  "sr_Stats r = \<lparr>rs_Name = sr_observabilityName r, rs_Type = ''sequenced'', rs_Pending = sr_PendingTaskCount r,
     rs_Running = sr_RunningTaskCount r, rs_Rejected = 0, rs_Closed = sr_closed r, rs_BarrierPending = False\<rparr>"

subsection \<open>The atomic steps\<close>

text \<open>\<^verbatim>\<open>CompareAndSwapInt32(&r.runningCount, 0, 1)\<close> of \<^verbatim>\<open>ensureRunning\<close>: whether it swapped, and the runner.\<close>

definition sr_cas :: "('t, 'v) SequencedTaskRunner \<Rightarrow> bool \<times> ('t, 'v) SequencedTaskRunner" where
  "sr_cas r = (if sr_runningCount r = 0 then (True, r\<lparr>sr_runningCount := 1\<rparr>) else (False, r))"

definition sr_push ::
  "(nat \<Rightarrow> nat) \<Rightarrow> TaskID \<Rightarrow> 't \<Rightarrow> TaskTraits \<Rightarrow> ('t, 'v) SequencedTaskRunner \<Rightarrow> ('t, 'v) SequencedTaskRunner" where
  "sr_push grow i t tr r = r\<lparr>sr_queue := FIFO_Push grow i t tr (sr_queue r)\<rparr>"

definition sr_pop :: "('t, 'v) SequencedTaskRunner \<Rightarrow> 't TaskItem option \<times> ('t, 'v) SequencedTaskRunner" where
  "sr_pop r = (case fifo_pop_item (sr_queue r) of (x, q) \<Rightarrow> (x, r\<lparr>sr_queue := q\<rparr>))"

text \<open>The critical section that both \<^verbatim>\<open>runLoop\<close> and \<^verbatim>\<open>scheduleNextIfNeeded\<close> use: the next traits, if any.\<close>

definition sr_has_more :: "('t, 'v) SequencedTaskRunner \<Rightarrow> TaskTraits option" where
  "sr_has_more r =
     (if \<not> FIFO_IsEmpty (sr_queue r)
      then (case FIFO_PeekTraits (sr_queue r) of None \<Rightarrow> Some \<lparr>Priority = 0\<rparr> | Some tr \<Rightarrow> Some tr)
      else None)"

definition sr_store_idle :: "('t, 'v) SequencedTaskRunner \<Rightarrow> ('t, 'v) SequencedTaskRunner" where
  "sr_store_idle r = r\<lparr>sr_runningCount := 0\<rparr>"

text \<open>The three parts of the function given to \<^verbatim>\<open>shutdownOnce.Do\<close>.\<close>

definition sr_close :: "('t, 'v) SequencedTaskRunner \<Rightarrow> ('t, 'v) SequencedTaskRunner" where
  "sr_close r = r\<lparr>sr_closed := True\<rparr>"

definition sr_close_chan :: "('t, 'v) SequencedTaskRunner \<Rightarrow> ('t, 'v) SequencedTaskRunner" where
  "sr_close_chan r = r\<lparr>sr_shutdownChan_closed := True\<rparr>"

definition sr_clear :: "('t, 'v) SequencedTaskRunner \<Rightarrow> ('t, 'v) SequencedTaskRunner" where
  "sr_clear r = r\<lparr>sr_queue := NewFIFOTaskQueue (fq_mem (sr_queue r))\<rparr>"

lemmas sr_ops [model_defs] =
  sr_cas_def sr_push_def sr_pop_def sr_store_idle_def sr_close_def sr_close_chan_def sr_clear_def

section \<open>The goroutines\<close>

text \<open>
  A \<^verbatim>\<open>runLoop\<close> closure that a worker executes: at the sanity check, at the pop, before the task,
  inside it, at the check for more tasks, before each \<^verbatim>\<open>PostInternal\<close>, before the store of 0, at
  \<^verbatim>\<open>scheduleNextIfNeeded\<close>, at its \<^verbatim>\<open>ensureRunning\<close>, returned, or in the panic of the sanity check.
\<close>

datatype 't loop_at =
    LCheck | LPop | LTask "'t TaskItem" | LInside "'t TaskItem" | LMore | LPost TaskTraits
  | LStore | LDouble | LEnsure TaskTraits | LPostNew TaskTraits | LReturned | LPanicked

text \<open>A caller of \<^verbatim>\<open>PostTaskWithTraitsNamed\<close> past the check of \<^verbatim>\<open>closed\<close>.\<close>

datatype 't post_at = QPush 't TaskTraits | QEnsure TaskTraits | QPost TaskTraits | QReturned

datatype shut_at = HClose | HChan | HClear | HReturned

datatype 't seq_event = Begin "'t TaskItem" | End "'t TaskItem"

record ('t, 'v) seq_sys =
  ss_runner :: "('t, 'v) SequencedTaskRunner"
  ss_pool_open :: bool
  ss_pool :: "TaskTraits list"
  ss_loops :: "'t loop_at list"
  ss_posters :: "'t post_at list"
  ss_shutters :: "shut_at list"
  ss_accepted :: "'t TaskItem list"
  ss_started :: "'t TaskItem list"
  ss_trace :: "'t seq_event list"
  ss_cleared :: bool

definition seq_init :: "'t memory \<Rightarrow> ('t, 'v) seq_sys" where
  "seq_init mem = \<lparr>ss_runner = NewSequencedTaskRunner mem, ss_pool_open = True, ss_pool = [], ss_loops = [],
     ss_posters = [], ss_shutters = [], ss_accepted = [], ss_started = [], ss_trace = [], ss_cleared = False\<rparr>"

text \<open>\<^verbatim>\<open>threadPool.PostInternal(r.runLoop, traits)\<close>.\<close>

definition pool_post :: "TaskTraits \<Rightarrow> ('t, 'v) seq_sys \<Rightarrow> ('t, 'v) seq_sys" where
  "pool_post tr s = (if ss_pool_open s then s\<lparr>ss_pool := ss_pool s @ [tr]\<rparr> else s)"

fun loop_step :: "'t loop_at \<Rightarrow> ('t, 'v) seq_sys \<Rightarrow> ('t loop_at \<times> ('t, 'v) seq_sys) option" where
  "loop_step LCheck s = Some (if sr_runningCount (ss_runner s) \<noteq> 1 then LPanicked else LPop, s)"
| "loop_step LPop s =
     (case sr_pop (ss_runner s) of
        (None, r) \<Rightarrow> Some (LStore, s\<lparr>ss_runner := r\<rparr>)
      | (Some x, r) \<Rightarrow> Some (LTask x, s\<lparr>ss_runner := r, ss_started := ss_started s @ [x]\<rparr>))"
| "loop_step (LTask x) s = Some (LInside x, s\<lparr>ss_trace := ss_trace s @ [Begin x]\<rparr>)"
| "loop_step (LInside x) s = Some (LMore, s\<lparr>ss_trace := ss_trace s @ [End x]\<rparr>)"
| "loop_step LMore s =
     Some (case sr_has_more (ss_runner s) of Some tr \<Rightarrow> LPost tr | None \<Rightarrow> LStore, s)"
| "loop_step (LPost tr) s = Some (LReturned, pool_post tr s)"
| "loop_step LStore s = Some (LDouble, s\<lparr>ss_runner := sr_store_idle (ss_runner s)\<rparr>)"
| "loop_step LDouble s =
     Some (case sr_has_more (ss_runner s) of Some tr \<Rightarrow> LEnsure tr | None \<Rightarrow> LReturned, s)"
| "loop_step (LEnsure tr) s =
     (case sr_cas (ss_runner s) of (ok, r) \<Rightarrow> Some (if ok then LPostNew tr else LReturned, s\<lparr>ss_runner := r\<rparr>))"
| "loop_step (LPostNew tr) s = Some (LReturned, pool_post tr s)"
| "loop_step LReturned s = None"
| "loop_step LPanicked s = None"

fun post_step ::
  "(nat \<Rightarrow> nat) \<Rightarrow> TaskID \<Rightarrow> 't post_at \<Rightarrow> ('t, 'v) seq_sys \<Rightarrow> ('t post_at \<times> ('t, 'v) seq_sys) option" where
  "post_step grow i (QPush t tr) s =
     Some (QEnsure tr, s\<lparr>ss_runner := sr_push grow i t tr (ss_runner s),
        ss_accepted := ss_accepted s @ [\<lparr>Task = t, Traits = tr, ID = i\<rparr>]\<rparr>)"
| "post_step grow i (QEnsure tr) s =
     (case sr_cas (ss_runner s) of (ok, r) \<Rightarrow> Some (if ok then QPost tr else QReturned, s\<lparr>ss_runner := r\<rparr>))"
| "post_step grow i (QPost tr) s = Some (QReturned, pool_post tr s)"
| "post_step grow i QReturned s = None"

fun shut_step :: "shut_at \<Rightarrow> ('t, 'v) seq_sys \<Rightarrow> (shut_at \<times> ('t, 'v) seq_sys) option" where
  "shut_step HClose s = Some (HChan, s\<lparr>ss_runner := sr_close (ss_runner s)\<rparr>)"
| "shut_step HChan s = Some (HClear, s\<lparr>ss_runner := sr_close_chan (ss_runner s)\<rparr>)"
| "shut_step HClear s = Some (HReturned, s\<lparr>ss_runner := sr_clear (ss_runner s), ss_cleared := True\<rparr>)"
| "shut_step HReturned s = None"

text \<open>
  The labels. \<open>SPost\<close> is a call of \<^verbatim>\<open>PostTaskWithTraitsNamed\<close> with its check of \<^verbatim>\<open>closed\<close>;
  \<open>SShutdown\<close> a call of \<^verbatim>\<open>Shutdown\<close>, whose function runs for the first caller only; \<open>SRunLoop k\<close>
  a worker that starts the \<open>k\<close>-th closure the pool holds; \<open>SPoolStop\<close> the pool's \<^verbatim>\<open>Stop\<close>.
\<close>

datatype 't seq_label =
  SPost 't TaskTraits | SPoster nat TaskID | SRunLoop nat | SLoop nat | SShutdown | SShutter nat | SPoolStop

fun seq_step :: "(nat \<Rightarrow> nat) \<Rightarrow> 't seq_label \<Rightarrow> ('t, 'v) seq_sys \<Rightarrow> ('t, 'v) seq_sys option" where
  "seq_step grow (SPost t tr) s =
     Some (if sr_closed (ss_runner s) then s else s\<lparr>ss_posters := ss_posters s @ [QPush t tr]\<rparr>)"
| "seq_step grow (SPoster k i) s =
     (if k < length (ss_posters s)
      then map_option (\<lambda>(pc, s'). s'\<lparr>ss_posters := (ss_posters s)[k := pc]\<rparr>) (post_step grow i (ss_posters s ! k) s)
      else None)"
| "seq_step grow (SRunLoop k) s =
     (if k < length (ss_pool s)
      then Some (s\<lparr>ss_pool := take k (ss_pool s) @ drop (Suc k) (ss_pool s), ss_loops := ss_loops s @ [LCheck]\<rparr>)
      else None)"
| "seq_step grow (SLoop k) s =
     (if k < length (ss_loops s)
      then map_option (\<lambda>(pc, s'). s'\<lparr>ss_loops := (ss_loops s)[k := pc]\<rparr>) (loop_step (ss_loops s ! k) s)
      else None)"
| "seq_step grow SShutdown s =
     Some (if sr_shutdownOnce (ss_runner s) then s
           else s\<lparr>ss_runner := (ss_runner s)\<lparr>sr_shutdownOnce := True\<rparr>, ss_shutters := ss_shutters s @ [HClose]\<rparr>)"
| "seq_step grow (SShutter k) s =
     (if k < length (ss_shutters s)
      then map_option (\<lambda>(pc, s'). s'\<lparr>ss_shutters := (ss_shutters s)[k := pc]\<rparr>) (shut_step (ss_shutters s ! k) s)
      else None)"
| "seq_step grow SPoolStop s = Some (s\<lparr>ss_pool_open := False, ss_pool := []\<rparr>)"

abbreviation seq_reachable :: "(nat \<Rightarrow> nat) \<Rightarrow> ('t, 'v) seq_sys \<Rightarrow> bool" where
  "seq_reachable grow \<equiv> reach (\<lambda>s. \<exists>mem. s = seq_init mem) (lstep (seq_step grow))"

section \<open>The invariant\<close>

text \<open>
  The value 1 of \<^verbatim>\<open>runningCount\<close> is a token: it is owned by a closure the pool holds, by a
  \<^verbatim>\<open>runLoop\<close> up to its store of 0 or its post, or by a caller that won the compare-and-swap and
  has not yet posted. A helper is a goroutine that is still going to look whether it has to
  start a loop.
\<close>

fun l_tok :: "'t loop_at \<Rightarrow> nat" where
  "l_tok LDouble = 0" | "l_tok (LEnsure tr) = 0" | "l_tok LReturned = 0" | "l_tok LPanicked = 0" | "l_tok _ = 1"

fun q_tok :: "'t post_at \<Rightarrow> nat" where "q_tok (QPost tr) = 1" | "q_tok _ = 0"

fun l_help :: "'t loop_at \<Rightarrow> nat" where "l_help LDouble = 1" | "l_help (LEnsure tr) = 1" | "l_help _ = 0"

fun q_help :: "'t post_at \<Rightarrow> nat" where "q_help (QEnsure tr) = 1" | "q_help _ = 0"

fun l_rest :: "'t loop_at \<Rightarrow> 't seq_event list" where
  "l_rest (LTask x) = [Begin x, End x]" | "l_rest (LInside x) = [End x]" | "l_rest _ = []"

definition rests :: "'t loop_at list \<Rightarrow> 't seq_event list" where
  "rests ls = concat (map l_rest ls)"

definition brackets :: "'t TaskItem list \<Rightarrow> 't seq_event list" where
  "brackets xs = concat (map (\<lambda>x. [Begin x, End x]) xs)"

lemma brackets_simps [simp]:
  "brackets [] = []" "brackets (xs @ [x]) = brackets xs @ [Begin x, End x]"
  by (simp_all add: brackets_def)

definition tokens :: "('t, 'v) seq_sys \<Rightarrow> nat" where
  "tokens s = length (ss_pool s) + weight l_tok (ss_loops s) + weight q_tok (ss_posters s)"

definition helpers :: "('t, 'v) seq_sys \<Rightarrow> nat" where
  "helpers s = weight l_help (ss_loops s) + weight q_help (ss_posters s)"

abbreviation ss_contents :: "('t, 'v) seq_sys \<Rightarrow> 't TaskItem list" where
  "ss_contents s \<equiv> fifo_contents (sr_queue (ss_runner s))"

definition token_ok :: "('t, 'v) seq_sys \<Rightarrow> bool" where
  "token_ok s \<longleftrightarrow> sr_runningCount (ss_runner s) \<in> {0, 1} \<and> tokens s \<le> unat (sr_runningCount (ss_runner s)) \<and>
     (ss_pool_open s \<longrightarrow> tokens s = unat (sr_runningCount (ss_runner s))) \<and> LPanicked \<notin> set (ss_loops s)"

definition woken_ok :: "('t, 'v) seq_sys \<Rightarrow> bool" where
  "woken_ok s \<longleftrightarrow> (ss_contents s \<noteq> [] \<longrightarrow> sr_runningCount (ss_runner s) = 1 \<or> 0 < helpers s)"

definition order_ok :: "('t, 'v) seq_sys \<Rightarrow> bool" where
  "order_ok s \<longleftrightarrow> subseq (ss_started s @ ss_contents s) (ss_accepted s) \<and>
     (\<not> ss_cleared s \<longrightarrow> ss_accepted s = ss_started s @ ss_contents s)"

definition trace_ok :: "('t, 'v) seq_sys \<Rightarrow> bool" where
  "trace_ok s \<longleftrightarrow> ss_trace s @ rests (ss_loops s) = brackets (ss_started s)"

definition seq_inv :: "('t, 'v) seq_sys \<Rightarrow> bool" where
  "seq_inv s \<longleftrightarrow> fifo_invar (sr_queue (ss_runner s)) \<and> token_ok s \<and> woken_ok s \<and> order_ok s \<and> trace_ok s"

lemmas seq_inv_defs = seq_inv_def token_ok_def woken_ok_def order_ok_def trace_ok_def tokens_def helpers_def

lemma seq_inv_init: "seq_inv (seq_init mem)"
  by (simp add: seq_inv_defs seq_init_def NewSequencedTaskRunner_def rests_def)

lemma has_more_iff: "fifo_invar (sr_queue r) \<Longrightarrow> sr_has_more r = None \<longleftrightarrow> fifo_contents (sr_queue r) = []"
  using fifo.len_eq [of "sr_queue r"]
  by (auto simp: sr_has_more_def FIFO_IsEmpty_def split: option.splits simp del: fifo_contents_Nil)

lemma no_rest: "l_tok pc = 0 \<Longrightarrow> l_rest pc = []"
  by (cases pc) auto

text \<open>With at most one token, what only its owner can hold is what the owner holds.\<close>

lemma concat_of_owner:
  assumes "k < length ls" "0 < l_tok (ls ! k)" "weight l_tok ls \<le> 1" and none: "\<And>pc. l_tok pc = 0 \<Longrightarrow> f pc = []"
  shows "concat (map f (ls[k := pc])) = f pc"
proof -
  have "f (ls[k := pc] ! j) = []" if "j < length ls" "j \<noteq> k" for j
    using weight_ge2 [of j ls k l_tok] that assms by (auto intro: none)
  then have "map f (ls[k := pc]) = (replicate (length ls) [])[k := f pc]"
    using assms(1) by (intro nth_equalityI) (auto simp: nth_list_update)
  moreover have "concat ((replicate n [])[k := f pc]) = f pc" if "k < n" for n
    using that by (subst upd_conv_take_nth_drop) (auto simp: concat_eq_Nil_conv)
  ultimately show ?thesis using assms(1) by simp
qed

text \<open>So the loop that owns it is the only one inside a task.\<close>

lemma rest_of_owner:
  "k < length ls \<Longrightarrow> 0 < l_tok (ls ! k) \<Longrightarrow> weight l_tok ls \<le> 1 \<Longrightarrow> rests (ls[k := pc]) = l_rest pc"
  unfolding rests_def by (rule concat_of_owner) (auto intro: no_rest)

lemma rest_of_owner_now:
  assumes "k < length ls" "0 < l_tok (ls ! k)" "weight l_tok ls \<le> 1"
  shows "rests ls = l_rest (ls ! k)"
  using rest_of_owner [OF assms, of "ls ! k"] by simp

lemma rest_unchanged:
  "k < length ls \<Longrightarrow> l_rest pc = l_rest (ls ! k) \<Longrightarrow> rests (ls[k := pc]) = rests ls"
  by (metis list_update_id map_update rests_def)

lemma loop_weights:
  assumes "k < length ls" "ls ! k = pc"
  shows "weight l_tok (ls[k := q]) + l_tok pc = weight l_tok ls + l_tok q"
    "weight l_help (ls[k := q]) + l_help pc = weight l_help ls + l_help q"
  using assms by (auto simp: weight_update)

lemma loop_weight_le:
  assumes "k < length ls" "ls ! k = pc"
  shows "l_tok pc \<le> weight l_tok ls" "l_help pc \<le> weight l_help ls"
  using assms by (auto intro: weight_ge)

lemma post_weights:
  assumes "k < length ps" "ps ! k = pc"
  shows "weight q_tok (ps[k := q]) + q_tok pc = weight q_tok ps + q_tok q"
    "weight q_help (ps[k := q]) + q_help pc = weight q_help ps + q_help q"
  using assms by (auto simp: weight_update)

lemma post_weight_le:
  assumes "k < length ps" "ps ! k = pc"
  shows "q_tok pc \<le> weight q_tok ps" "q_help pc \<le> weight q_help ps"
  using assms by (auto intro: weight_ge)

subsection \<open>A loop moves\<close>

text \<open>A loop moves on and keeps what it owns.\<close>

lemma loops_without_panic:
  assumes "seq_inv s" "pc' \<noteq> LPanicked" shows "LPanicked \<notin> set ((ss_loops s)[k := pc'])"
  using assms set_update_subset_insert [of "ss_loops s" k pc'] by (auto simp: seq_inv_def token_ok_def)

lemma loop_move_inv:
  assumes inv: "seq_inv s" and k: "k < length (ss_loops s)" "ss_loops s ! k = pc"
    and pc': "l_rest pc = []" "l_rest pc' = []" "pc' \<noteq> LPanicked" "l_help pc' = l_help pc" "l_tok pc' = l_tok pc"
  shows "seq_inv (s\<lparr>ss_loops := (ss_loops s)[k := pc']\<rparr>)"
proof -
  have "rests ((ss_loops s)[k := pc']) = rests (ss_loops s)" using k pc' by (intro rest_unchanged) auto
  moreover have "weight l_tok ((ss_loops s)[k := pc']) = weight l_tok (ss_loops s)"
    "weight l_help ((ss_loops s)[k := pc']) = weight l_help (ss_loops s)"
    using loop_weights [OF k, of pc'] pc' by simp_all
  ultimately show ?thesis
    using inv loops_without_panic [OF inv pc'(3), of k] by (simp add: seq_inv_defs)
qed

text \<open>A loop returns and passes its token to the pool.\<close>

lemma loop_post_inv:
  assumes inv: "seq_inv s" and k: "k < length (ss_loops s)" "ss_loops s ! k = pc"
    and pc: "pc = LPost tr \<or> pc = LPostNew tr"
  shows "seq_inv ((pool_post tr s)\<lparr>ss_loops := (ss_loops s)[k := LReturned]\<rparr>)"
proof -
  let ?ls = "(ss_loops s)[k := LReturned]"
  have "rests ?ls = rests (ss_loops s)" using k pc by (intro rest_unchanged) auto
  moreover have "weight l_tok (ss_loops s) = Suc (weight l_tok ?ls)" "weight l_help ?ls = weight l_help (ss_loops s)"
    using loop_weights [OF k, of LReturned] pc by auto
  ultimately show ?thesis
    using inv loops_without_panic [OF inv, of LReturned k] by (simp add: seq_inv_defs pool_post_def)
qed

lemma owner_running:
  assumes "seq_inv s" "0 < tokens s" shows "sr_runningCount (ss_runner s) = 1" "tokens s = 1"
  using assms by (auto simp: seq_inv_def token_ok_def)

lemma loop_check_inv:
  assumes inv: "seq_inv s" and k: "k < length (ss_loops s)" "ss_loops s ! k = LCheck"
    and st: "loop_step LCheck s = Some (pc', s1)"
  shows "seq_inv (s1\<lparr>ss_loops := (ss_loops s)[k := pc']\<rparr>)"
proof -
  have "0 < tokens s" using loop_weight_le(1) [OF k] by (simp add: tokens_def)
  with st owner_running [OF inv] have "pc' = LPop" "s1 = s" by auto
  then show ?thesis using loop_move_inv [OF inv k] by simp
qed

lemma loop_pop_inv:
  assumes inv: "seq_inv s" and k: "k < length (ss_loops s)" "ss_loops s ! k = LPop"
    and st: "loop_step LPop s = Some (pc', s1)"
  shows "seq_inv (s1\<lparr>ss_loops := (ss_loops s)[k := pc']\<rparr>)"
proof (cases "ss_contents s")
  case Nil
  moreover from inv have "fifo_invar (sr_queue (ss_runner s))" by (simp add: seq_inv_def)
  ultimately have "fifo_pop_item (sr_queue (ss_runner s)) = (None, sr_queue (ss_runner s))"
    by (rule fifo.pop_empty [rotated])
  with st have "pc' = LStore" "s1 = s" by (auto simp: sr_pop_def)
  then show ?thesis using loop_move_inv [OF inv k] by simp
next
  case (Cons x xs)
  from inv have fi: "fifo_invar (sr_queue (ss_runner s))" by (simp add: seq_inv_def)
  from fifo.pop_Cons [OF fi Cons] obtain q where q: "fifo_pop_item (sr_queue (ss_runner s)) = (Some x, q)"
    "fifo_contents q = xs" "fifo_invar q" by blast
  with st have pc': "pc' = LTask x" and s1: "s1 = s\<lparr>ss_runner := (ss_runner s)\<lparr>sr_queue := q\<rparr>, ss_started := ss_started s @ [x]\<rparr>"
    by (auto simp: sr_pop_def)
  have "tokens s \<le> 1" using inv by (auto simp: seq_inv_def token_ok_def)
  then have own: "weight l_tok (ss_loops s) \<le> 1" by (simp add: tokens_def)
  have "rests ((ss_loops s)[k := LTask x]) = l_rest (LTask x)"
    using own k by (intro rest_of_owner) auto
  moreover have "rests (ss_loops s) = []"
    using rest_of_owner_now [of k "ss_loops s"] own k by simp
  moreover have "LPanicked \<notin> set ((ss_loops s)[k := LTask x])"
    using inv set_update_subset_insert [of "ss_loops s" k "LTask x"] by (auto simp: seq_inv_defs)
  moreover have "0 < tokens s" using loop_weight_le(1) [OF k] by (simp add: tokens_def)
  then have "sr_runningCount (ss_runner s) = 1" using inv by (auto simp: seq_inv_def token_ok_def)
  ultimately show ?thesis
    using inv q Cons loop_weights [OF k, of "LTask x"]
    by (auto simp: seq_inv_defs pc' s1 simp del: fifo_contents_Nil)
qed

lemma loop_task_inv:
  assumes inv: "seq_inv s" and k: "k < length (ss_loops s)" "ss_loops s ! k = pc"
    and pc: "pc = LTask x \<and> pc' = LInside x \<and> e = Begin x \<or> pc = LInside x \<and> pc' = LMore \<and> e = End x"
  shows "seq_inv (s\<lparr>ss_trace := ss_trace s @ [e], ss_loops := (ss_loops s)[k := pc']\<rparr>)"
proof -
  have "tokens s \<le> 1" using inv by (auto simp: seq_inv_def token_ok_def)
  then have own: "weight l_tok (ss_loops s) \<le> 1" by (simp add: tokens_def)
  have "rests ((ss_loops s)[k := pc']) = l_rest pc'"
    using own k pc by (intro rest_of_owner) auto
  moreover have "rests (ss_loops s) = l_rest pc"
    using rest_of_owner_now [of k "ss_loops s"] own k pc by auto
  moreover have "LPanicked \<notin> set ((ss_loops s)[k := pc'])"
    using inv pc set_update_subset_insert [of "ss_loops s" k pc'] by (auto simp: seq_inv_defs)
  ultimately show ?thesis
    using inv pc loop_weights [OF k, of pc'] by (auto simp: seq_inv_defs)
qed

lemma loop_more_inv:
  assumes inv: "seq_inv s" and k: "k < length (ss_loops s)" "ss_loops s ! k = LMore"
  shows "seq_inv (s\<lparr>ss_loops := (ss_loops s)[k := (case sr_has_more (ss_runner s) of Some tr \<Rightarrow> LPost tr | None \<Rightarrow> LStore)]\<rparr>)"
  by (rule loop_move_inv [OF inv k]) (auto split: option.splits)

lemma loop_store_inv:
  assumes inv: "seq_inv s" and k: "k < length (ss_loops s)" "ss_loops s ! k = LStore"
  shows "seq_inv (s\<lparr>ss_runner := sr_store_idle (ss_runner s), ss_loops := (ss_loops s)[k := LDouble]\<rparr>)"
proof -
  let ?ls = "(ss_loops s)[k := LDouble]"
  have "rests ?ls = rests (ss_loops s)" using k by (intro rest_unchanged) auto
  moreover have "weight l_tok (ss_loops s) = Suc (weight l_tok ?ls)" "weight l_help ?ls = Suc (weight l_help (ss_loops s))"
    using loop_weights [OF k, of LDouble] by simp_all
  moreover have "tokens s = 1"
    using owner_running(2) [OF inv] loop_weight_le(1) [OF k] by (simp add: tokens_def)
  ultimately show ?thesis
    using inv loops_without_panic [OF inv, of LDouble k] by (auto simp: seq_inv_defs sr_store_idle_def)
qed

lemma loop_double_inv:
  assumes inv: "seq_inv s" and k: "k < length (ss_loops s)" "ss_loops s ! k = LDouble"
  shows "seq_inv (s\<lparr>ss_loops := (ss_loops s)[k := (case sr_has_more (ss_runner s) of Some tr \<Rightarrow> LEnsure tr | None \<Rightarrow> LReturned)]\<rparr>)"
proof (cases "sr_has_more (ss_runner s)")
  case (Some tr)
  then show ?thesis using loop_move_inv [OF inv k, of "LEnsure tr"] by simp
next
  case None
  let ?ls = "(ss_loops s)[k := LReturned]"
  have "ss_contents s = []" using None inv has_more_iff [of "ss_runner s"] by (simp add: seq_inv_def)
  moreover have "rests ?ls = rests (ss_loops s)" using k by (intro rest_unchanged) auto
  moreover have "weight l_tok ?ls = weight l_tok (ss_loops s)" using loop_weights [OF k, of LReturned] by simp
  ultimately show ?thesis
    using inv None loops_without_panic [OF inv, of LReturned k] by (simp add: seq_inv_defs del: fifo_contents_Nil)
qed

lemma loop_ensure_inv:
  assumes inv: "seq_inv s" and k: "k < length (ss_loops s)" "ss_loops s ! k = LEnsure tr"
    and st: "loop_step (LEnsure tr) s = Some (pc', s1)"
  shows "seq_inv (s1\<lparr>ss_loops := (ss_loops s)[k := pc']\<rparr>)"
proof -
  let ?ls = "(ss_loops s)[k := pc']"
  have rest: "rests ?ls = rests (ss_loops s)"
    using k st by (intro rest_unchanged) (auto simp: sr_cas_def split: if_splits)
  show ?thesis
  proof (cases "sr_runningCount (ss_runner s) = 0")
    case True
    with st have eq: "pc' = LPostNew tr" "s1 = s\<lparr>ss_runner := (ss_runner s)\<lparr>sr_runningCount := 1\<rparr>\<rparr>"
      by (auto simp: sr_cas_def)
    with inv rest True loop_weights [OF k, of pc'] loops_without_panic [OF inv, of pc' k] show ?thesis
      by (auto simp: seq_inv_defs)
  next
    case False
    with st have eq: "pc' = LReturned" "s1 = s" by (auto simp: sr_cas_def)
    with inv rest False loop_weights [OF k, of pc'] loops_without_panic [OF inv, of pc' k] show ?thesis
      by (auto simp: seq_inv_defs)
  qed
qed

lemma loop_inv:
  assumes inv: "seq_inv s" and k: "k < length (ss_loops s)" and st: "loop_step (ss_loops s ! k) s = Some (pc', s1)"
  shows "seq_inv (s1\<lparr>ss_loops := (ss_loops s)[k := pc']\<rparr>)"
proof (cases "ss_loops s ! k")
  case LCheck
  with st loop_check_inv [OF inv k LCheck] show ?thesis by metis
next
  case LPop with st loop_pop_inv [OF inv k] show ?thesis by simp
next
  case (LTask x) with st loop_task_inv [OF inv k] show ?thesis by auto
next
  case (LInside x) with st loop_task_inv [OF inv k] show ?thesis by auto
next
  case LMore with st loop_more_inv [OF inv k] show ?thesis by auto
next
  case (LPost tr) with st loop_post_inv [OF inv k] show ?thesis by auto
next
  case LStore with st loop_store_inv [OF inv k] show ?thesis by auto
next
  case LDouble with st loop_double_inv [OF inv k] show ?thesis by auto
next
  case (LEnsure tr) with st loop_ensure_inv [OF inv k] show ?thesis by simp
next
  case (LPostNew tr) with st loop_post_inv [OF inv k] show ?thesis by auto
qed (use st in simp_all)

subsection \<open>The other goroutines move\<close>

lemma seq_push_inv:
  assumes inv: "seq_inv s" and k: "k < length (ss_posters s)" "ss_posters s ! k = QPush t tr"
  shows "seq_inv (s\<lparr>ss_runner := sr_push grow i t tr (ss_runner s),
      ss_accepted := ss_accepted s @ [\<lparr>Task = t, Traits = tr, ID = i\<rparr>], ss_posters := (ss_posters s)[k := QEnsure tr]\<rparr>)"
proof -
  from inv have "fifo_invar (sr_queue (ss_runner s))" by (simp add: seq_inv_def)
  note push = fifo_push [OF this, of grow i t tr]
  have "weight q_tok ((ss_posters s)[k := QEnsure tr]) = weight q_tok (ss_posters s)"
    "weight q_help ((ss_posters s)[k := QEnsure tr]) = Suc (weight q_help (ss_posters s))"
    using post_weights [OF k, of "QEnsure tr"] by simp_all
  with inv push show ?thesis
    by (auto simp: seq_inv_defs sr_push_def fifo_insert_def list_emb_append_mono simp flip: append_assoc)
qed

lemma seq_ensure_inv:
  assumes inv: "seq_inv s" and k: "k < length (ss_posters s)" "ss_posters s ! k = QEnsure tr"
    and st: "post_step grow i (QEnsure tr) s = Some (pc', s1)"
  shows "seq_inv (s1\<lparr>ss_posters := (ss_posters s)[k := pc']\<rparr>)"
proof (cases "sr_runningCount (ss_runner s) = 0")
  case True
  with st have "pc' = QPost tr" "s1 = s\<lparr>ss_runner := (ss_runner s)\<lparr>sr_runningCount := 1\<rparr>\<rparr>"
    by (auto simp: sr_cas_def)
  with inv True post_weights [OF k, of pc'] show ?thesis by (auto simp: seq_inv_defs)
next
  case False
  with st have "pc' = QReturned" "s1 = s" by (auto simp: sr_cas_def)
  with inv False post_weights [OF k, of pc'] show ?thesis by (auto simp: seq_inv_defs)
qed

lemma seq_post_inv:
  assumes inv: "seq_inv s" and k: "k < length (ss_posters s)" "ss_posters s ! k = QPost tr"
  shows "seq_inv ((pool_post tr s)\<lparr>ss_posters := (ss_posters s)[k := QReturned]\<rparr>)"
proof -
  have "weight q_tok (ss_posters s) = Suc (weight q_tok ((ss_posters s)[k := QReturned]))"
    "weight q_help ((ss_posters s)[k := QReturned]) = weight q_help (ss_posters s)"
    using post_weights [OF k, of QReturned] by simp_all
  with inv show ?thesis by (simp add: seq_inv_defs pool_post_def)
qed

lemma seq_poster_inv:
  assumes inv: "seq_inv s" and k: "k < length (ss_posters s)"
    and st: "post_step grow i (ss_posters s ! k) s = Some (pc', s1)"
  shows "seq_inv (s1\<lparr>ss_posters := (ss_posters s)[k := pc']\<rparr>)"
proof (cases "ss_posters s ! k")
  case (QPush t tr) with st seq_push_inv [OF inv k] show ?thesis by auto
next
  case (QEnsure tr) with st seq_ensure_inv [OF inv k QEnsure] show ?thesis by metis
next
  case (QPost tr) with st seq_post_inv [OF inv k] show ?thesis by auto
qed (use st in simp)

lemma shut_inv:
  assumes inv: "seq_inv s" and st: "shut_step pc s = Some (pc', s1)"
  shows "seq_inv (s1\<lparr>ss_shutters := x\<rparr>)"
proof (cases pc)
  case HClear
  with st have s1: "s1 = s\<lparr>ss_runner := sr_clear (ss_runner s), ss_cleared := True\<rparr>" by simp
  have "subseq (ss_started s) (ss_accepted s)"
    using inv by (auto simp: seq_inv_defs intro: subseq_order.trans [of _ "ss_started s @ ss_contents s"])
  with inv show ?thesis by (auto simp: seq_inv_defs s1 sr_clear_def)
next
  case HClose
  with st have "s1 = s\<lparr>ss_runner := sr_close (ss_runner s)\<rparr>" by simp
  with inv show ?thesis by (simp add: seq_inv_defs sr_close_def)
next
  case HChan
  with st have "s1 = s\<lparr>ss_runner := sr_close_chan (ss_runner s)\<rparr>" by simp
  with inv show ?thesis by (simp add: seq_inv_defs sr_close_chan_def)
qed (use st in simp)

lemma run_loop_inv:
  assumes inv: "seq_inv s" and k: "k < length (ss_pool s)"
  shows "seq_inv (s\<lparr>ss_pool := take k (ss_pool s) @ drop (Suc k) (ss_pool s), ss_loops := ss_loops s @ [LCheck]\<rparr>)"
proof -
  have "length (take k (ss_pool s) @ drop (Suc k) (ss_pool s)) + 1 = length (ss_pool s)" using k by simp
  with inv show ?thesis by (auto simp: seq_inv_defs rests_def)
qed

lemma pool_stop_inv: "seq_inv s \<Longrightarrow> seq_inv (s\<lparr>ss_pool_open := False, ss_pool := []\<rparr>)"
  by (simp add: seq_inv_defs)

lemma seq_step_inv:
  assumes inv: "seq_inv s" and st: "seq_step grow l s = Some s'"
  shows "seq_inv s'"
proof (cases l)
  case (SPost t tr)
  have "seq_inv (s\<lparr>ss_posters := ss_posters s @ [QPush t tr]\<rparr>)" using inv by (simp add: seq_inv_defs)
  with SPost st inv show ?thesis by (simp split: if_splits)
next
  case (SPoster k i)
  with st seq_poster_inv [OF inv, of k grow i] show ?thesis by (auto split: if_splits)
next
  case (SRunLoop k)
  with st run_loop_inv [OF inv, of k] show ?thesis by (auto split: if_splits)
next
  case (SLoop k)
  with st loop_inv [OF inv, of k] show ?thesis by (auto split: if_splits)
next
  case SShutdown
  have "seq_inv (s\<lparr>ss_runner := (ss_runner s)\<lparr>sr_shutdownOnce := True\<rparr>, ss_shutters := ss_shutters s @ [HClose]\<rparr>)"
    using inv by (simp add: seq_inv_defs)
  with SShutdown st inv show ?thesis by (simp split: if_splits)
next
  case (SShutter k)
  with st shut_inv [OF inv] show ?thesis by (auto split: if_splits)
next
  case SPoolStop
  with st pool_stop_inv [OF inv] show ?thesis by simp
qed

interpretation seqs: inv_system "\<lambda>s. \<exists>mem. s = seq_init mem" "lstep (seq_step grow)" seq_inv for grow
  by unfold_locales (auto simp: seq_inv_init lstep_def intro: seq_step_inv)

section \<open>Progress\<close>

text \<open>
  \<open>starts\<close>: steps of goroutines that exist already and of the pool's workers alone (no new call
  by anybody) lead to the start of one more task.
\<close>

definition internal :: "'t seq_label \<Rightarrow> bool" where
  "internal l \<longleftrightarrow> (\<exists>k. l = SLoop k \<or> l = SRunLoop k \<or> (\<exists>i. l = SPoster k i))"

definition starts :: "(nat \<Rightarrow> nat) \<Rightarrow> ('t, 'v) seq_sys \<Rightarrow> bool" where
  "starts grow s \<longleftrightarrow> (\<exists>ls s'. (\<forall>l \<in> set ls. internal l) \<and> run (seq_step grow) ls s = Some s' \<and>
     length (ss_started s') = Suc (length (ss_started s)))"

definition live :: "('t, 'v) seq_sys \<Rightarrow> bool" where
  "live s \<longleftrightarrow> seq_inv s \<and> ss_pool_open s \<and> ss_contents s \<noteq> []"

lemma live_open [simp]: "live s \<Longrightarrow> ss_pool_open s"
  by (simp add: live_def)

lemma starts_step:
  assumes "live s" "internal l"
    and "\<exists>s1. seq_step grow l s = Some s1 \<and> ss_started s1 = ss_started s \<and> ss_pool_open s1 \<and>
           ss_contents s1 = ss_contents s \<and> (live s1 \<longrightarrow> starts grow s1)"
  shows "starts grow s"
proof -
  from assms(3) obtain s1 where s1: "seq_step grow l s = Some s1" "ss_started s1 = ss_started s" "ss_pool_open s1"
    "ss_contents s1 = ss_contents s" "live s1 \<longrightarrow> starts grow s1" by blast
  with assms(1) have "starts grow s1" using seq_step_inv [of s grow l s1] by (simp add: live_def)
  then obtain ls s' where "\<forall>l \<in> set ls. internal l" "run (seq_step grow) ls s1 = Some s'"
    "length (ss_started s') = Suc (length (ss_started s1))" by (auto simp: starts_def)
  with assms(2) s1 show ?thesis
    unfolding starts_def by (intro exI [of _ "l # ls"] exI [of _ s']) (simp del: seq_step.simps)
qed

lemma internal_simps [simp]: "internal (SLoop k)" "internal (SRunLoop k)" "internal (SPoster k i)"
  by (auto simp: internal_def)

lemma starts_pop:
  assumes "live s" "k < length (ss_loops s)" "ss_loops s ! k = LPop"
  shows "starts grow s"
proof -
  from assms(1) have fi: "fifo_invar (sr_queue (ss_runner s))" by (simp add: live_def seq_inv_def)
  obtain x xs where "ss_contents s = x # xs" using assms(1) by (cases "ss_contents s") (auto simp: live_def)
  from fifo.pop_Cons [OF fi this] obtain q where "fifo_pop_item (sr_queue (ss_runner s)) = (Some x, q)" by blast
  with assms(2,3) show ?thesis
    unfolding starts_def by (intro exI [of _ "[SLoop k]"]) (simp add: sr_pop_def)
qed

lemma starts_check:
  assumes "live s" "k < length (ss_loops s)" "ss_loops s ! k = LCheck"
  shows "starts grow s"
proof -
  have "sr_runningCount (ss_runner s) = 1"
    using assms owner_running(1) [of s] loop_weight_le(1) [OF assms(2,3)] by (simp add: live_def tokens_def)
  with assms show ?thesis
    by (intro starts_step [of s "SLoop k" grow]) (auto intro: starts_pop [of _ k])
qed

lemma starts_pool:
  assumes "live s" "ss_pool s \<noteq> []"
  shows "starts grow s"
  using assms
  by (intro starts_step [of s "SRunLoop 0" grow])
    (auto simp: nth_append intro: starts_check [of _ "length (ss_loops s)"])

lemma starts_loop_post:
  assumes "live s" "k < length (ss_loops s)" "ss_loops s ! k = LPost tr \<or> ss_loops s ! k = LPostNew tr"
  shows "starts grow s"
  using assms
  by (intro starts_step [of s "SLoop k" grow]) (auto simp: pool_post_def intro!: starts_pool)

lemma has_more_live: "live s \<Longrightarrow> \<exists>tr. sr_has_more (ss_runner s) = Some tr"
  using has_more_iff [of "ss_runner s"] by (auto simp: live_def seq_inv_def)

lemma starts_more:
  assumes "live s" "k < length (ss_loops s)" "ss_loops s ! k = LMore"
  shows "starts grow s"
  using assms has_more_live [OF assms(1)]
  by (intro starts_step [of s "SLoop k" grow]) (auto intro: starts_loop_post [of _ k])

lemma starts_inside:
  assumes "live s" "k < length (ss_loops s)" "ss_loops s ! k = LInside x"
  shows "starts grow s"
  using assms by (intro starts_step [of s "SLoop k" grow]) (auto intro: starts_more [of _ k])

lemma starts_task:
  assumes "live s" "k < length (ss_loops s)" "ss_loops s ! k = LTask x"
  shows "starts grow s"
  using assms by (intro starts_step [of s "SLoop k" grow]) (auto intro: starts_inside [of _ k])

lemma starts_poster_post:
  assumes "live s" "k < length (ss_posters s)" "ss_posters s ! k = QPost tr"
  shows "starts grow s"
  using assms
  by (intro starts_step [of s "SPoster k 0" grow]) (auto simp: pool_post_def intro!: starts_pool)

lemma starts_ensure:
  assumes "live s" "k < length (ss_loops s)" "ss_loops s ! k = LEnsure tr" "sr_runningCount (ss_runner s) = 0"
  shows "starts grow s"
  using assms
  by (intro starts_step [of s "SLoop k" grow]) (auto simp: sr_cas_def intro: starts_loop_post [of _ k])

lemma starts_double:
  assumes "live s" "k < length (ss_loops s)" "ss_loops s ! k = LDouble" "sr_runningCount (ss_runner s) = 0"
  shows "starts grow s"
  using assms has_more_live [OF assms(1)]
  by (intro starts_step [of s "SLoop k" grow]) (auto intro: starts_ensure [of _ k])

lemma starts_store:
  assumes "live s" "k < length (ss_loops s)" "ss_loops s ! k = LStore"
  shows "starts grow s"
  using assms
  by (intro starts_step [of s "SLoop k" grow]) (auto simp: sr_store_idle_def intro: starts_double [of _ k])

lemma starts_poster_ensure:
  assumes "live s" "k < length (ss_posters s)" "ss_posters s ! k = QEnsure tr" "sr_runningCount (ss_runner s) = 0"
  shows "starts grow s"
  using assms
  by (intro starts_step [of s "SPoster k 0" grow]) (auto simp: sr_cas_def intro: starts_poster_post [of _ k])

lemma starts_owner_loop:
  assumes "live s" "k < length (ss_loops s)" "0 < l_tok (ss_loops s ! k)"
  shows "starts grow s"
  using assms starts_check [OF assms(1,2)] starts_pop [OF assms(1,2)] starts_task [OF assms(1,2)]
    starts_inside [OF assms(1,2)] starts_more [OF assms(1,2)] starts_loop_post [OF assms(1,2)]
    starts_store [OF assms(1,2)]
  by (cases "ss_loops s ! k") auto

lemma starts_helper_loop:
  assumes "live s" "k < length (ss_loops s)" "0 < l_help (ss_loops s ! k)" "sr_runningCount (ss_runner s) = 0"
  shows "starts grow s"
  using assms starts_double [OF assms(1,2)] starts_ensure [OF assms(1,2)]
  by (cases "ss_loops s ! k") auto

lemma starts_poster:
  assumes "live s" "k < length (ss_posters s)"
    "0 < q_tok (ss_posters s ! k) \<or> 0 < q_help (ss_posters s ! k) \<and> sr_runningCount (ss_runner s) = 0"
  shows "starts grow s"
  using assms starts_poster_post [OF assms(1,2)] starts_poster_ensure [OF assms(1,2)]
  by (cases "ss_posters s ! k") auto

lemma weight_pos_nth: "0 < weight w ps \<Longrightarrow> \<exists>k < length ps. 0 < w (ps ! k)"
  by (auto simp: weight_pos_iff in_set_conv_nth)

lemma live_starts:
  assumes "live s"
  shows "starts grow s"
proof (cases "sr_runningCount (ss_runner s) = 0")
  case True
  with assms have "0 < helpers s" by (simp add: live_def seq_inv_def woken_ok_def del: fifo_contents_Nil)
  then have "0 < weight l_help (ss_loops s) \<or> 0 < weight q_help (ss_posters s)" by (simp add: helpers_def)
  then show ?thesis
    using starts_helper_loop [OF assms] starts_poster [OF assms] True by (metis weight_pos_nth)
next
  case False
  have "token_ok s" using assms by (simp add: live_def seq_inv_def)
  with False live_open [OF assms] have "tokens s = 1" by (auto simp: token_ok_def)
  then have "ss_pool s \<noteq> [] \<or> 0 < weight l_tok (ss_loops s) \<or> 0 < weight q_tok (ss_posters s)"
    by (auto simp: tokens_def)
  then show ?thesis
    using starts_pool [OF assms] starts_owner_loop [OF assms] starts_poster [OF assms] by (metis weight_pos_nth)
qed

section \<open>The properties\<close>

lemma seq_owner_unique:
  assumes "seq_inv s" "j < length (ss_loops s)" "k < length (ss_loops s)" "j \<noteq> k" "0 < l_tok (ss_loops s ! j)"
  shows "l_tok (ss_loops s ! k) = 0"
proof -
  have "tokens s \<le> 1" using assms(1) by (auto simp: seq_inv_def token_ok_def)
  then have "weight l_tok (ss_loops s) \<le> 1" by (simp add: tokens_def)
  with weight_ge2 [of j "ss_loops s" k l_tok] assms(2-5) show ?thesis by linarith
qed

lemma l_rest_cases:
  assumes "seq_inv s"
  obtains "rests (ss_loops s) = []"
  | x where "rests (ss_loops s) = [Begin x, End x]"
  | x where "rests (ss_loops s) = [End x]"
proof (cases "weight l_tok (ss_loops s) = 0")
  case True
  then have "rests (ss_loops s) = []" by (auto simp: rests_def weight_zero_iff no_rest)
  then show thesis by (rule that(1))
next
  case False
  then obtain k where k: "k < length (ss_loops s)" "0 < l_tok (ss_loops s ! k)"
    using weight_pos_nth [of l_tok "ss_loops s"] by auto
  have "tokens s \<le> 1" using assms by (auto simp: seq_inv_def token_ok_def)
  then have "weight l_tok (ss_loops s) \<le> 1" by (simp add: tokens_def)
  from rest_of_owner_now [OF k this] show thesis
    by (cases "ss_loops s ! k") (auto intro: that)
qed

lemma trace_shape:
  assumes "seq_inv s"
  obtains fin cur where "ss_trace s = brackets fin @ map Begin cur" "length cur \<le> 1"
    "prefix (fin @ cur) (ss_started s)"
proof -
  have tr: "ss_trace s @ rests (ss_loops s) = brackets (ss_started s)"
    using assms by (simp add: seq_inv_def trace_ok_def)
  show thesis
  proof (cases "rests (ss_loops s) = []")
    case True
    with tr show thesis by (intro that [of "ss_started s" "[]"]) auto
  next
    case False
    with tr have "ss_started s \<noteq> []" by auto
    then obtain xs y where st: "ss_started s = xs @ [y]" by (metis rev_exhaust)
    from assms show thesis
    proof (cases rule: l_rest_cases)
      case 1
      with False show thesis by simp
    next
      case (2 x)
      with tr st have "ss_trace s = brackets xs" by simp
      with st show thesis by (intro that [of xs "[]"]) auto
    next
      case (3 x)
      with tr st have "ss_trace s @ [End x] = (brackets xs @ [Begin y]) @ [End y]" by simp
      then have "ss_trace s = brackets xs @ [Begin y]" by blast
      with st show thesis by (intro that [of xs "[y]"]) auto
    qed
  qed
qed

lemma length_brackets [simp]: "length (brackets xs) = 2 * length xs"
  by (induction xs) (simp_all add: brackets_def)

lemma brackets_Cons [simp]: "brackets (x # xs) = Begin x # End x # brackets xs"
  by (simp add: brackets_def)

lemma brackets_append [simp]: "brackets (xs @ ys) = brackets xs @ brackets ys"
  by (simp add: brackets_def)

text \<open>An example: two posts, the second while the first task runs.\<close>

definition ex_seq_labels :: "nat seq_label list" where
  "ex_seq_labels = [SPost 10 DefaultTaskTraits, SPoster 0 1, SPoster 0 1, SPoster 0 1, SRunLoop 0, SLoop 0, SLoop 0,
     SLoop 0, SPost 20 TraitsBestEffort, SPoster 1 2, SPoster 1 2]"

definition ex_seq :: "(nat, unit) seq_sys" where
  "ex_seq = the (run (seq_step id) ex_seq_labels (seq_init []))"

lemma ex_seq_state:
  "ss_loops ex_seq = [LInside \<lparr>Task = 10, Traits = DefaultTaskTraits, ID = 1\<rparr>]"
  "ss_contents ex_seq = [\<lparr>Task = 20, Traits = TraitsBestEffort, ID = 2\<rparr>]"
  "ss_accepted ex_seq = [\<lparr>Task = 10, Traits = DefaultTaskTraits, ID = 1\<rparr>, \<lparr>Task = 20, Traits = TraitsBestEffort, ID = 2\<rparr>]"
  "ss_started ex_seq = [\<lparr>Task = 10, Traits = DefaultTaskTraits, ID = 1\<rparr>]"
  "ss_trace ex_seq = [Begin \<lparr>Task = 10, Traits = DefaultTaskTraits, ID = 1\<rparr>]"
  "ss_pool_open ex_seq" "\<not> ss_cleared ex_seq"
  by code_simp+

lemma ex_seq_reachable: "seq_reachable id ex_seq"
proof -
  have "run (seq_step id) ex_seq_labels (seq_init [] :: (nat, unit) seq_sys) \<noteq> None" by code_simp
  then have "run (seq_step id) ex_seq_labels (seq_init []) = Some ex_seq"
    unfolding ex_seq_def by (metis option.exhaust_sel)
  then show ?thesis by (rule run_reach [rotated]) (auto intro: reach_init)
qed

text \<open>
  C1: A sequenced runner never runs two tasks at a time. In every reachable state at most one of
  its run loops holds a task, \<^verbatim>\<open>runningCount\<close> is 0 or 1 and is 1 whenever a loop holds a task, and
  the panic of the sanity check in \<^verbatim>\<open>runLoop\<close> never happens.
\<close>

theorem sequenced_mutual_exclusion:
  assumes "seq_reachable grow s"
  shows "sr_runningCount (ss_runner s) \<in> {0, 1} \<and> LPanicked \<notin> set (ss_loops s) \<and>
         (\<forall>j < length (ss_loops s). \<forall>k < length (ss_loops s).
            ss_loops s ! j \<in> range LTask \<union> range LInside \<longrightarrow> ss_loops s ! k \<in> range LTask \<union> range LInside \<longrightarrow>
            j = k \<and> sr_runningCount (ss_runner s) = 1)"
proof -
  have inv: "seq_inv s" using seqs.holds_reach [OF assms] .
  have "j = k \<and> sr_runningCount (ss_runner s) = 1"
    if "j < length (ss_loops s)" "k < length (ss_loops s)"
      "ss_loops s ! j \<in> range LTask \<union> range LInside" "ss_loops s ! k \<in> range LTask \<union> range LInside" for j k
  proof -
    have tok: "0 < l_tok (ss_loops s ! j)" "0 < l_tok (ss_loops s ! k)" using that(3,4) by auto
    then have "j = k" using seq_owner_unique [OF inv that(1,2)] by auto
    moreover have "0 < tokens s" using tok weight_ge [OF that(1), of l_tok] by (simp add: tokens_def)
    ultimately show ?thesis using owner_running [OF inv] by simp
  qed
  with inv show ?thesis by (auto simp: seq_inv_def token_ok_def)
qed

theorem sequenced_mutual_exclusion_witness:
  "ss_loops ex_seq ! 0 \<in> range LTask \<union> range LInside \<and> sr_runningCount (ss_runner ex_seq) = 1"
  using sequenced_mutual_exclusion [OF ex_seq_reachable] by (force simp: ex_seq_state)

text \<open>
  C6: Tasks of a sequenced runner run one after the other in the order in which they were accepted.
  What has happened is always a sequence of finished tasks, each begun and ended before the next
  begins, with at most one more begun; it follows the order of acceptance, and unless the runner
  was shut down it skips nothing.
\<close>

theorem sequenced_fifo_execution:
  assumes "seq_reachable grow s"
  shows "\<exists>fin cur. ss_trace s = brackets fin @ map Begin cur \<and> length cur \<le> 1 \<and>
           subseq (fin @ cur) (ss_accepted s) \<and> (\<not> ss_cleared s \<longrightarrow> prefix (fin @ cur) (ss_accepted s))"
proof -
  have inv: "seq_inv s" using seqs.holds_reach [OF assms] .
  then obtain fin cur where fc: "ss_trace s = brackets fin @ map Begin cur" "length cur \<le> 1"
    "prefix (fin @ cur) (ss_started s)" by (rule trace_shape)
  have order: "subseq (ss_started s @ ss_contents s) (ss_accepted s)"
    "\<not> ss_cleared s \<Longrightarrow> ss_accepted s = ss_started s @ ss_contents s"
    using inv by (simp_all add: seq_inv_def order_ok_def)
  have "subseq (fin @ cur) (ss_accepted s)"
    using fc(3) order(1) by (meson prefix_imp_subseq prefix_order.trans prefixI subseq_order.trans)
  moreover have "prefix (fin @ cur) (ss_accepted s)" if "\<not> ss_cleared s"
    using fc(3) order(2) [OF that] by (metis prefix_prefix)
  ultimately show ?thesis using fc(1,2) by blast
qed

theorem sequenced_fifo_execution_witness:
  "\<exists>fin cur. [Begin \<lparr>Task = 10, Traits = DefaultTaskTraits, ID = 1\<rparr>] = brackets fin @ map Begin cur \<and> length cur \<le> 1 \<and>
     prefix (fin @ cur) (ss_accepted ex_seq)"
  using sequenced_fifo_execution [OF ex_seq_reachable] by (auto simp: ex_seq_state)

text \<open>
  When a barrier runs, everything before it is finished (the guarantee that \<^verbatim>\<open>WaitIdle\<close> and
  \<^verbatim>\<open>FlushAsync\<close> give, whose barrier is an ordinary task). If the runner was not shut down and more
  has happened than the complete runs of the tasks accepted before the barrier \<open>b\<close>, then what
  happened first is exactly those runs, and the next event is the beginning of \<open>b\<close>.
\<close>

theorem sequenced_barrier:
  assumes "seq_reachable grow s" "\<not> ss_cleared s" "ss_accepted s = pre @ b # post"
    and "2 * length pre < length (ss_trace s)"
  shows "take (2 * length pre + 1) (ss_trace s) = brackets pre @ [Begin b]"
proof -
  have inv: "seq_inv s" using seqs.holds_reach [OF assms(1)] .
  then obtain fin cur where fc: "ss_trace s = brackets fin @ map Begin cur" "length cur \<le> 1"
    "prefix (fin @ cur) (ss_started s)" by (rule trace_shape)
  moreover have "ss_accepted s = ss_started s @ ss_contents s"
    using inv assms(2) by (simp add: seq_inv_def order_ok_def)
  ultimately obtain zs where acc: "(fin @ cur) @ zs = pre @ b # post"
    using assms(3) by (auto simp: prefix_def)
  have "length pre < length (fin @ cur)" using assms(4) fc(1,2) by simp
  then obtain ys where ys: "fin @ cur = pre @ b # ys"
    using acc by (metis (no_types) Cons_eq_appendI append_eq_append_conv_if append_eq_conv_conj append_take_drop_id drop_eq_Nil
        hd_append2 less_le_not_le list.collapse list.sel(1) not_less)
  show ?thesis
  proof (cases "length pre < length fin")
    case True
    with ys obtain us where "fin = pre @ b # us"
      by (auto simp: append_eq_append_conv2 append_eq_Cons_conv)
    then show ?thesis using fc(1) by simp
  next
    case False
    with ys fc(2) have "fin = pre" "cur = [b]"
      by (auto simp: append_eq_append_conv2 Cons_eq_append_conv append_eq_Cons_conv)
    then show ?thesis using fc(1) by simp
  qed
qed

text \<open>
  C2: An accepted task is never stuck in the queue of a sequenced runner. From every reachable
  state with a queued task and a pool that still accepts work, the goroutines that already exist
  and the pool's workers, without any further call, can start the next task: no interleaving of the
  posters with a loop that goes idle loses the wakeup.
\<close>

theorem sequenced_no_lost_task:
  assumes "seq_reachable grow s" "ss_pool_open s" "ss_contents s \<noteq> []"
  shows "\<exists>ls s'. (\<forall>l \<in> set ls. internal l) \<and> run (seq_step grow) ls s = Some s' \<and>
           length (ss_started s') = Suc (length (ss_started s))"
  using live_starts [of s grow] seqs.holds_reach [OF assms(1)] assms(2,3) by (simp add: live_def starts_def)

theorem sequenced_no_lost_task_witness:
  "\<exists>ls s'. (\<forall>l \<in> set ls. internal l) \<and> run (seq_step id) ls ex_seq = Some s' \<and> length (ss_started s') = 2"
  using sequenced_no_lost_task [OF ex_seq_reachable] by (simp add: ex_seq_state numeral_2_eq_2 del: fifo_contents_Nil)

end
