(* ===== verification/Single_Thread_Runner.thy ===== *)
theory Single_Thread_Runner
  imports Core_Task
begin

text \<open>
  \<^verbatim>\<open>SingleThreadTaskRunner\<close> of \<^verbatim>\<open>core/single_thread_task_runner.go\<close>: a bounded channel of tasks
  and one goroutine. The operations come first; the system then interleaves any number of callers
  of \<^verbatim>\<open>enqueueTask\<close>, \<^verbatim>\<open>Shutdown\<close> and \<^verbatim>\<open>Stop\<close> with the goroutine. A caller that the code blocks is
  a program counter with no enabled step. Timers (\<^verbatim>\<open>time.AfterFunc\<close>) are callers that begin later.
\<close>

section \<open>The runner\<close>

datatype QueuePolicy = QueuePolicyDrop | QueuePolicyReject | QueuePolicyWait

text \<open>
  The context and the two channels \<^verbatim>\<open>stopped\<close> and \<^verbatim>\<open>shutdownChan\<close> are Boolean: cancelled or closed.
  A rejection callback is a value of type \<open>'c\<close>; its calls are recorded with their arguments.
\<close>

record ('t, 'v, 'c) SingleThreadTaskRunner =
  st_workQueue :: "'t list"
  st_queuePolicy :: QueuePolicy
  st_rejectionCallback :: "'c option"
  st_rejectedCount :: "64 word"
  st_executingCount :: "32 word"
  st_ctx_done :: bool
  st_stopped :: bool
  st_once :: bool
  st_closed :: bool
  st_shutdownChan_closed :: bool
  st_shutdownOnce :: bool
  st_name :: string
  st_metadata :: "string \<rightharpoonup> 'v"

definition workQueue_cap :: nat where
  "workQueue_cap = 100"

definition NewSingleThreadTaskRunner :: "('t, 'v, 'c) SingleThreadTaskRunner" where
  "NewSingleThreadTaskRunner =
     \<lparr>st_workQueue = [], st_queuePolicy = QueuePolicyDrop, st_rejectionCallback = None, st_rejectedCount = 0,
      st_executingCount = 0, st_ctx_done = False, st_stopped = False, st_once = False, st_closed = False,
      st_shutdownChan_closed = False, st_shutdownOnce = False, st_name = [], st_metadata = Map.empty\<rparr>"

definition st_SetName :: "string \<Rightarrow> ('t, 'v, 'c) SingleThreadTaskRunner \<Rightarrow> ('t, 'v, 'c) SingleThreadTaskRunner" where
  "st_SetName n r = r\<lparr>st_name := n\<rparr>"

definition st_SetMetadata ::
  "string \<Rightarrow> 'v \<Rightarrow> ('t, 'v, 'c) SingleThreadTaskRunner \<Rightarrow> ('t, 'v, 'c) SingleThreadTaskRunner" where
  "st_SetMetadata k v r = r\<lparr>st_metadata := (st_metadata r)(k \<mapsto> v)\<rparr>"

definition SetQueuePolicy ::
  "QueuePolicy \<Rightarrow> ('t, 'v, 'c) SingleThreadTaskRunner \<Rightarrow> ('t, 'v, 'c) SingleThreadTaskRunner" where
  "SetQueuePolicy p r = r\<lparr>st_queuePolicy := p\<rparr>"

definition SetRejectionCallback ::
  "'c option \<Rightarrow> ('t, 'v, 'c) SingleThreadTaskRunner \<Rightarrow> ('t, 'v, 'c) SingleThreadTaskRunner" where
  "SetRejectionCallback c r = r\<lparr>st_rejectionCallback := c\<rparr>"

definition st_PendingTaskCount :: "('t, 'v, 'c) SingleThreadTaskRunner \<Rightarrow> nat" where
  "st_PendingTaskCount r = length (st_workQueue r)"

definition st_RunningTaskCount :: "('t, 'v, 'c) SingleThreadTaskRunner \<Rightarrow> int" where
  "st_RunningTaskCount r = sint (st_executingCount r)"

definition st_RejectedCount :: "('t, 'v, 'c) SingleThreadTaskRunner \<Rightarrow> int" where
  "st_RejectedCount r = sint (st_rejectedCount r)"

definition st_observabilityName :: "('t, 'v, 'c) SingleThreadTaskRunner \<Rightarrow> string" where
  "st_observabilityName r = (if st_name r = [] then ''single-thread'' else st_name r)"

definition st_Stats :: "('t, 'v, 'c) SingleThreadTaskRunner \<Rightarrow> RunnerStats" where
  "st_Stats r = \<lparr>rs_Name = st_observabilityName r, rs_Type = ''single-thread'', rs_Pending = st_PendingTaskCount r,
     rs_Running = st_RunningTaskCount r, rs_Rejected = st_RejectedCount r, rs_Closed = st_closed r,
     rs_BarrierPending = False\<rparr>"

text \<open>
  \<^verbatim>\<open>enqueueTask\<close> after its check of \<^verbatim>\<open>closed\<close>, for the policy and callback it has read: the
  \<^verbatim>\<open>select\<close>. With several branches ready Go picks any; \<open>prefer_ctx\<close> is that choice. \<open>EnqBlocked\<close>
  says that no branch is ready and there is no default.
\<close>

datatype ('t, 'v, 'c) enqueue_result =
    EnqGiveUp
  | EnqSent "('t, 'v, 'c) SingleThreadTaskRunner"
  | EnqRejected "('t, 'v, 'c) SingleThreadTaskRunner" "('c \<times> 't \<times> TaskTraits) option"
  | EnqBlocked

definition select_send ::
  "bool \<Rightarrow> 't \<Rightarrow> ('t, 'v, 'c) enqueue_result \<Rightarrow> ('t, 'v, 'c) SingleThreadTaskRunner \<Rightarrow> ('t, 'v, 'c) enqueue_result" where
  "select_send prefer_ctx task otherwise r =
     (let sent = EnqSent (r\<lparr>st_workQueue := st_workQueue r @ [task]\<rparr>);
          room = length (st_workQueue r) < workQueue_cap
      in if st_ctx_done r \<and> room then (if prefer_ctx then EnqGiveUp else sent)
         else if st_ctx_done r then EnqGiveUp
         else if room then sent
         else otherwise)"

fun enqueue_select ::
  "bool \<Rightarrow> QueuePolicy \<Rightarrow> 'c option \<Rightarrow> 't \<Rightarrow> TaskTraits \<Rightarrow> ('t, 'v, 'c) SingleThreadTaskRunner \<Rightarrow> ('t, 'v, 'c) enqueue_result" where
  "enqueue_select prefer_ctx QueuePolicyDrop callback task traits r = select_send prefer_ctx task EnqBlocked r"
| "enqueue_select prefer_ctx QueuePolicyReject callback task traits r =
     select_send prefer_ctx task
       (EnqRejected (r\<lparr>st_rejectedCount := st_rejectedCount r + 1\<rparr>) (map_option (\<lambda>c. (c, task, traits)) callback)) r"
| "enqueue_select prefer_ctx QueuePolicyWait callback task traits r = select_send prefer_ctx task EnqBlocked r"

definition enqueueTask ::
  "bool \<Rightarrow> 't \<Rightarrow> TaskTraits \<Rightarrow> ('t, 'v, 'c) SingleThreadTaskRunner \<Rightarrow> ('t, 'v, 'c) enqueue_result" where
  "enqueueTask prefer_ctx task traits r =
     (if st_closed r then EnqGiveUp
      else enqueue_select prefer_ctx (st_queuePolicy r) (st_rejectionCallback r) task traits r)"

text \<open>The two branches of \<^verbatim>\<open>PostDelayedTaskWithTraits\<close>: whether a timer is set.\<close>

definition st_PostDelayed_sets_timer :: "('t, 'v, 'c) SingleThreadTaskRunner \<Rightarrow> bool" where
  "st_PostDelayed_sets_timer r \<longleftrightarrow> \<not> st_closed r \<and> \<not> st_ctx_done r"

text \<open>What the function of the timer does when it fires.\<close>

definition st_timer_fires ::
  "bool \<Rightarrow> 't \<Rightarrow> TaskTraits \<Rightarrow> ('t, 'v, 'c) SingleThreadTaskRunner \<Rightarrow> ('t, 'v, 'c) enqueue_result" where
  "st_timer_fires prefer_ctx task traits r =
     (if st_closed r then EnqGiveUp else enqueueTask prefer_ctx task traits r)"

definition st_Shutdown :: "('t, 'v, 'c) SingleThreadTaskRunner \<Rightarrow> ('t, 'v, 'c) SingleThreadTaskRunner" where
  "st_Shutdown r =
     (if st_shutdownOnce r then r
      else r\<lparr>st_shutdownOnce := True, st_closed := True, st_shutdownChan_closed := True\<rparr>)"

text \<open>The parts of \<^verbatim>\<open>Stop\<close> before its wait for \<^verbatim>\<open>stopped\<close>.\<close>

definition st_Stop_begin :: "('t, 'v, 'c) SingleThreadTaskRunner \<Rightarrow> ('t, 'v, 'c) SingleThreadTaskRunner" where
  "st_Stop_begin r =
     (let r = r\<lparr>st_once := True, st_closed := True\<rparr>;
          r = (if st_shutdownOnce r then r else r\<lparr>st_shutdownOnce := True, st_shutdownChan_closed := True\<rparr>)
      in r\<lparr>st_ctx_done := True\<rparr>)"

section \<open>The system\<close>

datatype 't st_loop = StSelect | StInside 't | StGone

datatype ('t, 'c) st_post = StPolicy 't TaskTraits | StSend QueuePolicy "'c option" 't TaskTraits | StReturned

datatype st_stop = StWaitStopped | StStopReturned

datatype 't st_event = StBegin 't | StEnd 't

record ('t, 'v, 'c) st_sys =
  y_runner :: "('t, 'v, 'c) SingleThreadTaskRunner"
  y_loop :: "'t st_loop"
  y_posters :: "('t, 'c) st_post list"
  y_stoppers :: "st_stop list"
  y_sent :: "'t list"
  y_taken :: "'t list"
  y_rejected :: "'t list"
  y_callbacks :: "('c \<times> 't \<times> TaskTraits) list"
  y_trace :: "'t st_event list"

definition st_init :: "('t, 'v, 'c) st_sys" where
  "st_init = \<lparr>y_runner = NewSingleThreadTaskRunner, y_loop = StSelect, y_posters = [], y_stoppers = [],
     y_sent = [], y_taken = [], y_rejected = [], y_callbacks = [], y_trace = []\<rparr>"

datatype ('t, 'c) st_label =
    YPost 't TaskTraits | YPoster nat bool | YLoop bool | YPolicy QueuePolicy | YCallback "'c option"
  | YShutdown | YStop | YStopper nat

text \<open>
  One step of the goroutine \<^verbatim>\<open>runLoop\<close>: take a task, or see the cancelled context and return
  (\<open>receive\<close> is the choice of the \<^verbatim>\<open>select\<close>); finish the task, panicking or not.
\<close>

fun st_loop_step :: "bool \<Rightarrow> ('t, 'v, 'c) st_sys \<Rightarrow> ('t, 'v, 'c) st_sys option" where
  "st_loop_step receive s =
     (case y_loop s of
        StSelect \<Rightarrow>
          if receive then
            (case st_workQueue (y_runner s) of
               [] \<Rightarrow> None
             | t # q \<Rightarrow> Some (s\<lparr>y_runner := (y_runner s)\<lparr>st_workQueue := q, st_executingCount := st_executingCount (y_runner s) + 1\<rparr>,
                             y_loop := StInside t, y_taken := y_taken s @ [t], y_trace := y_trace s @ [StBegin t]\<rparr>))
          else if st_ctx_done (y_runner s)
            then Some (s\<lparr>y_runner := (y_runner s)\<lparr>st_stopped := True\<rparr>, y_loop := StGone\<rparr>) else None
      | StInside t \<Rightarrow>
          Some (s\<lparr>y_runner := (y_runner s)\<lparr>st_executingCount := st_executingCount (y_runner s) - 1\<rparr>,
                  y_loop := StSelect, y_trace := y_trace s @ [StEnd t]\<rparr>)
      | StGone \<Rightarrow> None)"

fun st_poster_step ::
  "bool \<Rightarrow> ('t, 'c) st_post \<Rightarrow> ('t, 'v, 'c) st_sys \<Rightarrow> (('t, 'c) st_post \<times> ('t, 'v, 'c) st_sys) option" where
  "st_poster_step prefer_ctx (StPolicy t tr) s =
     Some (StSend (st_queuePolicy (y_runner s)) (st_rejectionCallback (y_runner s)) t tr, s)"
| "st_poster_step prefer_ctx (StSend p c t tr) s =
     (case enqueue_select prefer_ctx p c t tr (y_runner s) of
        EnqGiveUp \<Rightarrow> Some (StReturned, s)
      | EnqSent r \<Rightarrow> Some (StReturned, s\<lparr>y_runner := r, y_sent := y_sent s @ [t]\<rparr>)
      | EnqRejected r call \<Rightarrow>
          Some (StReturned, s\<lparr>y_runner := r, y_rejected := y_rejected s @ [t],
            y_callbacks := y_callbacks s @ (case call of None \<Rightarrow> [] | Some x \<Rightarrow> [x])\<rparr>)
      | EnqBlocked \<Rightarrow> None)"
| "st_poster_step prefer_ctx StReturned s = None"

fun st_step :: "('t, 'c) st_label \<Rightarrow> ('t, 'v, 'c) st_sys \<Rightarrow> ('t, 'v, 'c) st_sys option" where
  "st_step (YPost t tr) s =
     Some (if st_closed (y_runner s) then s else s\<lparr>y_posters := y_posters s @ [StPolicy t tr]\<rparr>)"
| "st_step (YPoster k prefer_ctx) s =
     (if k < length (y_posters s)
      then map_option (\<lambda>(pc, s'). s'\<lparr>y_posters := (y_posters s)[k := pc]\<rparr>) (st_poster_step prefer_ctx (y_posters s ! k) s)
      else None)"
| "st_step (YLoop receive) s = st_loop_step receive s"
| "st_step (YPolicy p) s = Some (s\<lparr>y_runner := SetQueuePolicy p (y_runner s)\<rparr>)"
| "st_step (YCallback c) s = Some (s\<lparr>y_runner := SetRejectionCallback c (y_runner s)\<rparr>)"
| "st_step YShutdown s = Some (s\<lparr>y_runner := st_Shutdown (y_runner s)\<rparr>)"
| "st_step YStop s =
     Some (if st_once (y_runner s) then s
           else s\<lparr>y_runner := st_Stop_begin (y_runner s), y_stoppers := y_stoppers s @ [StWaitStopped]\<rparr>)"
| "st_step (YStopper k) s =
     (if k < length (y_stoppers s) \<and> y_stoppers s ! k = StWaitStopped \<and> st_stopped (y_runner s)
      then Some (s\<lparr>y_stoppers := (y_stoppers s)[k := StStopReturned]\<rparr>) else None)"

abbreviation st_reachable :: "('t, 'v, 'c) st_sys \<Rightarrow> bool" where
  "st_reachable \<equiv> reach (\<lambda>s. s = st_init) (lstep st_step)"

section \<open>The invariant\<close>

fun st_current :: "'t st_loop \<Rightarrow> 't list" where
  "st_current (StInside t) = [t]" | "st_current _ = []"

definition st_brackets :: "'t list \<Rightarrow> 't st_event list" where
  "st_brackets ts = concat (map (\<lambda>t. [StBegin t, StEnd t]) ts)"

lemma st_brackets_simps [simp]:
  "st_brackets [] = []" "st_brackets (xs @ ys) = st_brackets xs @ st_brackets ys" "st_brackets [t] = [StBegin t, StEnd t]"
  by (simp_all add: st_brackets_def)

definition st_inv :: "('t, 'v, 'c) st_sys \<Rightarrow> bool" where
  "st_inv s \<longleftrightarrow>
     length (st_workQueue (y_runner s)) \<le> workQueue_cap \<and>
     y_sent s = y_taken s @ st_workQueue (y_runner s) \<and>
     y_trace s @ map StEnd (st_current (y_loop s)) = st_brackets (y_taken s) \<and>
     st_executingCount (y_runner s) = of_nat (length (st_current (y_loop s))) \<and>
     st_rejectedCount (y_runner s) = of_nat (length (y_rejected s)) \<and>
     (st_stopped (y_runner s) \<longleftrightarrow> y_loop s = StGone) \<and>
     (st_stopped (y_runner s) \<longrightarrow> st_ctx_done (y_runner s)) \<and>
     (st_ctx_done (y_runner s) \<longrightarrow> st_closed (y_runner s)) \<and>
     (StStopReturned \<in> set (y_stoppers s) \<longrightarrow> st_stopped (y_runner s))"

lemma st_loop_inv: "st_inv s \<Longrightarrow> st_loop_step receive s = Some s' \<Longrightarrow> st_inv s'"
  by (auto simp: st_inv_def split: st_loop.splits list.splits if_splits)

lemma enqueue_select_cases:
  obtains "enqueue_select b p c t tr r = EnqGiveUp" "st_ctx_done r"
  | "length (st_workQueue r) < workQueue_cap" "enqueue_select b p c t tr r = EnqSent (r\<lparr>st_workQueue := st_workQueue r @ [t]\<rparr>)"
  | "p = QueuePolicyReject" "\<not> length (st_workQueue r) < workQueue_cap"
    "enqueue_select b p c t tr r =
       EnqRejected (r\<lparr>st_rejectedCount := st_rejectedCount r + 1\<rparr>) (map_option (\<lambda>c. (c, t, tr)) c)"
  | "enqueue_select b p c t tr r = EnqBlocked" "\<not> length (st_workQueue r) < workQueue_cap" "\<not> st_ctx_done r" "p \<noteq> QueuePolicyReject"
  by (cases p; cases b; cases "st_ctx_done r"; cases "length (st_workQueue r) < workQueue_cap")
    (simp_all add: select_send_def)

lemma st_poster_inv:
  assumes inv: "st_inv s" and st: "st_poster_step b pc s = Some (pc', s')"
  shows "st_inv s'"
proof (cases pc)
  case (StSend p c t tr)
  show ?thesis
  proof (cases b p c t tr "y_runner s" rule: enqueue_select_cases)
    case 1
    with StSend st inv show ?thesis by simp
  next
    case 2
    with StSend st have "s' = s\<lparr>y_runner := (y_runner s)\<lparr>st_workQueue := st_workQueue (y_runner s) @ [t]\<rparr>, y_sent := y_sent s @ [t]\<rparr>"
      by simp
    with inv 2(1) show ?thesis by (auto simp: st_inv_def)
  next
    case 3
    with StSend st have "s' = s\<lparr>y_runner := (y_runner s)\<lparr>st_rejectedCount := st_rejectedCount (y_runner s) + 1\<rparr>,
        y_rejected := y_rejected s @ [t], y_callbacks := y_callbacks s @ (case map_option (\<lambda>c. (c, t, tr)) c of None \<Rightarrow> [] | Some x \<Rightarrow> [x])\<rparr>"
      by simp
    with inv show ?thesis by (auto simp: st_inv_def)
  next
    case 4
    with StSend st show ?thesis by simp
  qed
qed (use assms in auto)

lemma st_step_inv:
  assumes inv: "st_inv s" and st: "st_step l s = Some s'"
  shows "st_inv s'"
proof (cases l)
  case (YPoster k b)
  with st obtain pc t where "st_poster_step b (y_posters s ! k) s = Some (pc, t)"
    "s' = t\<lparr>y_posters := (y_posters s)[k := pc]\<rparr>" by (auto split: if_splits)
  moreover from this(1) inv have "st_inv t" by (auto intro: st_poster_inv)
  ultimately show ?thesis by (auto simp: st_inv_def)
next
  case (YLoop b)
  with st inv show ?thesis by (auto intro: st_loop_inv simp del: st_loop_step.simps)
next
  case (YPost t tr)
  with st inv show ?thesis by (auto simp: st_inv_def split: if_splits)
next
  case (YPolicy p)
  with st inv show ?thesis by (auto simp: st_inv_def SetQueuePolicy_def)
next
  case (YCallback c)
  with st inv show ?thesis by (auto simp: st_inv_def SetRejectionCallback_def)
next
  case YShutdown
  with st inv show ?thesis by (cases "st_shutdownOnce (y_runner s)") (auto simp: st_inv_def st_Shutdown_def)
next
  case YStop
  with st inv show ?thesis
    by (cases "st_once (y_runner s)"; cases "st_shutdownOnce (y_runner s)") (auto simp: st_inv_def st_Stop_begin_def)
next
  case (YStopper k)
  then have "s' = s\<lparr>y_stoppers := (y_stoppers s)[k := StStopReturned]\<rparr>" "st_stopped (y_runner s)"
    using st by (auto split: if_splits)
  with inv show ?thesis by (auto simp: st_inv_def)
qed

interpretation sts: inv_system "\<lambda>s. s = st_init" "lstep st_step" st_inv
proof unfold_locales
  show "st_inv s" if "s = st_init" for s :: "('a, 'b, 'c) st_sys"
    by (simp add: that st_init_def NewSingleThreadTaskRunner_def st_inv_def)
  show "st_inv t" if "st_inv s" "lstep st_step s t" for s t :: "('a, 'b, 'c) st_sys"
    using that by (auto simp: lstep_def intro: st_step_inv)
qed

section \<open>The properties\<close>

definition ex_st_labels :: "(nat, unit) st_label list" where
  "ex_st_labels = [YPost 1 DefaultTaskTraits, YPoster 0 False, YPoster 0 False, YPost 2 DefaultTaskTraits, YLoop True,
     YPoster 1 False, YPoster 1 False, YStop]"

definition ex_st :: "(nat, unit, unit) st_sys" where
  "ex_st = the (run st_step ex_st_labels st_init)"

lemma ex_st_state:
  "y_loop ex_st = StInside 1" "y_sent ex_st = [1, 2]" "y_trace ex_st = [StBegin 1]"
  "st_workQueue (y_runner ex_st) = [2]" "st_stopped (y_runner ex_st) = False" "y_stoppers ex_st = [StWaitStopped]"
  by code_simp+

lemma ex_st_reachable: "st_reachable ex_st"
proof -
  have "run st_step ex_st_labels (st_init :: (nat, unit, unit) st_sys) \<noteq> None" by code_simp
  then have "run st_step ex_st_labels st_init = Some ex_st"
    unfolding ex_st_def by (metis option.exhaust_sel)
  then show ?thesis by (rule run_reach [rotated]) (auto intro: reach_init)
qed

lemma st_trace_shape:
  assumes "st_inv s"
  shows "\<exists>fin. y_trace s = st_brackets fin @ map StBegin (st_current (y_loop s)) \<and> y_taken s = fin @ st_current (y_loop s)"
proof (cases "y_loop s")
  case (StInside t)
  with assms have tr: "y_trace s @ [StEnd t] = st_brackets (y_taken s)" by (simp add: st_inv_def)
  then have "y_taken s \<noteq> []" by auto
  then obtain xs y where xs: "y_taken s = xs @ [y]" by (metis rev_exhaust)
  with tr have "y_trace s @ [StEnd t] = (st_brackets xs @ [StBegin y]) @ [StEnd y]" by simp
  then have "y_trace s = st_brackets xs @ [StBegin y]" "y = t" by simp_all
  with xs StInside show ?thesis by auto
qed (use assms in \<open>auto simp: st_inv_def\<close>)

text \<open>
  The tasks of a single-thread runner run one after the other, in the order in which they were
  sent, whatever the queue policies, rejections and shutdowns on the way: what has happened is the
  complete runs of the first tasks sent, then the beginning of the current one, and the channel
  holds exactly the rest, never more than 100 tasks.
\<close>

theorem single_thread_fifo:
  assumes "st_reachable s"
  shows "\<exists>fin. y_trace s = st_brackets fin @ map StBegin (st_current (y_loop s)) \<and>
           y_sent s = fin @ st_current (y_loop s) @ st_workQueue (y_runner s) \<and>
           length (st_workQueue (y_runner s)) \<le> 100 \<and>
           st_RunningTaskCount (y_runner s) = int (length (st_current (y_loop s)))"
proof -
  have inv: "st_inv s" using sts.holds_reach [OF assms] .
  then have "st_RunningTaskCount (y_runner s) = int (length (st_current (y_loop s)))"
    by (cases "y_loop s") (simp_all add: st_inv_def st_RunningTaskCount_def)
  with inv st_trace_shape [OF inv] show ?thesis by (auto simp: st_inv_def workQueue_cap_def)
qed

text \<open>
  Every post has one of four outcomes, fixed by the policy. With room in the channel the task
  is sent. A full channel rejects, counts and reports the task under \<^verbatim>\<open>QueuePolicyReject\<close>; under
  \<^verbatim>\<open>QueuePolicyWait\<close> and also under \<^verbatim>\<open>QueuePolicyDrop\<close> the caller blocks until there is room or
  the context is done: no policy drops a task silently.
\<close>

theorem enqueueTask_outcomes:
  assumes "\<not> st_closed r" "\<not> st_ctx_done r"
  shows "enqueueTask b t tr r =
     (if length (st_workQueue r) < 100 then EnqSent (r\<lparr>st_workQueue := st_workQueue r @ [t]\<rparr>)
      else case st_queuePolicy r of
             QueuePolicyReject \<Rightarrow>
               EnqRejected (r\<lparr>st_rejectedCount := st_rejectedCount r + 1\<rparr>)
                 (case st_rejectionCallback r of None \<Rightarrow> None | Some c \<Rightarrow> Some (c, t, tr))
           | QueuePolicyWait \<Rightarrow> EnqBlocked
           | QueuePolicyDrop \<Rightarrow> EnqBlocked)"
  using assms
  by (cases "st_queuePolicy r")
    (auto simp: enqueueTask_def select_send_def Let_def workQueue_cap_def split: option.splits)

text \<open>
  C24: When \<^verbatim>\<open>Stop\<close> has returned, the goroutine has returned too: no task is running, and none of
  those still in the channel will ever run.
\<close>

theorem stop_returns_after_loop:
  assumes "st_reachable s" "StStopReturned \<in> set (y_stoppers s)"
  shows "y_loop s = StGone \<and> st_RunningTaskCount (y_runner s) = 0 \<and> st_closed (y_runner s) \<and>
         (\<forall>ls s'. run st_step ls s = Some s' \<longrightarrow> y_trace s' = y_trace s)"
proof -
  have inv: "st_inv s" using sts.holds_reach [OF assms(1)] .
  with assms(2) have gone: "y_loop s = StGone" by (auto simp: st_inv_def)
  have step: "y_loop t = StGone \<Longrightarrow> st_step l t = Some t' \<Longrightarrow> y_loop t' = StGone \<and> y_trace t' = y_trace t"
    for l and t t' :: "('a, 'b, 'c) st_sys"
  proof (cases l)
    case (YPoster k b)
    assume "y_loop t = StGone" "st_step l t = Some t'"
    with YPoster show ?thesis
      by (cases "y_posters t ! k") (auto split: if_splits enqueue_result.splits)
  qed (auto split: if_splits)
  have "y_loop t = StGone \<Longrightarrow> run st_step ls t = Some t' \<Longrightarrow> y_trace t' = y_trace t"
    for ls and t t' :: "('a, 'b, 'c) st_sys"
  proof (induction ls arbitrary: t)
    case (Cons l ls)
    then obtain u where u: "st_step l t = Some u" "run st_step ls u = Some t'"
      by (auto split: option.splits simp del: st_step.simps)
    from step [OF Cons.prems(1) u(1)] Cons.IH [of u] u(2) show ?case by simp
  qed simp
  with inv assms(2) gone show ?thesis
    by (auto simp: st_inv_def st_RunningTaskCount_def)
qed

definition ex_st_stopped :: "(nat, unit, unit) st_sys" where
  "ex_st_stopped = the (run st_step [YStop, YLoop False, YStopper 0] st_init)"

theorem stop_returns_after_loop_witness:
  "y_loop ex_st_stopped = StGone \<and> st_closed (y_runner ex_st_stopped)"
proof -
  have "run st_step [YStop, YLoop False, YStopper 0] (st_init :: (nat, unit, unit) st_sys) \<noteq> None" by code_simp
  then have "run st_step [YStop, YLoop False, YStopper 0] st_init = Some ex_st_stopped"
    unfolding ex_st_stopped_def by (metis option.exhaust_sel)
  then have "st_reachable ex_st_stopped" by (rule run_reach [rotated]) (auto intro: reach_init)
  moreover have "y_stoppers ex_st_stopped = [StStopReturned]" by code_simp
  ultimately show ?thesis using stop_returns_after_loop [of ex_st_stopped] by simp
qed

end
