(* ===== verification/Parallel_Runner.thy ===== *)
theory Parallel_Runner
  imports Fifo_Queue Single_Thread_Runner "HOL-Library.Sublist"
begin

text \<open>
  \<^verbatim>\<open>ParallelTaskRunner\<close> of \<^verbatim>\<open>core/parallel_task_runner.go\<close>. Its scheduling closures run one after
  the other on an internal single-thread runner (a first-in first-out channel of 100 places, by
  \<open>Single_Thread_Runner\<close>), its tasks on a thread pool that starts them in any order and with any
  overlap and may be stopped at any time. The system interleaves the scheduling goroutine, split at
  every atomic load and every critical section, with the workers, the callers and \<^verbatim>\<open>Shutdown\<close>.
\<close>

section \<open>The runner\<close>

text \<open>
  A queued closure is a task of the user or the closure that \<^verbatim>\<open>WaitIdle\<close> or \<^verbatim>\<open>FlushAsync\<close> builds
  around its callback, which after the callback posts the reset of \<^verbatim>\<open>barrierTaskRunning\<close>.
  \<^verbatim>\<open>runningCount\<close> is an integer: the bound proved below keeps it within an \<^verbatim>\<open>int32\<close>.
\<close>

datatype 't par_task = UserTask 't | BarrierTask 't

type_synonym 't par_item = "'t par_task TaskItem"

record ('t, 'v) ParallelTaskRunner =
  pr_queue :: "'t par_task FIFOTaskQueue"
  pr_maxConcurrency :: int
  pr_runningCount :: int
  pr_closed :: bool
  pr_shutdownChan_closed :: bool
  pr_shutdownOnce :: bool
  pr_pendingBarrierTask :: "'t par_item option"
  pr_barrierTaskRunning :: bool
  pr_barrierTaskIDs :: "TaskID set"
  pr_name :: string
  pr_metadata :: "string \<rightharpoonup> 'v"

definition maxAllowedConcurrency :: int where
  "maxAllowedConcurrency = 10000"

datatype parallel_panic = NilThreadPool | ConcurrencyTooSmall | ConcurrencyTooLarge

definition NewParallelTaskRunner ::
  "'t par_task memory \<Rightarrow> 'p option \<Rightarrow> int \<Rightarrow> parallel_panic + ('t, 'v) ParallelTaskRunner" where
  "NewParallelTaskRunner mem threadPool n =
     (if threadPool = None then Inl NilThreadPool
      else if n < 1 then Inl ConcurrencyTooSmall
      else if n > maxAllowedConcurrency then Inl ConcurrencyTooLarge
      else Inr \<lparr>pr_queue = NewFIFOTaskQueue mem, pr_maxConcurrency = n, pr_runningCount = 0, pr_closed = False,
             pr_shutdownChan_closed = False, pr_shutdownOnce = False, pr_pendingBarrierTask = None,
             pr_barrierTaskRunning = False, pr_barrierTaskIDs = {}, pr_name = [], pr_metadata = Map.empty\<rparr>)"

definition pr_PendingTaskCount :: "('t, 'v) ParallelTaskRunner \<Rightarrow> nat" where
  "pr_PendingTaskCount r = FIFO_Len (pr_queue r)"

definition pr_observabilityName :: "('t, 'v) ParallelTaskRunner \<Rightarrow> string" where
  "pr_observabilityName r = (if pr_name r = [] then ''parallel'' else pr_name r)"

definition pr_Stats :: "('t, 'v) ParallelTaskRunner \<Rightarrow> RunnerStats" where
  "pr_Stats r = \<lparr>rs_Name = pr_observabilityName r, rs_Type = ''parallel'', rs_Pending = pr_PendingTaskCount r,
     rs_Running = pr_runningCount r, rs_Rejected = 0, rs_Closed = pr_closed r,
     rs_BarrierPending = pr_barrierTaskRunning r\<rparr>"

definition pr_SetName :: "string \<Rightarrow> ('t, 'v) ParallelTaskRunner \<Rightarrow> ('t, 'v) ParallelTaskRunner" where
  "pr_SetName n r = r\<lparr>pr_name := n\<rparr>"

definition pr_SetMetadata :: "string \<Rightarrow> 'v \<Rightarrow> ('t, 'v) ParallelTaskRunner \<Rightarrow> ('t, 'v) ParallelTaskRunner" where
  "pr_SetMetadata k v r = r\<lparr>pr_metadata := (pr_metadata r)(k \<mapsto> v)\<rparr>"

definition markAsBarrier :: "TaskID \<Rightarrow> ('t, 'v) ParallelTaskRunner \<Rightarrow> ('t, 'v) ParallelTaskRunner" where
  "markAsBarrier i r = r\<lparr>pr_barrierTaskIDs := insert i (pr_barrierTaskIDs r)\<rparr>"

definition isBarrierTaskID :: "TaskID \<Rightarrow> ('t, 'v) ParallelTaskRunner \<Rightarrow> bool" where
  "isBarrierTaskID i r \<longleftrightarrow> i \<in> pr_barrierTaskIDs r"

definition removeBarrier :: "TaskID \<Rightarrow> ('t, 'v) ParallelTaskRunner \<Rightarrow> ('t, 'v) ParallelTaskRunner" where
  "removeBarrier i r = r\<lparr>pr_barrierTaskIDs := pr_barrierTaskIDs r - {i}\<rparr>"

definition pr_add_running :: "int \<Rightarrow> ('t, 'v) ParallelTaskRunner \<Rightarrow> ('t, 'v) ParallelTaskRunner" where
  "pr_add_running d r = r\<lparr>pr_runningCount := pr_runningCount r + d\<rparr>"

definition pr_push ::
  "(nat \<Rightarrow> nat) \<Rightarrow> TaskID \<Rightarrow> 't par_task \<Rightarrow> TaskTraits \<Rightarrow> ('t, 'v) ParallelTaskRunner \<Rightarrow> ('t, 'v) ParallelTaskRunner" where
  "pr_push grow i t tr r = r\<lparr>pr_queue := FIFO_Push grow i t tr (pr_queue r)\<rparr>"

text \<open>\<^verbatim>\<open>postBarrierTaskInternal\<close> up to its call of \<^verbatim>\<open>PostInternal\<close>.\<close>

definition postBarrierTaskInternal :: "'t par_item \<Rightarrow> ('t, 'v) ParallelTaskRunner \<Rightarrow> ('t, 'v) ParallelTaskRunner" where
  "postBarrierTaskInternal b r =
     pr_add_running 1 ((removeBarrier (ID b) r)\<lparr>pr_pendingBarrierTask := None, pr_barrierTaskRunning := True\<rparr>)"

section \<open>The goroutines\<close>

text \<open>The closures on the internal scheduler: of a post, of a barrier, of \<^verbatim>\<open>onTaskComplete\<close>, and the reset of the flag.\<close>

datatype 't sched_op = OpPost 't TaskTraits | OpBarrier 't | OpTry | OpBarrierDone

text \<open>
  The scheduling goroutine: between closures; past the check of \<^verbatim>\<open>closed\<close> and before the push; at
  the three tests and in the loop of \<^verbatim>\<open>tryScheduleInternal\<close> (load, pop, treatment of the item); and
  between the increment of \<^verbatim>\<open>runningCount\<close> and \<^verbatim>\<open>PostInternal\<close>, after which the loop goes on or the
  closure returns.
\<close>

datatype 't sched_at =
    ScIdle | ScPush "'t par_task" TaskTraits | ScTry | ScPending | ScLoop | ScPop
  | ScItem "'t par_item" | ScAdded "'t par_item" bool

text \<open>
  A worker: inside the task, before the deferred post of a barrier, before the decrement of
  \<^verbatim>\<open>onTaskComplete\<close>, before its post, returned.
\<close>

datatype 't par_worker = RInside "'t par_item" | RDefer | RDec | RNotify | RGone

datatype 't par_event = EvPosted "'t par_item" | EvBegin "'t par_item" | EvEnd "'t par_item"

record ('t, 'v) par_sys =
  pp_runner :: "('t, 'v) ParallelTaskRunner"
  pp_ops :: "'t sched_op list"
  pp_sched_closed :: bool
  pp_sched :: "'t sched_at"
  pp_pool_open :: bool
  pp_pool :: "'t par_item list"
  pp_workers :: "'t par_worker list"
  pp_accepted :: "'t par_item list"
  pp_dropped :: "'t par_item list"
  pp_log :: "'t par_event list"
  pp_cleared :: bool

definition par_init :: "('t, 'v) ParallelTaskRunner \<Rightarrow> ('t, 'v) par_sys" where
  "par_init r = \<lparr>pp_runner = r, pp_ops = [], pp_sched_closed = False, pp_sched = ScIdle, pp_pool_open = True,
     pp_pool = [], pp_workers = [], pp_accepted = [], pp_dropped = [], pp_log = [], pp_cleared = False\<rparr>"

text \<open>
  \<^verbatim>\<open>scheduler.PostTask(op)\<close>: the closure is sent when the channel has room, or the call returns
  without effect when the scheduler is closed. A caller that passed the check of \<^verbatim>\<open>closed\<close> in time
  may still send after the shutdown, so sending is possible in either case.
\<close>

definition sched_post :: "bool \<Rightarrow> 't sched_op \<Rightarrow> ('t, 'v) par_sys \<Rightarrow> ('t, 'v) par_sys option" where
  "sched_post send op s =
     (if send then (if length (pp_ops s) < workQueue_cap then Some (s\<lparr>pp_ops := pp_ops s @ [op]\<rparr>) else None)
      else if pp_sched_closed s then Some s else None)"

definition set_sched_at :: "'t sched_at \<Rightarrow> ('t, 'v) par_sys \<Rightarrow> ('t, 'v) par_sys" where
  "set_sched_at pc s = s\<lparr>pp_sched := pc\<rparr>"

text \<open>The increment of \<^verbatim>\<open>runningCount\<close> for an item that is going to be posted.\<close>

definition begin_post :: "'t par_item \<Rightarrow> bool \<Rightarrow> ('t, 'v) ParallelTaskRunner \<Rightarrow> ('t, 'v) par_sys \<Rightarrow> ('t, 'v) par_sys" where
  "begin_post x again r s =
     s\<lparr>pp_runner := r, pp_sched := ScAdded x again, pp_log := pp_log s @ [EvPosted x]\<rparr>"

fun op_step :: "'t sched_op \<Rightarrow> ('t, 'v) par_sys \<Rightarrow> ('t, 'v) par_sys" where
  "op_step (OpPost t tr) s = set_sched_at (if pr_closed (pp_runner s) then ScIdle else ScPush (UserTask t) tr) s"
| "op_step (OpBarrier t) s =
     set_sched_at (if pr_closed (pp_runner s) then ScIdle
                   else ScPush (BarrierTask t) \<lparr>Priority = TaskPriorityUserBlocking\<rparr>) s"
| "op_step OpTry s = set_sched_at ScTry s"
| "op_step OpBarrierDone s = s\<lparr>pp_runner := (pp_runner s)\<lparr>pr_barrierTaskRunning := False\<rparr>\<rparr>"

fun sched_step :: "(nat \<Rightarrow> nat) \<Rightarrow> TaskID \<Rightarrow> ('t, 'v) par_sys \<Rightarrow> ('t, 'v) par_sys option" where
  "sched_step grow i s =
     (let r = pp_runner s in
      case pp_sched s of
        ScIdle \<Rightarrow> (case pp_ops s of [] \<Rightarrow> None | op # ops \<Rightarrow> Some (op_step op (s\<lparr>pp_ops := ops\<rparr>)))
      | ScPush t tr \<Rightarrow>
          (let r' = pr_push grow i t tr r;
               r'' = (case t of BarrierTask _ \<Rightarrow> markAsBarrier i r' | UserTask _ \<Rightarrow> r')
           in Some (s\<lparr>pp_runner := r'', pp_sched := ScTry,
                     pp_accepted := pp_accepted s @ [\<lparr>Task = t, Traits = tr, ID = i\<rparr>]\<rparr>))
      | ScTry \<Rightarrow> Some (set_sched_at (if pr_barrierTaskRunning r then ScIdle else ScPending) s)
      | ScPending \<Rightarrow>
          (case pr_pendingBarrierTask r of
             None \<Rightarrow> Some (set_sched_at ScLoop s)
           | Some b \<Rightarrow>
               if pr_runningCount r = 0 then Some (begin_post b False (postBarrierTaskInternal b r) s)
               else Some (set_sched_at ScIdle s))
      | ScLoop \<Rightarrow> Some (set_sched_at (if pr_runningCount r < pr_maxConcurrency r then ScPop else ScIdle) s)
      | ScPop \<Rightarrow>
          (case fifo_pop_item (pr_queue r) of
             (None, q) \<Rightarrow> Some (set_sched_at ScIdle s)
           | (Some x, q) \<Rightarrow> Some (s\<lparr>pp_runner := r\<lparr>pr_queue := q\<rparr>, pp_sched := ScItem x\<rparr>))
      | ScItem x \<Rightarrow>
          if isBarrierTaskID (ID x) r then
            (let r' = removeBarrier (ID x) r in
             if pr_runningCount r = 0 then Some (begin_post x False (pr_add_running 1 r') s)
             else Some (s\<lparr>pp_runner := r'\<lparr>pr_pendingBarrierTask := Some x\<rparr>, pp_sched := ScIdle\<rparr>))
          else Some (begin_post x True (pr_add_running 1 r) s)
      | ScAdded x again \<Rightarrow>
          (let s' = set_sched_at (if again then ScLoop else ScIdle) s in
           Some (if pp_pool_open s then s'\<lparr>pp_pool := pp_pool s @ [x]\<rparr> else s'\<lparr>pp_dropped := pp_dropped s @ [x]\<rparr>)))"

fun par_worker_step :: "bool \<Rightarrow> 't par_worker \<Rightarrow> ('t, 'v) par_sys \<Rightarrow> ('t par_worker \<times> ('t, 'v) par_sys) option" where
  "par_worker_step send (RInside x) s =
     Some (case Task x of BarrierTask _ \<Rightarrow> RDefer | UserTask _ \<Rightarrow> RDec, s\<lparr>pp_log := pp_log s @ [EvEnd x]\<rparr>)"
| "par_worker_step send RDefer s = map_option (\<lambda>s'. (RDec, s')) (sched_post send OpBarrierDone s)"
| "par_worker_step send RDec s = Some (RNotify, s\<lparr>pp_runner := pr_add_running (- 1) (pp_runner s)\<rparr>)"
| "par_worker_step send RNotify s = map_option (\<lambda>s'. (RGone, s')) (sched_post send OpTry s)"
| "par_worker_step send RGone s = None"

text \<open>
  \<^verbatim>\<open>Shutdown\<close>: the function given to \<^verbatim>\<open>shutdownOnce.Do\<close>, in two parts, between which the scheduling
  goroutine may move: the flag, then the clearing of the queue with the closing of the channel and
  of the internal scheduler.
\<close>

definition pr_Shutdown_close :: "('t, 'v) par_sys \<Rightarrow> ('t, 'v) par_sys" where
  "pr_Shutdown_close s =
     (if pr_shutdownOnce (pp_runner s) then s
      else s\<lparr>pp_runner := (pp_runner s)\<lparr>pr_shutdownOnce := True, pr_closed := True\<rparr>\<rparr>)"

definition pr_Shutdown_clear :: "('t, 'v) par_sys \<Rightarrow> ('t, 'v) par_sys option" where
  "pr_Shutdown_clear s =
     (if pr_closed (pp_runner s) \<and> \<not> pr_shutdownChan_closed (pp_runner s)
      then Some (s\<lparr>pp_runner := (pp_runner s)\<lparr>pr_queue := FIFO_Clear (pr_queue (pp_runner s)), pr_shutdownChan_closed := True\<rparr>,
             pp_sched_closed := True, pp_cleared := True\<rparr>)
      else None)"

datatype 't par_label =
    XPost 't TaskTraits bool | XFlush 't bool | XSched TaskID | XWork nat | XWorker nat bool
  | XShutdown | XClear | XPoolStop

fun par_step :: "(nat \<Rightarrow> nat) \<Rightarrow> 't par_label \<Rightarrow> ('t, 'v) par_sys \<Rightarrow> ('t, 'v) par_sys option" where
  "par_step grow (XPost t tr send) s = sched_post send (OpPost t tr) s"
| "par_step grow (XFlush t send) s = sched_post send (OpBarrier t) s"
| "par_step grow (XSched i) s = sched_step grow i s"
| "par_step grow (XWork k) s =
     (if k < length (pp_pool s)
      then Some (s\<lparr>pp_pool := take k (pp_pool s) @ drop (Suc k) (pp_pool s),
                   pp_workers := pp_workers s @ [RInside (pp_pool s ! k)],
                   pp_log := pp_log s @ [EvBegin (pp_pool s ! k)]\<rparr>)
      else None)"
| "par_step grow (XWorker k send) s =
     (if k < length (pp_workers s)
      then map_option (\<lambda>(pc, s'). s'\<lparr>pp_workers := (pp_workers s)[k := pc]\<rparr>) (par_worker_step send (pp_workers s ! k) s)
      else None)"
| "par_step grow XShutdown s = Some (pr_Shutdown_close s)"
| "par_step grow XClear s = pr_Shutdown_clear s"
| "par_step grow XPoolStop s =
     Some (s\<lparr>pp_pool_open := False, pp_pool := [], pp_dropped := pp_dropped s @ pp_pool s\<rparr>)"

definition fresh_parallel :: "('t, 'v) ParallelTaskRunner \<Rightarrow> bool" where
  "fresh_parallel r \<longleftrightarrow> (\<exists>mem n. NewParallelTaskRunner mem (Some ()) n = Inr r)"

abbreviation par_reachable :: "(nat \<Rightarrow> nat) \<Rightarrow> ('t, 'v) par_sys \<Rightarrow> bool" where
  "par_reachable grow \<equiv> reach (\<lambda>s. \<exists>r. fresh_parallel r \<and> s = par_init r) (lstep (par_step grow))"

section \<open>The invariant\<close>

fun posted_of :: "'t par_event list \<Rightarrow> 't par_item list" where
  "posted_of [] = []" | "posted_of (EvPosted x # es) = x # posted_of es" | "posted_of (_ # es) = posted_of es"

fun ended_of :: "'t par_event list \<Rightarrow> 't par_item list" where
  "ended_of [] = []" | "ended_of (EvEnd x # es) = x # ended_of es" | "ended_of (_ # es) = ended_of es"

lemma events_append [simp]:
  "posted_of (es @ fs) = posted_of es @ posted_of fs" "ended_of (es @ fs) = ended_of es @ ended_of fs"
  by (induction es rule: posted_of.induct) auto

fun r_own :: "'t par_worker \<Rightarrow> nat" where "r_own RNotify = 0" | "r_own RGone = 0" | "r_own _ = 1"

fun r_item :: "'t par_worker \<Rightarrow> 't par_item list" where "r_item (RInside x) = [x]" | "r_item _ = []"

fun sc_post :: "'t sched_at \<Rightarrow> 't par_item list" where "sc_post (ScAdded x b) = [x]" | "sc_post _ = []"

fun sc_item :: "'t sched_at \<Rightarrow> 't par_item list" where "sc_item (ScItem x) = [x]" | "sc_item _ = []"

fun sc_slot :: "'t sched_at \<Rightarrow> bool" where
  "sc_slot ScPop = True" | "sc_slot (ScItem x) = True" | "sc_slot _ = False"

fun sc_looping :: "'t sched_at \<Rightarrow> bool" where
  "sc_looping ScLoop = True" | "sc_looping ScPop = True" | "sc_looping (ScItem x) = True"
| "sc_looping (ScAdded x b) = b" | "sc_looping _ = False"

definition is_barrier :: "'t par_item \<Rightarrow> bool" where
  "is_barrier x = (case Task x of BarrierTask _ \<Rightarrow> True | UserTask _ \<Rightarrow> False)"

abbreviation pp_contents :: "('t, 'v) par_sys \<Rightarrow> 't par_item list" where
  "pp_contents s \<equiv> fifo_contents (pr_queue (pp_runner s))"

definition par_count_ok :: "('t, 'v) par_sys \<Rightarrow> bool" where
  "par_count_ok s \<longleftrightarrow>
     pr_runningCount (pp_runner s) =
       int (length (sc_post (pp_sched s)) + length (pp_pool s) + weight r_own (pp_workers s) + length (pp_dropped s)) \<and>
     pr_runningCount (pp_runner s) \<le> pr_maxConcurrency (pp_runner s) \<and>
     1 \<le> pr_maxConcurrency (pp_runner s) \<and> pr_maxConcurrency (pp_runner s) \<le> maxAllowedConcurrency \<and>
     (sc_slot (pp_sched s) \<longrightarrow> pr_runningCount (pp_runner s) < pr_maxConcurrency (pp_runner s))"

definition par_tasks_ok :: "('t, 'v) par_sys \<Rightarrow> bool" where
  "par_tasks_ok s \<longleftrightarrow>
     mset (posted_of (pp_log s)) = mset (ended_of (pp_log s)) + mset (sc_post (pp_sched s)) + mset (pp_pool s) +
       held r_item (pp_workers s) + mset (pp_dropped s)"

definition par_line :: "('t, 'v) par_sys \<Rightarrow> 't par_item list" where
  "par_line s = posted_of (pp_log s) @ sc_item (pp_sched s) @
     (case pr_pendingBarrierTask (pp_runner s) of None \<Rightarrow> [] | Some b \<Rightarrow> [b]) @ pp_contents s"

definition par_order_ok :: "('t, 'v) par_sys \<Rightarrow> bool" where
  "par_order_ok s \<longleftrightarrow> subseq (par_line s) (pp_accepted s) \<and> (\<not> pp_cleared s \<longrightarrow> pp_accepted s = par_line s) \<and>
     (sc_looping (pp_sched s) \<longrightarrow> pr_pendingBarrierTask (pp_runner s) = None)"

definition par_ids_ok :: "('t, 'v) par_sys \<Rightarrow> bool" where
  "par_ids_ok s \<longleftrightarrow> (distinct (map ID (pp_accepted s)) \<longrightarrow>
     (\<forall>x \<in> set (sc_item (pp_sched s)) \<union> set (pp_contents s). is_barrier x \<longrightarrow> ID x \<in> pr_barrierTaskIDs (pp_runner s)))"

text \<open>Whenever a barrier was posted, everything posted before had ended.\<close>

definition barrier_log :: "'t par_event list \<Rightarrow> bool" where
  "barrier_log es \<longleftrightarrow> (\<forall>pre b post. es = pre @ EvPosted b # post \<longrightarrow> is_barrier b \<longrightarrow>
     mset (posted_of pre) = mset (ended_of pre))"

definition par_inv :: "('t, 'v) par_sys \<Rightarrow> bool" where
  "par_inv s \<longleftrightarrow> fifo_invar (pr_queue (pp_runner s)) \<and> par_count_ok s \<and> par_tasks_ok s \<and> par_order_ok s \<and>
     par_ids_ok s \<and> (distinct (map ID (pp_accepted s)) \<longrightarrow> barrier_log (pp_log s))"

lemmas par_inv_defs = par_inv_def par_count_ok_def par_tasks_ok_def par_order_ok_def par_line_def par_ids_ok_def

lemma barrier_log_Nil [simp]: "barrier_log []"
  by (simp add: barrier_log_def)

lemma barrier_log_snoc:
  assumes "barrier_log es" "\<And>b. e = EvPosted b \<Longrightarrow> is_barrier b \<Longrightarrow> mset (posted_of es) = mset (ended_of es)"
  shows "barrier_log (es @ [e])"
  unfolding barrier_log_def
proof (intro allI impI)
  fix pre b post
  assume eq: "es @ [e] = pre @ EvPosted b # post" and b: "is_barrier b"
  show "mset (posted_of pre) = mset (ended_of pre)"
  proof (cases post rule: rev_cases)
    case Nil
    with eq assms(2) b show ?thesis by simp
  next
    case (snoc ps p)
    with eq have "es = pre @ EvPosted b # ps" by simp
    with assms(1) b show ?thesis by (auto simp: barrier_log_def)
  qed
qed

lemma barrier_log_plain [simp]: "barrier_log es \<Longrightarrow> barrier_log (es @ [EvBegin x])" "barrier_log es \<Longrightarrow> barrier_log (es @ [EvEnd x])"
  by (auto intro: barrier_log_snoc)

lemma par_inv_init: "fresh_parallel r \<Longrightarrow> par_inv (par_init r)"
  by (auto simp: fresh_parallel_def NewParallelTaskRunner_def par_init_def par_inv_defs
      split: if_splits simp del: fifo_contents_Nil)

lemma par_inv_cong:
  assumes "par_inv s" "pr_queue (pp_runner s') = pr_queue (pp_runner s)"
    "pr_runningCount (pp_runner s') = pr_runningCount (pp_runner s)"
    "pr_maxConcurrency (pp_runner s') = pr_maxConcurrency (pp_runner s)"
    "pr_pendingBarrierTask (pp_runner s') = pr_pendingBarrierTask (pp_runner s)"
    "pr_barrierTaskIDs (pp_runner s') = pr_barrierTaskIDs (pp_runner s)"
    "pp_sched s' = pp_sched s" "pp_pool s' = pp_pool s" "pp_workers s' = pp_workers s" "pp_accepted s' = pp_accepted s"
    "pp_dropped s' = pp_dropped s" "pp_log s' = pp_log s" "pp_cleared s' = pp_cleared s"
  shows "par_inv s'"
proof -
  have "par_inv s' = par_inv s" unfolding par_inv_defs assms(2-) by (rule refl)
  with assms(1) show ?thesis by simp
qed

subsection \<open>The scheduling goroutine moves\<close>

lemma set_sched_at_inv:
  assumes "par_inv s" "sc_post pc = []" "sc_item pc = []" "sc_post (pp_sched s) = []" "sc_item (pp_sched s) = []"
    "sc_slot pc \<Longrightarrow> pr_runningCount (pp_runner s) < pr_maxConcurrency (pp_runner s)"
    "sc_looping pc \<Longrightarrow> pr_pendingBarrierTask (pp_runner s) = None"
  shows "par_inv (set_sched_at pc s)"
  using assms by (simp add: par_inv_defs set_sched_at_def)

lemma par_inv_ops: "par_inv s \<Longrightarrow> par_inv (s\<lparr>pp_ops := ops\<rparr>)"
  by (rule par_inv_cong) simp_all

lemma sched_idle_inv:
  assumes inv: "par_inv s" and pc: "pp_sched s = ScIdle"
  shows "par_inv (op_step op s)"
proof (cases op)
  case OpBarrierDone
  then show ?thesis by (intro par_inv_cong [OF inv]) simp_all
qed (use inv pc in \<open>auto intro: set_sched_at_inv\<close>)

lemma sched_push_inv:
  assumes inv: "par_inv s" and pc: "pp_sched s = ScPush t tr"
    and r: "r = (case t of BarrierTask _ \<Rightarrow> markAsBarrier i (pr_push grow i t tr (pp_runner s)) | UserTask _ \<Rightarrow> pr_push grow i t tr (pp_runner s))"
  shows "par_inv (s\<lparr>pp_runner := r, pp_sched := ScTry, pp_accepted := pp_accepted s @ [\<lparr>Task = t, Traits = tr, ID = i\<rparr>]\<rparr>)"
proof -
  from inv have fi: "fifo_invar (pr_queue (pp_runner s))" by (simp add: par_inv_def)
  note push = fifo_push [OF fi, of grow i t tr]
  have r': "pr_queue r = FIFO_Push grow i t tr (pr_queue (pp_runner s))" "pr_runningCount r = pr_runningCount (pp_runner s)"
    "pr_maxConcurrency r = pr_maxConcurrency (pp_runner s)" "pr_pendingBarrierTask r = pr_pendingBarrierTask (pp_runner s)"
    "pr_barrierTaskIDs r = (if is_barrier \<lparr>Task = t, Traits = tr, ID = i\<rparr> then insert i (pr_barrierTaskIDs (pp_runner s)) else pr_barrierTaskIDs (pp_runner s))"
    unfolding r by (cases t; simp add: markAsBarrier_def pr_push_def is_barrier_def)+
  let ?s = "s\<lparr>pp_runner := r, pp_sched := ScTry, pp_accepted := pp_accepted s @ [\<lparr>Task = t, Traits = tr, ID = i\<rparr>]\<rparr>"
  have line: "par_line ?s = par_line s @ [\<lparr>Task = t, Traits = tr, ID = i\<rparr>]"
    using pc push by (simp add: par_line_def r' fifo_insert_def)
  have "par_order_ok ?s"
    using inv line pc by (auto simp: par_inv_def par_order_ok_def r' list_emb_append_mono)
  moreover have "par_ids_ok ?s"
    using inv pc push by (auto simp: par_inv_def par_ids_ok_def r' fifo_insert_def)
  moreover have "par_count_ok ?s" "par_tasks_ok ?s"
    using inv pc by (simp_all add: par_inv_def par_count_ok_def par_tasks_ok_def r')
  ultimately show ?thesis using inv push by (simp add: par_inv_def r')
qed

text \<open>What an item that leaves the queue, or the pending barrier, knows about the counts.\<close>

lemma nothing_running:
  assumes "par_inv s" "pr_runningCount (pp_runner s) = 0"
  shows "mset (posted_of (pp_log s)) = mset (ended_of (pp_log s))"
proof -
  have "length (sc_post (pp_sched s)) + length (pp_pool s) + weight r_own (pp_workers s) + length (pp_dropped s) = 0"
    using assms unfolding par_inv_def par_count_ok_def by linarith
  then have "sc_post (pp_sched s) = []" "pp_pool s = []" "pp_dropped s = []" and w: "weight r_own (pp_workers s) = 0" by auto
  moreover have "held r_item (pp_workers s) = {#}"
  proof (rule held_empty)
    show "r_item p = []" if "p \<in> set (pp_workers s)" for p
      using w that by (cases p) (auto simp: weight_zero_iff)
  qed
  ultimately show ?thesis using assms(1) by (simp add: par_inv_def par_tasks_ok_def)
qed

lemma begin_post_inv:
  assumes inv: "par_inv s" and post: "sc_post (pp_sched s) = []"
    and r: "pr_queue r = pr_queue (pp_runner s)" "pr_runningCount r = pr_runningCount (pp_runner s) + 1"
      "pr_maxConcurrency r = pr_maxConcurrency (pp_runner s)"
    and room: "pr_runningCount (pp_runner s) < pr_maxConcurrency (pp_runner s)"
    and line: "sc_item (pp_sched s) = [x] \<and> pr_pendingBarrierTask (pp_runner s) = None \<or>
      sc_item (pp_sched s) = [] \<and> pr_pendingBarrierTask (pp_runner s) = Some x \<and> \<not> again" "pr_pendingBarrierTask r = None"
    and ids: "distinct (map ID (pp_accepted s)) \<Longrightarrow>
      \<forall>y \<in> set (pp_contents s). is_barrier y \<longrightarrow> ID y \<in> pr_barrierTaskIDs r"
    and barrier: "distinct (map ID (pp_accepted s)) \<Longrightarrow> is_barrier x \<Longrightarrow> pr_runningCount (pp_runner s) = 0"
  shows "par_inv (begin_post x again r s)"
proof -
  let ?s = "begin_post x again r s"
  have "par_line ?s = par_line s" using line by (auto simp: par_line_def begin_post_def r)
  then have "par_order_ok ?s" using inv line(2) by (simp add: par_inv_def par_order_ok_def begin_post_def)
  moreover have "par_count_ok ?s"
    using inv post room by (simp add: par_inv_def par_count_ok_def begin_post_def r)
  moreover have "par_tasks_ok ?s"
    using inv post by (simp add: par_inv_def par_tasks_ok_def begin_post_def)
  moreover have "par_ids_ok ?s" using ids by (simp add: par_ids_ok_def begin_post_def r)
  moreover have "barrier_log (pp_log ?s)" if "distinct (map ID (pp_accepted ?s))"
  proof -
    have d: "distinct (map ID (pp_accepted s))" using that by (simp add: begin_post_def)
    with inv have "barrier_log (pp_log s)" by (simp add: par_inv_def)
    then show ?thesis
      using nothing_running [OF inv barrier [OF d]] by (auto simp: begin_post_def intro: barrier_log_snoc)
  qed
  ultimately show ?thesis using inv by (simp add: par_inv_def begin_post_def r)
qed

lemma line_distinct:
  assumes "par_inv s" "distinct (map ID (pp_accepted s))"
  shows "distinct (map ID (par_line s))"
proof -
  have "subseq (par_line s) (pp_accepted s)" using assms(1) by (simp add: par_inv_def par_order_ok_def)
  then have "subseq (map ID (par_line s)) (map ID (pp_accepted s))" by (rule subseq_map)
  then show ?thesis using assms(2) by (induction rule: list_emb.induct) (auto dest: list_emb_set)
qed

lemma removed_id_elsewhere:
  assumes "par_inv s" "distinct (map ID (pp_accepted s))"
    and "sc_item (pp_sched s) = [x] \<or> pr_pendingBarrierTask (pp_runner s) = Some x"
  shows "\<forall>y \<in> set (pp_contents s). is_barrier y \<longrightarrow> ID y \<in> pr_barrierTaskIDs (pp_runner s) - {ID x}"
proof -
  have "ID y \<noteq> ID x" if "y \<in> set (pp_contents s)" for y
  proof
    assume "ID y = ID x"
    then have "ID x \<in> ID ` set (pp_contents s)" using that by (metis imageI)
    then show False
      using line_distinct [OF assms(1,2)] assms(3) by (auto simp: par_line_def split: option.splits)
  qed
  then show ?thesis using assms(1,2) by (auto simp: par_inv_def par_ids_ok_def)
qed

lemma sched_pending_inv:
  assumes inv: "par_inv s" and pc: "pp_sched s = ScPending" and b: "pr_pendingBarrierTask (pp_runner s) = Some b"
    and idle: "pr_runningCount (pp_runner s) = 0"
  shows "par_inv (begin_post b False (postBarrierTaskInternal b (pp_runner s)) s)"
proof (rule begin_post_inv [OF inv])
  show "\<forall>y \<in> set (pp_contents s). is_barrier y \<longrightarrow> ID y \<in> pr_barrierTaskIDs (postBarrierTaskInternal b (pp_runner s))"
    if "distinct (map ID (pp_accepted s))"
    using removed_id_elsewhere [OF inv that, of b] b
    by (simp add: postBarrierTaskInternal_def pr_add_running_def removeBarrier_def)
qed (use pc b idle inv in \<open>auto simp: postBarrierTaskInternal_def pr_add_running_def removeBarrier_def par_inv_def par_count_ok_def\<close>)

lemma sched_pop_inv:
  assumes inv: "par_inv s" and pc: "pp_sched s = ScPop" and pop: "fifo_pop_item (pr_queue (pp_runner s)) = (Some x, q)"
  shows "par_inv (s\<lparr>pp_runner := (pp_runner s)\<lparr>pr_queue := q\<rparr>, pp_sched := ScItem x\<rparr>)"
proof -
  let ?s = "s\<lparr>pp_runner := (pp_runner s)\<lparr>pr_queue := q\<rparr>, pp_sched := ScItem x\<rparr>"
  from inv have fi: "fifo_invar (pr_queue (pp_runner s))" by (simp add: par_inv_def)
  have ne: "pp_contents s \<noteq> []" using fifo.pop_empty [OF fi] pop by auto
  then obtain y ys where c: "pp_contents s = y # ys" by (cases "pp_contents s") auto
  from fifo.pop_Cons [OF fi c] pop have q: "y = x" "fifo_contents q = ys" "fifo_invar q" by auto
  have pend: "pr_pendingBarrierTask (pp_runner s) = None" using inv pc by (simp add: par_inv_def par_order_ok_def)
  have "par_line ?s = par_line s" using c q pc pend by (simp add: par_line_def)
  then have "par_order_ok ?s" using inv pend by (simp add: par_inv_def par_order_ok_def)
  moreover have "par_ids_ok ?s" using inv c q pc by (auto simp: par_inv_def par_ids_ok_def)
  moreover have "par_count_ok ?s" "par_tasks_ok ?s"
    using inv pc by (simp_all add: par_inv_def par_count_ok_def par_tasks_ok_def)
  ultimately show ?thesis using inv q by (simp add: par_inv_def)
qed

lemma sched_item_inv:
  assumes inv: "par_inv s" and pc: "pp_sched s = ScItem x"
    and st: "sched_step grow i s = Some s'"
  shows "par_inv s'"
proof -
  have pend: "pr_pendingBarrierTask (pp_runner s) = None" and room: "pr_runningCount (pp_runner s) < pr_maxConcurrency (pp_runner s)"
    using inv pc by (simp_all add: par_inv_def par_order_ok_def par_count_ok_def)
  have rem: "\<forall>y \<in> set (pp_contents s). is_barrier y \<longrightarrow> ID y \<in> pr_barrierTaskIDs (pp_runner s) - {ID x}"
    if "distinct (map ID (pp_accepted s))"
    using removed_id_elsewhere [OF inv that, of x] pc by simp
  show ?thesis
  proof (cases "isBarrierTaskID (ID x) (pp_runner s)")
    case False
    have "is_barrier x \<Longrightarrow> distinct (map ID (pp_accepted s)) \<Longrightarrow> False"
      using False inv pc by (auto simp: par_inv_def par_ids_ok_def isBarrierTaskID_def)
    moreover have "s' = begin_post x True (pr_add_running 1 (pp_runner s)) s" using st pc False by simp
    ultimately show ?thesis
      using pc pend room inv rem by (auto intro!: begin_post_inv [OF inv] simp: pr_add_running_def)
  next
    case True
    show ?thesis
    proof (cases "pr_runningCount (pp_runner s) = 0")
      case True
      with st pc \<open>isBarrierTaskID (ID x) (pp_runner s)\<close>
      have "s' = begin_post x False (pr_add_running 1 (removeBarrier (ID x) (pp_runner s))) s" by (simp add: Let_def)
      then show ?thesis
        using pc pend room inv rem True by (auto intro!: begin_post_inv [OF inv] simp: pr_add_running_def removeBarrier_def)
    next
      case False
      with st pc \<open>isBarrierTaskID (ID x) (pp_runner s)\<close>
      have s': "s' = s\<lparr>pp_runner := (removeBarrier (ID x) (pp_runner s))\<lparr>pr_pendingBarrierTask := Some x\<rparr>, pp_sched := ScIdle\<rparr>"
        by (simp add: Let_def)
      have "par_line s' = par_line s" using pc pend by (simp add: par_line_def s' removeBarrier_def)
      then have "par_order_ok s'" using inv by (simp add: par_inv_def par_order_ok_def s')
      moreover have "par_ids_ok s'" using rem by (simp add: par_ids_ok_def s' removeBarrier_def)
      moreover have "par_count_ok s'" "par_tasks_ok s'"
        using inv pc by (simp_all add: par_inv_def par_count_ok_def par_tasks_ok_def s' removeBarrier_def)
      ultimately show ?thesis using inv by (simp add: par_inv_def s' removeBarrier_def)
    qed
  qed
qed

lemma sched_added_inv:
  assumes inv: "par_inv s" and pc: "pp_sched s = ScAdded x again" and st: "sched_step grow i s = Some s'"
  shows "par_inv s'"
proof -
  have s': "s' = (let t = set_sched_at (if again then ScLoop else ScIdle) s in
      if pp_pool_open s then t\<lparr>pp_pool := pp_pool s @ [x]\<rparr> else t\<lparr>pp_dropped := pp_dropped s @ [x]\<rparr>)"
    using st pc by (simp add: Let_def)
  have pend: "again \<Longrightarrow> pr_pendingBarrierTask (pp_runner s) = None" using inv pc by (simp add: par_inv_def par_order_ok_def)
  have "par_line s' = par_line s" using pc by (simp add: par_line_def s' set_sched_at_def Let_def)
  then have "par_order_ok s'" using inv pend by (simp add: par_inv_def par_order_ok_def s' set_sched_at_def Let_def)
  moreover have "par_tasks_ok s'"
    using inv pc by (simp add: par_inv_def par_tasks_ok_def s' set_sched_at_def Let_def)
  moreover have "par_count_ok s'"
    using inv pc by (simp add: par_inv_def par_count_ok_def s' set_sched_at_def Let_def)
  moreover have "par_ids_ok s'" using inv pc by (simp add: par_inv_def par_ids_ok_def s' set_sched_at_def Let_def)
  ultimately show ?thesis using inv by (simp add: par_inv_def s' set_sched_at_def Let_def)
qed

lemma sched_step_inv:
  assumes inv: "par_inv s" and st: "sched_step grow i s = Some s'"
  shows "par_inv s'"
proof (cases "pp_sched s")
  case ScIdle
  with st obtain op ops where "s' = op_step op (s\<lparr>pp_ops := ops\<rparr>)" by (auto simp: Let_def split: list.splits)
  then show ?thesis using par_inv_ops [OF inv] ScIdle by (auto intro: sched_idle_inv)
next
  case (ScPush t tr)
  with st sched_push_inv [OF inv ScPush refl, of i grow] show ?thesis by (auto simp: Let_def)
next
  case ScTry
  with inv st show ?thesis by (auto intro!: set_sched_at_inv simp: Let_def split: if_splits)
next
  case ScPending
  with inv st sched_pending_inv [OF inv ScPending] show ?thesis
    by (auto simp: Let_def intro: set_sched_at_inv split: option.splits if_splits)
next
  case ScLoop
  then have "pr_pendingBarrierTask (pp_runner s) = None" using inv by (simp add: par_inv_def par_order_ok_def)
  with ScLoop inv st show ?thesis
    by (auto intro!: set_sched_at_inv simp: Let_def split: if_splits)
next
  case ScPop
  with inv st sched_pop_inv [OF inv ScPop] show ?thesis
    by (auto simp: Let_def intro: set_sched_at_inv split: option.splits prod.splits)
next
  case (ScItem x)
  from sched_item_inv [OF inv ScItem st] show ?thesis .
next
  case (ScAdded x b)
  from sched_added_inv [OF inv ScAdded st] show ?thesis .
qed

subsection \<open>The other goroutines move\<close>

lemma sched_post_inv:
  assumes "par_inv s" "sched_post send op s = Some s'"
  shows "par_inv s'"
  using assms by (auto simp: sched_post_def par_inv_ops split: if_splits)

lemma worker_moves_inv:
  assumes inv: "par_inv s" and k: "k < length (pp_workers s)"
    and pc: "r_own pc = r_own (pp_workers s ! k)" "r_item pc = r_item (pp_workers s ! k)"
  shows "par_inv (s\<lparr>pp_workers := (pp_workers s)[k := pc]\<rparr>)"
proof -
  have "weight r_own ((pp_workers s)[k := pc]) = weight r_own (pp_workers s)"
    using weight_update [OF k, of r_own pc] pc by simp
  moreover have "held r_item ((pp_workers s)[k := pc]) = held r_item (pp_workers s)"
    using held_update [OF k, of r_item pc] pc by simp
  ultimately have "par_count_ok (s\<lparr>pp_workers := (pp_workers s)[k := pc]\<rparr>)" "par_tasks_ok (s\<lparr>pp_workers := (pp_workers s)[k := pc]\<rparr>)"
    using inv by (auto simp: par_inv_def par_count_ok_def par_tasks_ok_def)
  then show ?thesis
    using inv by (simp add: par_inv_def par_order_ok_def par_line_def par_ids_ok_def)
qed

lemma worker_inside_inv:
  assumes inv: "par_inv s" and k: "k < length (pp_workers s)" and x: "pp_workers s ! k = RInside x"
    and pc: "pc = RDefer \<or> pc = RDec"
  shows "par_inv (s\<lparr>pp_log := pp_log s @ [EvEnd x], pp_workers := (pp_workers s)[k := pc]\<rparr>)"
proof -
  let ?s = "s\<lparr>pp_log := pp_log s @ [EvEnd x], pp_workers := (pp_workers s)[k := pc]\<rparr>"
  have "weight r_own ((pp_workers s)[k := pc]) = weight r_own (pp_workers s)"
    using weight_update [OF k, of r_own pc] pc x by auto
  then have "par_count_ok ?s" using inv by (auto simp: par_inv_def par_count_ok_def)
  moreover have "held r_item (pp_workers s) = add_mset x (held r_item ((pp_workers s)[k := pc]))"
    using held_update [OF k, of r_item pc] pc x by auto
  then have "par_tasks_ok ?s" using inv by (simp add: par_inv_def par_tasks_ok_def)
  moreover have "par_line ?s = par_line s" by (simp add: par_line_def)
  then have "par_order_ok ?s" using inv by (simp add: par_inv_def par_order_ok_def)
  ultimately show ?thesis using inv by (simp add: par_inv_def par_ids_ok_def)
qed

lemma worker_dec_inv:
  assumes inv: "par_inv s" and k: "k < length (pp_workers s)" and x: "pp_workers s ! k = RDec"
  shows "par_inv (s\<lparr>pp_runner := pr_add_running (- 1) (pp_runner s), pp_workers := (pp_workers s)[k := RNotify]\<rparr>)"
proof -
  let ?s = "s\<lparr>pp_runner := pr_add_running (- 1) (pp_runner s), pp_workers := (pp_workers s)[k := RNotify]\<rparr>"
  have "weight r_own (pp_workers s) = Suc (weight r_own ((pp_workers s)[k := RNotify]))"
    using weight_update [OF k, of r_own RNotify] x by simp
  then have "par_count_ok ?s" using inv by (auto simp: par_inv_def par_count_ok_def pr_add_running_def)
  moreover have "held r_item ((pp_workers s)[k := RNotify]) = held r_item (pp_workers s)"
    using held_update [OF k, of r_item RNotify] x by simp
  then have "par_tasks_ok ?s" using inv by (simp add: par_inv_def par_tasks_ok_def)
  moreover have "par_line ?s = par_line s" by (simp add: par_line_def pr_add_running_def)
  then have "par_order_ok ?s" using inv by (simp add: par_inv_def par_order_ok_def pr_add_running_def)
  ultimately show ?thesis using inv by (simp add: par_inv_def par_ids_ok_def pr_add_running_def)
qed

lemma par_worker_inv:
  assumes inv: "par_inv s" and k: "k < length (pp_workers s)"
    and st: "par_worker_step send (pp_workers s ! k) s = Some (pc, s1)"
  shows "par_inv (s1\<lparr>pp_workers := (pp_workers s)[k := pc]\<rparr>)"
proof (cases "pp_workers s ! k")
  case (RInside x)
  with st worker_inside_inv [OF inv k RInside] show ?thesis by (auto split: par_task.splits)
next
  case RDec
  with st worker_dec_inv [OF inv k RDec] show ?thesis by auto
next
  case RGone
  with st show ?thesis by simp
next
  case RDefer
  with st have "pc = RDec" "sched_post send OpBarrierDone s = Some s1" by auto
  moreover from this(2) have "pp_workers s1 = pp_workers s" by (auto simp: sched_post_def split: if_splits)
  ultimately show ?thesis
    using worker_moves_inv [OF sched_post_inv [OF inv], of send OpBarrierDone s1 k RDec] k RDefer by simp
next
  case RNotify
  with st have "pc = RGone" "sched_post send OpTry s = Some s1" by auto
  moreover from this(2) have "pp_workers s1 = pp_workers s" by (auto simp: sched_post_def split: if_splits)
  ultimately show ?thesis
    using worker_moves_inv [OF sched_post_inv [OF inv], of send OpTry s1 k RGone] k RNotify by simp
qed

lemma pool_start_inv:
  assumes inv: "par_inv s" and k: "k < length (pp_pool s)"
  shows "par_inv (s\<lparr>pp_pool := take k (pp_pool s) @ drop (Suc k) (pp_pool s),
     pp_workers := pp_workers s @ [RInside (pp_pool s ! k)], pp_log := pp_log s @ [EvBegin (pp_pool s ! k)]\<rparr>)"
    (is "par_inv ?s")
proof -
  have split: "pp_pool s = take k (pp_pool s) @ pp_pool s ! k # drop (Suc k) (pp_pool s)"
    using k by (simp add: id_take_nth_drop)
  have "length (pp_pool s) = Suc (length (take k (pp_pool s) @ drop (Suc k) (pp_pool s)))" using k by simp
  then have "par_count_ok ?s" using inv by (auto simp: par_inv_def par_count_ok_def)
  moreover have "mset (pp_pool s) = add_mset (pp_pool s ! k) (mset (take k (pp_pool s) @ drop (Suc k) (pp_pool s)))"
    by (subst split) simp
  then have "par_tasks_ok ?s" using inv by (simp add: par_inv_def par_tasks_ok_def)
  moreover have "par_line ?s = par_line s" by (simp add: par_line_def)
  then have "par_order_ok ?s" using inv by (simp add: par_inv_def par_order_ok_def)
  ultimately show ?thesis using inv by (simp add: par_inv_def par_ids_ok_def)
qed

lemma shutdown_clear_inv:
  assumes inv: "par_inv s" and st: "pr_Shutdown_clear s = Some s'"
  shows "par_inv s'"
proof -
  have s': "s' = s\<lparr>pp_runner := (pp_runner s)\<lparr>pr_queue := FIFO_Clear (pr_queue (pp_runner s)), pr_shutdownChan_closed := True\<rparr>,
      pp_sched_closed := True, pp_cleared := True\<rparr>"
    using st by (auto simp: pr_Shutdown_clear_def split: if_splits)
  have c: "fifo_invar (FIFO_Clear (pr_queue (pp_runner s)))" "fifo_contents (FIFO_Clear (pr_queue (pp_runner s))) = []"
    by (rule fifo_clear)+
  have "par_line s = par_line s' @ pp_contents s" using c(2) by (simp only: par_line_def s') simp
  then have "subseq (par_line s') (par_line s)" by (metis prefixI prefix_imp_subseq)
  then have "par_order_ok s'"
    using inv by (auto simp: par_inv_def par_order_ok_def s' intro: subseq_order.trans)
  moreover have "par_count_ok s'" "par_tasks_ok s'"
    using inv by (auto simp: par_inv_def par_count_ok_def par_tasks_ok_def s')
  moreover have "par_ids_ok s'" using inv c(2) by (auto simp: par_inv_def par_ids_ok_def s')
  ultimately show ?thesis using inv c by (simp add: par_inv_def s')
qed

lemma pool_stopped_inv:
  assumes inv: "par_inv s"
  shows "par_inv (s\<lparr>pp_pool_open := False, pp_pool := [], pp_dropped := pp_dropped s @ pp_pool s\<rparr>)" (is "par_inv ?s")
proof -
  have "par_count_ok ?s" using inv by (auto simp: par_inv_def par_count_ok_def)
  moreover have "par_tasks_ok ?s" using inv by (simp add: par_inv_def par_tasks_ok_def)
  moreover have "par_order_ok ?s" "par_ids_ok ?s"
    using inv by (simp_all add: par_inv_def par_order_ok_def par_line_def par_ids_ok_def)
  ultimately show ?thesis using inv by (simp add: par_inv_def)
qed

lemma par_step_inv:
  assumes inv: "par_inv s" and st: "par_step grow l s = Some s'"
  shows "par_inv s'"
proof (cases l)
  case (XPost t tr send)
  with st sched_post_inv [OF inv] show ?thesis by simp
next
  case (XFlush t send)
  with st sched_post_inv [OF inv] show ?thesis by simp
next
  case (XSched i)
  with st have "sched_step grow i s = Some s'" by (simp only: par_step.simps)
  then show ?thesis by (rule sched_step_inv [OF inv])
next
  case (XWork k)
  with st pool_start_inv [OF inv, of k] show ?thesis by (auto split: if_splits)
next
  case (XWorker k send)
  with st par_worker_inv [OF inv, of k send] show ?thesis by (auto split: if_splits)
next
  case XShutdown
  with st have "s' = pr_Shutdown_close s" by simp
  then show ?thesis by (intro par_inv_cong [OF inv]) (simp_all add: pr_Shutdown_close_def)
next
  case XClear
  with st shutdown_clear_inv [OF inv] show ?thesis by simp
next
  case XPoolStop
  with st pool_stopped_inv [OF inv] show ?thesis by simp
qed

interpretation pars: inv_system "\<lambda>s. \<exists>r. fresh_parallel r \<and> s = par_init r" "lstep (par_step grow)" par_inv for grow
  by unfold_locales (auto simp: par_inv_init lstep_def intro: par_step_inv simp del: par_step.simps)

section \<open>The properties\<close>

definition ex_par_runner :: "(nat, unit) ParallelTaskRunner" where
  "ex_par_runner = (case NewParallelTaskRunner [] (Some ()) 2 of Inr r \<Rightarrow> r | Inl _ \<Rightarrow> undefined)"

lemma ex_par_fresh: "fresh_parallel ex_par_runner"
proof -
  have "NewParallelTaskRunner [] (Some ()) 2 = Inr ex_par_runner"
    by (simp add: ex_par_runner_def NewParallelTaskRunner_def maxAllowedConcurrency_def)
  then show ?thesis unfolding fresh_parallel_def by blast
qed

text \<open>
  An idle runner with two slots: a barrier is posted and handed to the pool, then a task is posted,
  handed to the pool and executed.
\<close>

definition ex_par_labels :: "nat par_label list" where
  "ex_par_labels = [XFlush 1 True] @ replicate 8 (XSched 1) @ [XPost 3 DefaultTaskTraits True] @ replicate 8 (XSched 2) @
     [XWork 1, XWorker 0 True]"

definition ex_par :: "(nat, unit) par_sys" where
  "ex_par = the (run (par_step id) ex_par_labels (par_init ex_par_runner))"

abbreviation "ex_barrier \<equiv> \<lparr>Task = BarrierTask (1 :: nat), Traits = TraitsUserBlocking, ID = 1\<rparr>"
abbreviation "ex_later \<equiv> \<lparr>Task = UserTask (3 :: nat), Traits = DefaultTaskTraits, ID = 2\<rparr>"

lemma ex_par_state:
  "pp_log ex_par = [EvPosted ex_barrier, EvPosted ex_later, EvBegin ex_later, EvEnd ex_later]"
  "pp_accepted ex_par = [ex_barrier, ex_later]" "pp_cleared ex_par = False"
  "pr_runningCount (pp_runner ex_par) = 2"
  by code_simp+

lemma ex_par_reachable: "par_reachable id ex_par"
proof -
  have "run (par_step id) ex_par_labels (par_init ex_par_runner) \<noteq> None" by code_simp
  then have "run (par_step id) ex_par_labels (par_init ex_par_runner) = Some ex_par"
    unfolding ex_par_def by (metis option.exhaust_sel)
  then show ?thesis by (rule run_reach [rotated]) (use ex_par_fresh in \<open>auto intro: reach_init\<close>)
qed

lemma inside_le_own: "size (held r_item ws) \<le> weight r_own ws"
proof (induction ws)
  case (Cons w ws)
  then show ?case by (cases w) auto
qed simp

text \<open>
  C10: A parallel runner never exceeds its limit. In every reachable state \<^verbatim>\<open>runningCount\<close> lies
  between 0 and \<^verbatim>\<open>maxConcurrency\<close>, which is at most 10000 (so the 32-bit counter never wraps), and
  no more than \<^verbatim>\<open>maxConcurrency\<close> workers are inside one of its tasks.
\<close>

theorem parallel_concurrency_bound:
  assumes "par_reachable grow s"
  shows "0 \<le> pr_runningCount (pp_runner s) \<and> pr_runningCount (pp_runner s) \<le> pr_maxConcurrency (pp_runner s) \<and>
         pr_maxConcurrency (pp_runner s) \<le> 10000 \<and>
         int (size (held r_item (pp_workers s))) \<le> pr_runningCount (pp_runner s)"
proof -
  have "par_count_ok s" using pars.holds_reach [OF assms] by (simp add: par_inv_def)
  with inside_le_own [of "pp_workers s"] show ?thesis
    by (auto simp: par_count_ok_def maxAllowedConcurrency_def)
qed

theorem parallel_concurrency_bound_witness:
  "(2 :: int) \<le> pr_maxConcurrency (pp_runner ex_par)"
  using parallel_concurrency_bound [OF ex_par_reachable] by (simp add: ex_par_state)

text \<open>
  C12: Tasks are handed to the pool in the order of acceptance and none is lost. Unless the runner
  was shut down, the tasks handed over so far are the first ones accepted; and in every reachable
  state they are exactly the ended ones, the ones being handed over, waiting in the pool or running,
  and the ones the pool dropped when it was stopped.
\<close>

theorem parallel_fifo_handoff:
  assumes "par_reachable grow s"
  shows "subseq (posted_of (pp_log s)) (pp_accepted s) \<and>
         (\<not> pp_cleared s \<longrightarrow> prefix (posted_of (pp_log s)) (pp_accepted s)) \<and>
         mset (posted_of (pp_log s)) = mset (ended_of (pp_log s)) + mset (sc_post (pp_sched s)) + mset (pp_pool s) +
           held r_item (pp_workers s) + mset (pp_dropped s)"
proof -
  have inv: "par_inv s" using pars.holds_reach [OF assms] .
  have line: "prefix (posted_of (pp_log s)) (par_line s)" by (simp add: par_line_def)
  from inv have "subseq (par_line s) (pp_accepted s)" "\<not> pp_cleared s \<longrightarrow> pp_accepted s = par_line s"
    by (simp_all add: par_inv_def par_order_ok_def)
  with line have "subseq (posted_of (pp_log s)) (pp_accepted s)"
    "\<not> pp_cleared s \<longrightarrow> prefix (posted_of (pp_log s)) (pp_accepted s)"
    by (auto intro: subseq_order.trans dest: prefix_imp_subseq)
  with inv show ?thesis by (simp add: par_inv_def par_tasks_ok_def)
qed

theorem parallel_fifo_handoff_witness:
  "prefix [ex_barrier, ex_later] (pp_accepted ex_par)"
  using parallel_fifo_handoff [OF ex_par_reachable] by (simp add: ex_par_state)

text \<open>
  C11: A barrier waits for everything before it. With unique task identifiers, whenever the barrier
  of \<^verbatim>\<open>WaitIdle\<close> or \<^verbatim>\<open>FlushAsync\<close> is handed to the pool, every task handed over before has ended;
  and unless the runner was shut down these are exactly the tasks accepted before the barrier.
\<close>

theorem parallel_barrier_waits:
  assumes "par_reachable grow s" "distinct (map ID (pp_accepted s))"
    and "pp_log s = pre @ EvPosted b # post" "is_barrier b"
  shows "mset (posted_of pre) = mset (ended_of pre) \<and>
         (\<not> pp_cleared s \<longrightarrow> prefix (posted_of pre @ [b]) (pp_accepted s))"
proof -
  have inv: "par_inv s" using pars.holds_reach [OF assms(1)] .
  then have "barrier_log (pp_log s)" using assms(2) by (simp add: par_inv_def)
  then have "mset (posted_of pre) = mset (ended_of pre)" using assms(3,4) by (auto simp: barrier_log_def)
  moreover have "prefix (posted_of pre @ [b]) (pp_accepted s)" if "\<not> pp_cleared s"
    using inv that by (simp add: par_inv_def par_order_ok_def par_line_def assms(3))
  ultimately show ?thesis by blast
qed

theorem parallel_barrier_waits_witness:
  "mset (posted_of ([] :: nat par_event list)) = mset (ended_of []) \<and> prefix [ex_barrier] (pp_accepted ex_par)"
  using parallel_barrier_waits [OF ex_par_reachable, of "[]" ex_barrier "[EvPosted ex_later, EvBegin ex_later, EvEnd ex_later]"]
  by (simp add: ex_par_state is_barrier_def)

text \<open>
  C36: On an idle runner a task posted after \<^verbatim>\<open>FlushAsync\<close> can run before the callback. The branch of
  \<^verbatim>\<open>tryScheduleInternal\<close> that posts a barrier at once does not set \<^verbatim>\<open>barrierTaskRunning\<close>, so the next
  scheduling round starts later tasks: here one has begun and ended while the callback has not begun.
\<close>

theorem flush_overtaken_by_later_task:
  "\<exists>s :: (nat, unit) par_sys. par_reachable id s \<and> pp_accepted s = [ex_barrier, ex_later] \<and>
     pp_log s = [EvPosted ex_barrier, EvPosted ex_later, EvBegin ex_later, EvEnd ex_later]"
  using ex_par_reachable ex_par_state by blast

end
