(* ===== verification/Task_And_Reply.thy ===== *)
theory Task_And_Reply
  imports Task_Scheduler
begin

text \<open>
  The task-and-reply pattern of \<^verbatim>\<open>core/task_and_reply.go\<close> and its re-exports in \<^verbatim>\<open>reply.go\<close>. A Go
  closure is a value of the datatype \<open>closure\<close>, one constructor for each closure that the code
  builds, over user functions of the types \<open>'t\<close> (a task), \<open>'u\<close> (a task with a result) and
  \<open>'k\<close> (a reply). What a user function does is given by an environment: it changes the state
  \<open>'w\<close> of the program and returns or panics. Captured variables live in numbered cells; posts to
  runners and calls on handlers are recorded in order.
\<close>

section \<open>Closures and their execution\<close>

record 'h panicRecoveryContext =
  prc_handler :: "'h handler option"
  prc_metrics :: "'h handler option"
  prc_runnerName :: string
  prc_workerID :: int

datatype ('t, 'u, 'k, 'r, 'h) closure =
    PlainTask 't
  | StoreResult 'u nat
  | ReplyResult 'k nat
  | ThenReply "('t, 'u, 'k, 'r, 'h) closure" "'h panicRecoveryContext"
      "(('t, 'u, 'k, 'r, 'h) closure \<times> TaskTraits \<times> 'r) option"
  | DelayedThenReply "('t, 'u, 'k, 'r, 'h) closure" 'r
      "(('t, 'u, 'k, 'r, 'h) closure \<times> TaskTraits \<times> 'r) option"

datatype 'p outcome = Returned | Panicked 'p

datatype ('t, 'u, 'k, 'r, 'h) post =
    PostTask 'r "('t, 'u, 'k, 'r, 'h) closure" TaskTraits
  | PostDelayed 'r "('t, 'u, 'k, 'r, 'h) closure" int TaskTraits

datatype 'p recovery_call = CallHandler string int 'p | PrintPanic 'p | CallRecordPanic string 'p

record ('t, 'u, 'k, 'r, 'h, 'p, 'v, 'e, 'w) prog =
  pg_world :: 'w
  pg_cells :: "nat \<Rightarrow> ('v \<times> 'e) option"
  pg_next_cell :: nat
  pg_posts :: "('t, 'u, 'k, 'r, 'h) post list"
  pg_calls :: "'p recovery_call list"

text \<open>
  What the code asks of a target runner: the name, and of its pool the two handlers of the
  scheduler (\<open>None\<close> when there is no pool, or none with a scheduler).
\<close>

record ('t, 'u, 'k, 'r, 'h, 'p, 'v, 'e, 'w) env =
  env_task :: "'t \<Rightarrow> 'w \<Rightarrow> 'p outcome \<times> 'w"
  env_task_result :: "'u \<Rightarrow> 'w \<Rightarrow> ('p + 'v \<times> 'e) \<times> 'w"
  env_reply :: "'k \<Rightarrow> 'v \<times> 'e \<Rightarrow> 'w \<Rightarrow> 'p outcome \<times> 'w"
  env_zero :: "'v \<times> 'e"
  env_name :: "'r \<Rightarrow> string"
  env_pool :: "'r \<Rightarrow> ('h handler option \<times> 'h handler option) option"

definition getPanicRecovery ::
  "('h handler option \<times> 'h handler option) option \<Rightarrow> string \<Rightarrow> 'h panicRecoveryContext" where
  "getPanicRecovery tp runnerName =
     (case tp of
        None \<Rightarrow> \<lparr>prc_handler = None, prc_metrics = None, prc_runnerName = [], prc_workerID = 0\<rparr>
      | Some (h, m) \<Rightarrow> \<lparr>prc_handler = h, prc_metrics = m, prc_runnerName = runnerName, prc_workerID = - 1\<rparr>)"

text \<open>The deferred function of \<^verbatim>\<open>executeTaskWithRecovery\<close> after a panic with value \<open>p\<close>.\<close>

definition recovery_calls :: "'h panicRecoveryContext \<Rightarrow> 'p \<Rightarrow> 'p recovery_call list" where
  "recovery_calls prc p =
     (case prc_handler prc of
        Some _ \<Rightarrow> [CallHandler (prc_runnerName prc) (prc_workerID prc) p]
      | None \<Rightarrow> [PrintPanic p]) @
     (case prc_metrics prc of Some _ \<Rightarrow> [CallRecordPanic (prc_runnerName prc) p] | None \<Rightarrow> [])"

definition executeTaskWithRecovery ::
  "'h panicRecoveryContext \<Rightarrow> 'p outcome \<times> ('t, 'u, 'k, 'r, 'h, 'p, 'v, 'e, 'w) prog \<Rightarrow>
     bool \<times> ('t, 'u, 'k, 'r, 'h, 'p, 'v, 'e, 'w) prog" where
  "executeTaskWithRecovery prc res =
     (case res of
        (Returned, s) \<Rightarrow> (False, s)
      | (Panicked p, s) \<Rightarrow> (True, s\<lparr>pg_calls := pg_calls s @ recovery_calls prc p\<rparr>))"

definition post_reply ::
  "(('t, 'u, 'k, 'r, 'h) closure \<times> TaskTraits \<times> 'r) option \<Rightarrow> bool \<times> ('t, 'u, 'k, 'r, 'h, 'p, 'v, 'e, 'w) prog \<Rightarrow>
     ('t, 'u, 'k, 'r, 'h, 'p, 'v, 'e, 'w) prog" where
  "post_reply reply res =
     (case res of (panicked, s) \<Rightarrow>
        if \<not> panicked then
          (case reply of None \<Rightarrow> s | Some (c, tr, r) \<Rightarrow> s\<lparr>pg_posts := pg_posts s @ [PostTask r c tr]\<rparr>)
        else s)"

primrec run_closure ::
  "('t, 'u, 'k, 'r, 'h, 'p, 'v, 'e, 'w) env \<Rightarrow> ('t, 'u, 'k, 'r, 'h) closure \<Rightarrow>
     ('t, 'u, 'k, 'r, 'h, 'p, 'v, 'e, 'w) prog \<Rightarrow> 'p outcome \<times> ('t, 'u, 'k, 'r, 'h, 'p, 'v, 'e, 'w) prog" where
  "run_closure env (PlainTask t) s = (case env_task env t (pg_world s) of (o1, w) \<Rightarrow> (o1, s\<lparr>pg_world := w\<rparr>))"
| "run_closure env (StoreResult u k) s =
     (case env_task_result env u (pg_world s) of
        (Inl p, w) \<Rightarrow> (Panicked p, s\<lparr>pg_world := w\<rparr>)
      | (Inr ve, w) \<Rightarrow> (Returned, s\<lparr>pg_world := w, pg_cells := (pg_cells s)(k \<mapsto> ve)\<rparr>))"
| "run_closure env (ReplyResult c k) s =
     (case env_reply env c (case pg_cells s k of None \<Rightarrow> env_zero env | Some ve \<Rightarrow> ve) (pg_world s) of
        (o1, w) \<Rightarrow> (o1, s\<lparr>pg_world := w\<rparr>))"
| "run_closure env (ThenReply c prc reply) s =
     (Returned, post_reply reply (executeTaskWithRecovery prc (run_closure env c s)))"
| "run_closure env (DelayedThenReply c target reply) s =
     (Returned, post_reply reply
        (executeTaskWithRecovery (getPanicRecovery (env_pool env target) (env_name env target)) (run_closure env c s)))"

section \<open>The posting functions\<close>

definition pg_post ::
  "('t, 'u, 'k, 'r, 'h) post \<Rightarrow> ('t, 'u, 'k, 'r, 'h, 'p, 'v, 'e, 'w) prog \<Rightarrow> ('t, 'u, 'k, 'r, 'h, 'p, 'v, 'e, 'w) prog" where
  "pg_post p s = s\<lparr>pg_posts := pg_posts s @ [p]\<rparr>"

definition postTaskAndReplyInternalWithTraits ::
  "('t, 'u, 'k, 'r, 'h, 'p, 'v, 'e, 'w) env \<Rightarrow> 'r \<Rightarrow> ('t, 'u, 'k, 'r, 'h) closure \<Rightarrow> TaskTraits \<Rightarrow>
     ('t, 'u, 'k, 'r, 'h) closure \<Rightarrow> TaskTraits \<Rightarrow> 'r option \<Rightarrow>
     ('t, 'u, 'k, 'r, 'h, 'p, 'v, 'e, 'w) prog \<Rightarrow> ('t, 'u, 'k, 'r, 'h, 'p, 'v, 'e, 'w) prog" where
  "postTaskAndReplyInternalWithTraits env target task taskTraits reply replyTraits replyRunner s =
     (let prc = getPanicRecovery (env_pool env target) (env_name env target) in
      case replyRunner of
        None \<Rightarrow> pg_post (PostTask target (ThenReply task prc None) taskTraits) s
      | Some r \<Rightarrow> pg_post (PostTask target (ThenReply task prc (Some (reply, replyTraits, r))) taskTraits) s)"

definition postTaskAndReplyInternal ::
  "('t, 'u, 'k, 'r, 'h, 'p, 'v, 'e, 'w) env \<Rightarrow> 'r \<Rightarrow> ('t, 'u, 'k, 'r, 'h) closure \<Rightarrow> TaskTraits \<Rightarrow>
     ('t, 'u, 'k, 'r, 'h) closure \<Rightarrow> 'r option \<Rightarrow>
     ('t, 'u, 'k, 'r, 'h, 'p, 'v, 'e, 'w) prog \<Rightarrow> ('t, 'u, 'k, 'r, 'h, 'p, 'v, 'e, 'w) prog" where
  "postTaskAndReplyInternal env target task taskTraits reply replyRunner s =
     postTaskAndReplyInternalWithTraits env target task taskTraits reply DefaultTaskTraits replyRunner s"

text \<open>The methods of the sequenced, the parallel and the single-thread runner \<open>self\<close>.\<close>

definition sr_PostTaskAndReply ::
  "('t, 'u, 'k, 'r, 'h, 'p, 'v, 'e, 'w) env \<Rightarrow> 'r \<Rightarrow> ('t, 'u, 'k, 'r, 'h) closure \<Rightarrow>
     ('t, 'u, 'k, 'r, 'h) closure \<Rightarrow> 'r option \<Rightarrow>
     ('t, 'u, 'k, 'r, 'h, 'p, 'v, 'e, 'w) prog \<Rightarrow> ('t, 'u, 'k, 'r, 'h, 'p, 'v, 'e, 'w) prog" where
  "sr_PostTaskAndReply env self task reply replyRunner s =
     postTaskAndReplyInternal env self task DefaultTaskTraits reply replyRunner s"

definition sr_PostTaskAndReplyWithTraits ::
  "('t, 'u, 'k, 'r, 'h, 'p, 'v, 'e, 'w) env \<Rightarrow> 'r \<Rightarrow> ('t, 'u, 'k, 'r, 'h) closure \<Rightarrow> TaskTraits \<Rightarrow>
     ('t, 'u, 'k, 'r, 'h) closure \<Rightarrow> TaskTraits \<Rightarrow> 'r option \<Rightarrow>
     ('t, 'u, 'k, 'r, 'h, 'p, 'v, 'e, 'w) prog \<Rightarrow> ('t, 'u, 'k, 'r, 'h, 'p, 'v, 'e, 'w) prog" where
  "sr_PostTaskAndReplyWithTraits env self task taskTraits reply replyTraits replyRunner s =
     postTaskAndReplyInternalWithTraits env self task taskTraits reply replyTraits replyRunner s"

definition pr_PostTaskAndReply ::
  "('t, 'u, 'k, 'r, 'h, 'p, 'v, 'e, 'w) env \<Rightarrow> 'r \<Rightarrow> ('t, 'u, 'k, 'r, 'h) closure \<Rightarrow>
     ('t, 'u, 'k, 'r, 'h) closure \<Rightarrow> 'r option \<Rightarrow>
     ('t, 'u, 'k, 'r, 'h, 'p, 'v, 'e, 'w) prog \<Rightarrow> ('t, 'u, 'k, 'r, 'h, 'p, 'v, 'e, 'w) prog" where
  "pr_PostTaskAndReply env self task reply replyRunner s =
     postTaskAndReplyInternal env self task DefaultTaskTraits reply replyRunner s"

definition pr_PostTaskAndReplyWithTraits ::
  "('t, 'u, 'k, 'r, 'h, 'p, 'v, 'e, 'w) env \<Rightarrow> 'r \<Rightarrow> ('t, 'u, 'k, 'r, 'h) closure \<Rightarrow> TaskTraits \<Rightarrow>
     ('t, 'u, 'k, 'r, 'h) closure \<Rightarrow> TaskTraits \<Rightarrow> 'r option \<Rightarrow>
     ('t, 'u, 'k, 'r, 'h, 'p, 'v, 'e, 'w) prog \<Rightarrow> ('t, 'u, 'k, 'r, 'h, 'p, 'v, 'e, 'w) prog" where
  "pr_PostTaskAndReplyWithTraits env self task taskTraits reply replyTraits replyRunner s =
     postTaskAndReplyInternalWithTraits env self task taskTraits reply replyTraits replyRunner s"

definition st_PostTaskAndReply ::
  "('t, 'u, 'k, 'r, 'h, 'p, 'v, 'e, 'w) env \<Rightarrow> 'r \<Rightarrow> ('t, 'u, 'k, 'r, 'h) closure \<Rightarrow>
     ('t, 'u, 'k, 'r, 'h) closure \<Rightarrow> 'r option \<Rightarrow>
     ('t, 'u, 'k, 'r, 'h, 'p, 'v, 'e, 'w) prog \<Rightarrow> ('t, 'u, 'k, 'r, 'h, 'p, 'v, 'e, 'w) prog" where
  "st_PostTaskAndReply env self task reply replyRunner s =
     postTaskAndReplyInternal env self task DefaultTaskTraits reply replyRunner s"

definition st_PostTaskAndReplyWithTraits ::
  "('t, 'u, 'k, 'r, 'h, 'p, 'v, 'e, 'w) env \<Rightarrow> 'r \<Rightarrow> ('t, 'u, 'k, 'r, 'h) closure \<Rightarrow> TaskTraits \<Rightarrow>
     ('t, 'u, 'k, 'r, 'h) closure \<Rightarrow> TaskTraits \<Rightarrow> 'r option \<Rightarrow>
     ('t, 'u, 'k, 'r, 'h, 'p, 'v, 'e, 'w) prog \<Rightarrow> ('t, 'u, 'k, 'r, 'h, 'p, 'v, 'e, 'w) prog" where
  "st_PostTaskAndReplyWithTraits env self task taskTraits reply replyTraits replyRunner s =
     postTaskAndReplyInternalWithTraits env self task taskTraits reply replyTraits replyRunner s"

text \<open>
  The variables \<^verbatim>\<open>result\<close> and \<^verbatim>\<open>err\<close> that a call captures are a fresh cell, which reads as the zero
  values until it is written.
\<close>

definition new_cell :: "('t, 'u, 'k, 'r, 'h, 'p, 'v, 'e, 'w) prog \<Rightarrow> nat \<times> ('t, 'u, 'k, 'r, 'h, 'p, 'v, 'e, 'w) prog" where
  "new_cell s = (pg_next_cell s, s\<lparr>pg_next_cell := Suc (pg_next_cell s), pg_cells := (pg_cells s)(pg_next_cell s := None)\<rparr>)"

definition PostTaskAndReplyWithResultAndTraits ::
  "('t, 'u, 'k, 'r, 'h, 'p, 'v, 'e, 'w) env \<Rightarrow> 'r \<Rightarrow> 'u \<Rightarrow> TaskTraits \<Rightarrow> 'k \<Rightarrow> TaskTraits \<Rightarrow> 'r option \<Rightarrow>
     ('t, 'u, 'k, 'r, 'h, 'p, 'v, 'e, 'w) prog \<Rightarrow> ('t, 'u, 'k, 'r, 'h, 'p, 'v, 'e, 'w) prog" where
  "PostTaskAndReplyWithResultAndTraits env target task taskTraits reply replyTraits replyRunner s =
     (case new_cell s of (k, s') \<Rightarrow>
        postTaskAndReplyInternalWithTraits env target (StoreResult task k) taskTraits (ReplyResult reply k)
          replyTraits replyRunner s')"

definition PostTaskAndReplyWithResult ::
  "('t, 'u, 'k, 'r, 'h, 'p, 'v, 'e, 'w) env \<Rightarrow> 'r \<Rightarrow> 'u \<Rightarrow> 'k \<Rightarrow> 'r option \<Rightarrow>
     ('t, 'u, 'k, 'r, 'h, 'p, 'v, 'e, 'w) prog \<Rightarrow> ('t, 'u, 'k, 'r, 'h, 'p, 'v, 'e, 'w) prog" where
  "PostTaskAndReplyWithResult env target task reply replyRunner s =
     PostTaskAndReplyWithResultAndTraits env target task DefaultTaskTraits reply DefaultTaskTraits replyRunner s"

definition PostDelayedTaskAndReplyWithResultAndTraits ::
  "('t, 'u, 'k, 'r, 'h, 'p, 'v, 'e, 'w) env \<Rightarrow> 'r \<Rightarrow> 'u \<Rightarrow> int \<Rightarrow> TaskTraits \<Rightarrow> 'k \<Rightarrow> TaskTraits \<Rightarrow> 'r option \<Rightarrow>
     ('t, 'u, 'k, 'r, 'h, 'p, 'v, 'e, 'w) prog \<Rightarrow> ('t, 'u, 'k, 'r, 'h, 'p, 'v, 'e, 'w) prog" where
  "PostDelayedTaskAndReplyWithResultAndTraits env target task delay taskTraits reply replyTraits replyRunner s =
     (case new_cell s of (k, s') \<Rightarrow>
        pg_post (PostDelayed target
          (DelayedThenReply (StoreResult task k) target
             (case replyRunner of None \<Rightarrow> None | Some r \<Rightarrow> Some (ReplyResult reply k, replyTraits, r)))
          delay taskTraits) s')"

definition PostDelayedTaskAndReplyWithResult ::
  "('t, 'u, 'k, 'r, 'h, 'p, 'v, 'e, 'w) env \<Rightarrow> 'r \<Rightarrow> 'u \<Rightarrow> int \<Rightarrow> 'k \<Rightarrow> 'r option \<Rightarrow>
     ('t, 'u, 'k, 'r, 'h, 'p, 'v, 'e, 'w) prog \<Rightarrow> ('t, 'u, 'k, 'r, 'h, 'p, 'v, 'e, 'w) prog" where
  "PostDelayedTaskAndReplyWithResult env target task delay reply replyRunner s =
     PostDelayedTaskAndReplyWithResultAndTraits env target task delay DefaultTaskTraits reply DefaultTaskTraits replyRunner s"

text \<open>The package \<^verbatim>\<open>taskrunner\<close> re-exports the four functions.\<close>

definition reply_PostTaskAndReplyWithResult where
  "reply_PostTaskAndReplyWithResult = PostTaskAndReplyWithResult"

definition reply_PostTaskAndReplyWithResultAndTraits where
  "reply_PostTaskAndReplyWithResultAndTraits = PostTaskAndReplyWithResultAndTraits"

definition reply_PostDelayedTaskAndReplyWithResult where
  "reply_PostDelayedTaskAndReplyWithResult = PostDelayedTaskAndReplyWithResult"

definition reply_PostDelayedTaskAndReplyWithResultAndTraits where
  "reply_PostDelayedTaskAndReplyWithResultAndTraits = PostDelayedTaskAndReplyWithResultAndTraits"

section \<open>The properties\<close>

text \<open>The executable closure of the last post, and the reply that a run of it posted.\<close>

definition posted_closure :: "('t, 'u, 'k, 'r, 'h, 'p, 'v, 'e, 'w) prog \<Rightarrow> ('t, 'u, 'k, 'r, 'h) closure option" where
  "posted_closure s =
     (if pg_posts s = [] then None
      else case last (pg_posts s) of PostTask r c tr \<Rightarrow> Some c | PostDelayed r c d tr \<Rightarrow> Some c)"


text \<open>
  An environment for the witnesses: the state is a number; the task with result adds to it and
  returns it, or panics when its argument is 0; a reply stores the result it receives.
\<close>

definition ex_env :: "(nat, nat, nat, nat, unit, string, nat, bool, nat) env" where
  "ex_env = \<lparr>env_task = (\<lambda>t w. if t = 0 then (Panicked ''boom'', w) else (Returned, w + t)),
     env_task_result = (\<lambda>u w. if u = 0 then (Inl ''boom'', w) else (Inr (w + u, False), w + 1)),
     env_reply = (\<lambda>k ve w. (Returned, fst ve)), env_zero = (0, False),
     env_name = (\<lambda>r. ''runner''), env_pool = (\<lambda>r. Some (Some DefaultHandler, Some DefaultHandler))\<rparr>"

definition ex_prog :: "(nat, nat, nat, nat, unit, string, nat, bool, nat) prog" where
  "ex_prog = \<lparr>pg_world = 10, pg_cells = (\<lambda>_. None), pg_next_cell = 0, pg_posts = [], pg_calls = []\<rparr>"




text \<open>
  The delayed variant behaves as the immediate one: when its closure runs, it does exactly what
  the closure of the immediate variant does with the recovery context of the target at that time,
  and only the posting differs.
\<close>

theorem delayed_reply_equals_immediate:
  "posted_closure (PostDelayedTaskAndReplyWithResultAndTraits env target task delay ttr reply rtr replyRunner s0) = Some c1 \<Longrightarrow>
   posted_closure (PostTaskAndReplyWithResultAndTraits env target task ttr reply rtr replyRunner s0) = Some c2 \<Longrightarrow>
   run_closure env c1 s = run_closure env c2 s"
  by (cases replyRunner)
    (auto simp: posted_closure_def PostTaskAndReplyWithResultAndTraits_def PostDelayedTaskAndReplyWithResultAndTraits_def
      new_cell_def postTaskAndReplyInternalWithTraits_def pg_post_def Let_def)

end
