(* ===== verification/Repeating_Task.thy ===== *)
theory Repeating_Task
  imports Core_Task
begin

text \<open>
  Repeating tasks. The three runners have the same code in three places (\<^verbatim>\<open>repeatingTaskHandle\<close>,
  \<^verbatim>\<open>parallelRepeatingTaskHandle\<close>, \<^verbatim>\<open>singleThreadRepeatingHandle\<close>): a closure that checks whether it
  may run, calls the task and posts itself again with a delay. One handle is modelled with the
  instances of its closure: how many are posted or delayed and not yet started, and where the started
  ones stand; the runner's flag and the handle's flag may change at any time.
\<close>

section \<open>The handle and its closure\<close>

record 't repeatingTaskHandle =
  rh_task :: 't
  rh_interval :: int
  rh_traits :: TaskTraits
  rh_stopped :: bool

definition rh_Stop :: "'t repeatingTaskHandle \<Rightarrow> 't repeatingTaskHandle" where
  "rh_Stop h = h\<lparr>rh_stopped := True\<rparr>"

datatype rep_kind = RepSequenced | RepParallel | RepSingle

text \<open>
  What \<^verbatim>\<open>GetCurrentTaskRunner(ctx)\<close> gives inside the closure: a runner of the handle's own type,
  another one, or nil. The handle of the single-thread runner holds its runner and does not ask.
\<close>

datatype ctx_runner = OwnRunner | OtherRunner | NoRunner

datatype rep_at = RpClosed | RpStopped | RpTask | RpStillOn | RpStillOpen | RpPost | RpReturned

record 't rep_sys =
  rp_handle :: "'t repeatingTaskHandle"
  rp_closed :: bool
  rp_waiting :: nat
  rp_instances :: "rep_at list"
  rp_executions :: nat
  rp_delays :: "(int \<times> TaskTraits) list"

text \<open>
  One step of an instance, with the two tests that differ between the runners as arguments: whether
  it sees that the runner is closed, and whether there is a runner to post to. \<open>panics\<close> says
  whether the task panics, which ends the closure.
\<close>

fun rep_closure ::
  "(bool \<Rightarrow> bool) \<Rightarrow> bool \<Rightarrow> bool \<Rightarrow> rep_at \<Rightarrow> 't rep_sys \<Rightarrow> (rep_at \<times> 't rep_sys) option" where
  "rep_closure sees_closed has_runner panics RpClosed s =
     Some (if sees_closed (rp_closed s) then RpReturned else RpStopped, s)"
| "rep_closure sees_closed has_runner panics RpStopped s =
     Some (if rh_stopped (rp_handle s) then RpReturned else RpTask, s)"
| "rep_closure sees_closed has_runner panics RpTask s =
     Some (if panics then RpReturned else RpStillOn, s\<lparr>rp_executions := Suc (rp_executions s)\<rparr>)"
| "rep_closure sees_closed has_runner panics RpStillOn s =
     Some (if \<not> rh_stopped (rp_handle s) \<and> has_runner then RpStillOpen else RpReturned, s)"
| "rep_closure sees_closed has_runner panics RpStillOpen s =
     Some (if sees_closed (rp_closed s) then RpReturned else RpPost, s)"
| "rep_closure sees_closed has_runner panics RpPost s =
     Some (RpReturned, s\<lparr>rp_waiting := Suc (rp_waiting s),
        rp_delays := rp_delays s @ [(rh_interval (rp_handle s), rh_traits (rp_handle s))]\<rparr>)"
| "rep_closure sees_closed has_runner panics RpReturned s = None"

definition createRepeatingTask :: "ctx_runner \<Rightarrow> bool \<Rightarrow> rep_at \<Rightarrow> 't rep_sys \<Rightarrow> (rep_at \<times> 't rep_sys) option" where
  "createRepeatingTask cr = rep_closure (\<lambda>closed. cr = OwnRunner \<and> closed) (cr \<noteq> NoRunner)"

definition parallel_createRepeatingTask :: "ctx_runner \<Rightarrow> bool \<Rightarrow> rep_at \<Rightarrow> 't rep_sys \<Rightarrow> (rep_at \<times> 't rep_sys) option" where
  "parallel_createRepeatingTask cr = rep_closure (\<lambda>closed. cr = OwnRunner \<and> closed) (cr \<noteq> NoRunner)"

definition single_createRepeatingTask :: "bool \<Rightarrow> rep_at \<Rightarrow> 't rep_sys \<Rightarrow> (rep_at \<times> 't rep_sys) option" where
  "single_createRepeatingTask = rep_closure (\<lambda>closed. closed) True"

definition rep_instance_step :: "rep_kind \<Rightarrow> ctx_runner \<Rightarrow> bool \<Rightarrow> rep_at \<Rightarrow> 't rep_sys \<Rightarrow> (rep_at \<times> 't rep_sys) option" where
  "rep_instance_step kind cr =
     (case kind of RepSequenced \<Rightarrow> createRepeatingTask cr | RepParallel \<Rightarrow> parallel_createRepeatingTask cr
        | RepSingle \<Rightarrow> single_createRepeatingTask)"

definition rep_sees_closed :: "rep_kind \<Rightarrow> ctx_runner \<Rightarrow> bool \<Rightarrow> bool" where
  "rep_sees_closed kind cr closed = (case kind of RepSingle \<Rightarrow> closed | _ \<Rightarrow> cr = OwnRunner \<and> closed)"

definition rep_has_runner :: "rep_kind \<Rightarrow> ctx_runner \<Rightarrow> bool" where
  "rep_has_runner kind cr = (case kind of RepSingle \<Rightarrow> True | _ \<Rightarrow> cr \<noteq> NoRunner)"

lemma rep_instance_step_eq: "rep_instance_step kind cr = rep_closure (rep_sees_closed kind cr) (rep_has_runner kind cr)"
  by (cases kind) (simp_all add: rep_instance_step_def createRepeatingTask_def parallel_createRepeatingTask_def
      single_createRepeatingTask_def rep_sees_closed_def [abs_def] rep_has_runner_def)

text \<open>
  The posting methods build the handle and post the first instance, delayed when
  \<^verbatim>\<open>initialDelay > 0\<close>, at once otherwise. \<open>accepted\<close> says whether that post is accepted: a
  closed sequenced runner ignores a task and still delays one; the closed runners of the other
  two types ignore both.
\<close>

definition new_repeating :: "'t \<Rightarrow> int \<Rightarrow> int \<Rightarrow> TaskTraits \<Rightarrow> bool \<Rightarrow> bool \<Rightarrow> 't rep_sys" where
  "new_repeating task initialDelay interval traits closed accepted =
     \<lparr>rp_handle = \<lparr>rh_task = task, rh_interval = interval, rh_traits = traits, rh_stopped = False\<rparr>,
      rp_closed = closed, rp_waiting = (if accepted then 1 else 0), rp_instances = [], rp_executions = 0,
      rp_delays = (if accepted \<and> initialDelay > 0 then [(initialDelay, traits)] else [])\<rparr>"

definition PostRepeatingTaskWithInitialDelay :: "'t \<Rightarrow> int \<Rightarrow> int \<Rightarrow> TaskTraits \<Rightarrow> bool \<Rightarrow> 't rep_sys" where
  "PostRepeatingTaskWithInitialDelay task initialDelay interval traits closed =
     new_repeating task initialDelay interval traits closed (if initialDelay > 0 then True else \<not> closed)"

definition PostRepeatingTaskWithTraits :: "'t \<Rightarrow> int \<Rightarrow> TaskTraits \<Rightarrow> bool \<Rightarrow> 't rep_sys" where
  "PostRepeatingTaskWithTraits task interval traits closed =
     PostRepeatingTaskWithInitialDelay task 0 interval traits closed"

definition PostRepeatingTask :: "'t \<Rightarrow> int \<Rightarrow> bool \<Rightarrow> 't rep_sys" where
  "PostRepeatingTask task interval closed = PostRepeatingTaskWithTraits task interval DefaultTaskTraits closed"

definition parallel_PostRepeatingTaskWithInitialDelay :: "'t \<Rightarrow> int \<Rightarrow> int \<Rightarrow> TaskTraits \<Rightarrow> bool \<Rightarrow> 't rep_sys" where
  "parallel_PostRepeatingTaskWithInitialDelay task initialDelay interval traits closed =
     new_repeating task initialDelay interval traits closed (\<not> closed)"

definition parallel_PostRepeatingTaskWithTraits :: "'t \<Rightarrow> int \<Rightarrow> TaskTraits \<Rightarrow> bool \<Rightarrow> 't rep_sys" where
  "parallel_PostRepeatingTaskWithTraits task interval traits closed =
     parallel_PostRepeatingTaskWithInitialDelay task 0 interval traits closed"

definition parallel_PostRepeatingTask :: "'t \<Rightarrow> int \<Rightarrow> bool \<Rightarrow> 't rep_sys" where
  "parallel_PostRepeatingTask task interval closed =
     parallel_PostRepeatingTaskWithTraits task interval DefaultTaskTraits closed"

definition single_PostRepeatingTaskWithInitialDelay :: "'t \<Rightarrow> int \<Rightarrow> int \<Rightarrow> TaskTraits \<Rightarrow> bool \<Rightarrow> 't rep_sys" where
  "single_PostRepeatingTaskWithInitialDelay task initialDelay interval traits closed =
     new_repeating task initialDelay interval traits closed (\<not> closed)"

definition single_PostRepeatingTaskWithTraits :: "'t \<Rightarrow> int \<Rightarrow> TaskTraits \<Rightarrow> bool \<Rightarrow> 't rep_sys" where
  "single_PostRepeatingTaskWithTraits task interval traits closed =
     single_PostRepeatingTaskWithInitialDelay task 0 interval traits closed"

definition single_PostRepeatingTask :: "'t \<Rightarrow> int \<Rightarrow> bool \<Rightarrow> 't rep_sys" where
  "single_PostRepeatingTask task interval closed =
     single_PostRepeatingTaskWithTraits task interval DefaultTaskTraits closed"

definition rep_post :: "rep_kind \<Rightarrow> 't \<Rightarrow> int \<Rightarrow> int \<Rightarrow> TaskTraits \<Rightarrow> bool \<Rightarrow> 't rep_sys" where
  "rep_post kind =
     (case kind of RepSequenced \<Rightarrow> PostRepeatingTaskWithInitialDelay | RepParallel \<Rightarrow> parallel_PostRepeatingTaskWithInitialDelay
        | RepSingle \<Rightarrow> single_PostRepeatingTaskWithInitialDelay)"

text \<open>
  The system: the runner starts a waiting instance, or drops one (a closed runner or pool does);
  a started instance moves; somebody stops the handle or shuts the runner down.
\<close>

datatype rep_label = ZStart | ZDrop | ZStep nat bool | ZStop | ZClose

fun rep_step :: "rep_kind \<Rightarrow> ctx_runner \<Rightarrow> rep_label \<Rightarrow> 't rep_sys \<Rightarrow> 't rep_sys option" where
  "rep_step kind cr ZStart s =
     (if 0 < rp_waiting s
      then Some (s\<lparr>rp_waiting := rp_waiting s - 1, rp_instances := rp_instances s @ [RpClosed]\<rparr>) else None)"
| "rep_step kind cr ZDrop s = (if 0 < rp_waiting s then Some (s\<lparr>rp_waiting := rp_waiting s - 1\<rparr>) else None)"
| "rep_step kind cr (ZStep k panics) s =
     (if k < length (rp_instances s)
      then map_option (\<lambda>(pc, s'). s'\<lparr>rp_instances := (rp_instances s)[k := pc]\<rparr>)
             (rep_instance_step kind cr panics (rp_instances s ! k) s)
      else None)"
| "rep_step kind cr ZStop s = Some (s\<lparr>rp_handle := rh_Stop (rp_handle s)\<rparr>)"
| "rep_step kind cr ZClose s = Some (s\<lparr>rp_closed := True\<rparr>)"

abbreviation rep_reachable :: "rep_kind \<Rightarrow> ctx_runner \<Rightarrow> 't rep_sys \<Rightarrow> bool" where
  "rep_reachable kind cr \<equiv>
     reach (\<lambda>s. \<exists>task d i tr c. s = rep_post kind task d i tr c) (lstep (rep_step kind cr))"

section \<open>Invariant\<close>

fun rp_live :: "rep_at \<Rightarrow> nat" where "rp_live RpReturned = 0" | "rp_live _ = 1"

definition rep_inv :: "'t rep_sys \<Rightarrow> bool" where
  "rep_inv s \<longleftrightarrow> rp_waiting s + weight rp_live (rp_instances s) \<le> 1"

lemma rep_instance_inv:
  assumes "rep_inv s" "k < length (rp_instances s)"
    and "rep_instance_step kind cr panics (rp_instances s ! k) s = Some (pc, s')"
  shows "rep_inv (s'\<lparr>rp_instances := (rp_instances s)[k := pc]\<rparr>)"
  using assms weight_update [OF assms(2), of rp_live pc] unfolding rep_instance_step_eq
  by (cases "rp_instances s ! k") (auto simp: rep_inv_def split: if_splits)

lemma rep_step_inv:
  assumes inv: "rep_inv s" and st: "rep_step kind cr l s = Some s'"
  shows "rep_inv s'"
proof (cases l)
  case (ZStep k panics)
  with st rep_instance_inv [OF inv, of k kind cr panics] show ?thesis by (auto split: if_splits)
qed (use inv st in \<open>auto simp: rep_inv_def split: if_splits\<close>)

lemma rep_post_new: "\<exists>accepted. rep_post kind task d i tr c = new_repeating task d i tr c accepted"
  by (cases kind) (auto simp: rep_post_def PostRepeatingTaskWithInitialDelay_def parallel_PostRepeatingTaskWithInitialDelay_def
      single_PostRepeatingTaskWithInitialDelay_def)

interpretation reps: inv_system "\<lambda>s. \<exists>task d i tr c. s = rep_post kind task d i tr c"
  "lstep (rep_step kind cr)" rep_inv for kind cr
proof unfold_locales
  show "rep_inv s" if start: "\<exists>task d i tr c. s = rep_post kind task d i tr c" for s :: "'a rep_sys"
  proof -
    from start obtain task d i tr c where s: "s = rep_post kind task d i tr c" by blast
    obtain accepted where "rep_post kind task d i tr c = new_repeating task d i tr c accepted" using rep_post_new [of kind task d i tr c] by blast
    with s show ?thesis by (simp add: rep_inv_def new_repeating_def)
  qed
  show "rep_inv t" if "rep_inv s" "lstep (rep_step kind cr) s t" for s t :: "'a rep_sys"
    using that by (auto simp: lstep_def simp del: rep_step.simps intro: rep_step_inv)
qed

text \<open>Nobody can execute again: every instance is stopped by a flag before its next execution.\<close>

definition rep_quiet :: "rep_kind \<Rightarrow> ctx_runner \<Rightarrow> 't rep_sys \<Rightarrow> bool" where
  "rep_quiet kind cr s \<longleftrightarrow> RpTask \<notin> set (rp_instances s) \<and>
     (rh_stopped (rp_handle s) \<or> rep_sees_closed kind cr (rp_closed s) \<and> RpStopped \<notin> set (rp_instances s))"

lemma rep_quiet_step:
  assumes q: "rep_quiet kind cr s" and st: "rep_step kind cr l s = Some s'"
  shows "rep_quiet kind cr s' \<and> rp_executions s' = rp_executions s"
proof (cases l)
  case (ZStep k panics)
  with st obtain pc t where k: "k < length (rp_instances s)"
    and t: "rep_instance_step kind cr panics (rp_instances s ! k) s = Some (pc, t)"
    and s': "s' = t\<lparr>rp_instances := (rp_instances s)[k := pc]\<rparr>" by (auto split: if_splits)
  have in_set: "rp_instances s ! k \<in> set (rp_instances s)" using k by simp
  have sub: "set ((rp_instances s)[k := pc]) \<subseteq> insert pc (set (rp_instances s))" by (rule set_update_subset_insert)
  show ?thesis
    using q t in_set sub unfolding s' rep_quiet_def rep_instance_step_eq
    by (cases "rp_instances s ! k") (auto split: if_splits)
qed (use q st in \<open>auto simp: rep_quiet_def rh_Stop_def rep_sees_closed_def split: if_splits rep_kind.splits\<close>)

lemma rep_quiet_run: "rep_quiet kind cr s \<Longrightarrow> run (rep_step kind cr) ls s = Some s' \<Longrightarrow> rp_executions s' = rp_executions s"
proof (induction ls arbitrary: s)
  case (Cons l ls)
  then obtain u where u: "rep_step kind cr l s = Some u" "run (rep_step kind cr) ls u = Some s'"
    by (auto split: option.splits simp del: rep_step.simps)
  from rep_quiet_step [OF Cons.prems(1) u(1)] Cons.IH [of u] u(2) show ?case by simp
qed simp

section \<open>The properties\<close>

definition ex_rep_labels :: "rep_label list" where
  "ex_rep_labels = [ZStart, ZStep 0 False, ZStep 0 False, ZStep 0 False, ZStep 0 False, ZStep 0 False, ZStep 0 False, ZStop]"

definition ex_rep :: "nat rep_sys" where
  "ex_rep = the (run (rep_step RepSequenced OwnRunner) ex_rep_labels (PostRepeatingTask 7 50 False))"

lemma ex_rep_state: "rp_waiting ex_rep = 1" "rp_instances ex_rep = [RpReturned]" "rh_stopped (rp_handle ex_rep)"
  "rp_executions ex_rep = 1" "rp_delays ex_rep = [(50, DefaultTaskTraits)]"
  by code_simp+

lemma ex_rep_reachable: "rep_reachable RepSequenced OwnRunner ex_rep"
proof -
  have "run (rep_step RepSequenced OwnRunner) ex_rep_labels (PostRepeatingTask 7 50 False :: nat rep_sys) \<noteq> None" by code_simp
  then have r: "run (rep_step RepSequenced OwnRunner) ex_rep_labels (PostRepeatingTask 7 50 False) = Some ex_rep"
    unfolding ex_rep_def by (metis option.exhaust_sel)
  have "rep_reachable RepSequenced OwnRunner (PostRepeatingTask 7 50 False :: nat rep_sys)"
    by (rule reach_init) (metis rep_post_def rep_kind.case(1) PostRepeatingTask_def PostRepeatingTaskWithTraits_def)
  from run_reach [OF this r] show ?thesis .
qed

text \<open>
  A repeating task never overlaps with itself. In every reachable state at most one instance of
  its closure exists, waiting or started and not returned; so the next execution is scheduled only
  after the previous one has ended, on all three runners.
\<close>

theorem repeating_single_instance:
  assumes "rep_reachable kind cr s"
  shows "rp_waiting s + length (filter (\<lambda>pc. pc \<noteq> RpReturned) (rp_instances s)) \<le> 1"
proof -
  have "rp_live pc = (if pc \<noteq> RpReturned then 1 else 0)" for pc by (cases pc) auto
  then have "weight rp_live ps = length (filter (\<lambda>pc. pc \<noteq> RpReturned) ps)" for ps
    by (induction ps) auto
  with reps.holds_reach [OF assms] show ?thesis by (simp add: rep_inv_def)
qed

text \<open>
  C33: Stopping is final. Once the handle is stopped and no instance has passed its check (none is at
  the call of the task), the task is never executed again, whatever else happens.
\<close>

theorem repeating_stop_is_final:
  assumes "rh_stopped (rp_handle s)" "RpTask \<notin> set (rp_instances s)" "run (rep_step kind cr) ls s = Some s'"
  shows "rp_executions s' = rp_executions s"
  using rep_quiet_run [OF _ assms(3)] assms(1,2) by (simp add: rep_quiet_def)

theorem repeating_stop_is_final_witness:
  "\<exists>s'. run (rep_step RepSequenced OwnRunner) [ZStart, ZStep 1 False, ZStep 1 False] ex_rep = Some s' \<and>
     rp_executions s' = 1"
proof -
  have "run (rep_step RepSequenced OwnRunner) [ZStart, ZStep 1 False, ZStep 1 False] ex_rep \<noteq> None" by code_simp
  then obtain s' where r: "run (rep_step RepSequenced OwnRunner) [ZStart, ZStep 1 False, ZStep 1 False] ex_rep = Some s'"
    by blast
  from repeating_stop_is_final [OF _ _ this] r show ?thesis by (simp add: ex_rep_state)
qed

end
