(* ===== verification/Serial_Spec.thy ===== *)
theory Serial_Spec
  imports Prelude "HOL-Library.Sublist"
begin

text \<open>
  What the event bus and the job manager rely on when they post closures to a runner: the serial
  runner, an abstract machine that takes tasks, runs the oldest waiting one when none is running, and
  forgets waiting tasks only after a shutdown; with the simulation of one system by another, by
  which runners are shown to implement it.
\<close>

section \<open>Simulation of one system by another\<close>

text \<open>Every step of the detailed system is a step of the abstract one or none of it.\<close>

locale simulation = inv_system +
  fixes J :: "'a \<Rightarrow> bool" and S :: "'a \<Rightarrow> 'a \<Rightarrow> bool" and view :: "'b \<Rightarrow> 'a"
  assumes view_init: "I s \<Longrightarrow> J (view s)"
    and view_step: "P s \<Longrightarrow> R s t \<Longrightarrow> S (view s) (view t) \<or> view t = view s"
begin

lemma view_reach: "reach I R s \<Longrightarrow> reach J S (view s)"
proof (induction rule: reach.induct)
  case (reach_init s)
  then show ?case by (intro reach.reach_init view_init)
next
  case (reach_step s t)
  from view_step [OF holds_reach [OF reach_step.hyps(1)] reach_step.hyps(2)] reach_step.IH
  show ?case by (auto intro: reach.reach_step)
qed

end

section \<open>The serial runner\<close>

datatype 'x serial_event = Started 'x | Finished 'x

record 'x serial =
  se_accepted :: "'x list"
  se_waiting :: "'x list"
  se_running :: "'x option"
  se_trace :: "'x serial_event list"
  se_shut :: bool

definition serial_init :: "'x serial" where
  "serial_init = \<lparr>se_accepted = [], se_waiting = [], se_running = None, se_trace = [], se_shut = False\<rparr>"

inductive serial_step :: "'x serial \<Rightarrow> 'x serial \<Rightarrow> bool" where
  serial_accept:
    "serial_step s (s\<lparr>se_accepted := se_accepted s @ [x], se_waiting := se_waiting s @ [x]\<rparr>)"
| serial_start:
    "se_running s = None \<Longrightarrow> se_waiting s = x # xs \<Longrightarrow>
     serial_step s (s\<lparr>se_waiting := xs, se_running := Some x, se_trace := se_trace s @ [Started x]\<rparr>)"
| serial_finish:
    "se_running s = Some x \<Longrightarrow> serial_step s (s\<lparr>se_running := None, se_trace := se_trace s @ [Finished x]\<rparr>)"
| serial_shut: "serial_step s (s\<lparr>se_shut := True\<rparr>)"
| serial_drop: "se_shut s \<Longrightarrow> prefix xs (se_waiting s) \<Longrightarrow> serial_step s (s\<lparr>se_waiting := xs\<rparr>)"

text \<open>The rules with the successor given by its components.\<close>

lemma serial_acceptI:
  assumes "se_accepted t = se_accepted s @ [x]" "se_waiting t = se_waiting s @ [x]" "se_running t = se_running s"
    "se_trace t = se_trace s" "se_shut t = se_shut s"
  shows "serial_step s (t :: 'x serial)"
proof -
  have "t = s\<lparr>se_accepted := se_accepted s @ [x], se_waiting := se_waiting s @ [x]\<rparr>"
    using assms by (intro serial.equality) simp_all
  then show ?thesis using serial_accept by simp
qed

lemma serial_startI:
  assumes "se_running s = None" "se_waiting s = x # se_waiting t" "se_accepted t = se_accepted s" "se_running t = Some x"
    "se_trace t = se_trace s @ [Started x]" "se_shut t = se_shut s"
  shows "serial_step s (t :: 'x serial)"
proof -
  have "t = s\<lparr>se_waiting := se_waiting t, se_running := Some x, se_trace := se_trace s @ [Started x]\<rparr>"
    using assms(3-6) by (intro serial.equality) simp_all
  then show ?thesis using serial_start [OF assms(1,2)] by simp
qed

lemma serial_finishI:
  assumes "se_running s = Some x" "se_waiting t = se_waiting s" "se_accepted t = se_accepted s" "se_running t = None"
    "se_trace t = se_trace s @ [Finished x]" "se_shut t = se_shut s"
  shows "serial_step s (t :: 'x serial)"
proof -
  have "t = s\<lparr>se_running := None, se_trace := se_trace s @ [Finished x]\<rparr>"
    using assms(2-6) by (intro serial.equality) simp_all
  then show ?thesis using serial_finish [OF assms(1)] by simp
qed

lemma serial_shutI:
  assumes "se_accepted t = se_accepted s" "se_waiting t = se_waiting s" "se_running t = se_running s"
    "se_trace t = se_trace s" "se_shut t"
  shows "serial_step s (t :: 'x serial)"
proof -
  have "t = s\<lparr>se_shut := True\<rparr>" using assms by (intro serial.equality) simp_all
  then show ?thesis using serial_shut by simp
qed

lemma serial_dropI:
  assumes "se_accepted t = se_accepted s" "prefix (se_waiting t) (se_waiting s)" "se_running t = se_running s"
    "se_trace t = se_trace s" "se_shut s" "se_shut t"
  shows "serial_step s (t :: 'x serial)"
proof -
  have "t = s\<lparr>se_waiting := se_waiting t\<rparr>" using assms by (intro serial.equality) simp_all
  then show ?thesis using serial_drop [OF assms(5,2)] by simp
qed

definition serial_current :: "'x serial \<Rightarrow> 'x list" where
  "serial_current s = (case se_running s of None \<Rightarrow> [] | Some x \<Rightarrow> [x])"

definition serial_runs :: "'x list \<Rightarrow> 'x serial_event list" where
  "serial_runs xs = concat (map (\<lambda>x. [Started x, Finished x]) xs)"

text \<open>
  The order of a serial runner: complete runs of finished tasks, then the beginning of the current
  one; finished, current and waiting tasks follow the order of acceptance, and before a shutdown
  they are all that was accepted.
\<close>

definition serial_order :: "'x serial \<Rightarrow> bool" where
  "serial_order s \<longleftrightarrow> (\<exists>fin. se_trace s = serial_runs fin @ map Started (serial_current s) \<and>
     subseq (fin @ serial_current s @ se_waiting s) (se_accepted s) \<and>
     (\<not> se_shut s \<longrightarrow> se_accepted s = fin @ serial_current s @ se_waiting s))"

lemma serial_order_step:
  assumes "serial_step s t" "serial_order s"
  shows "serial_order t"
proof -
  from assms(2) obtain fin where f: "se_trace s = serial_runs fin @ map Started (serial_current s)"
    "subseq (fin @ serial_current s @ se_waiting s) (se_accepted s)"
    "\<not> se_shut s \<longrightarrow> se_accepted s = fin @ serial_current s @ se_waiting s" by (auto simp: serial_order_def)
  from assms(1) show ?thesis
  proof cases
    case (serial_accept x)
    have "subseq ((fin @ serial_current s @ se_waiting s) @ [x]) (se_accepted s @ [x])"
      by (intro list_emb_append_mono f(2)) simp
    with f serial_accept show ?thesis
      by (auto simp: serial_order_def serial_current_def intro!: exI [of _ fin])
  next
    case (serial_start x xs)
    with f show ?thesis by (auto simp: serial_order_def serial_current_def intro!: exI [of _ fin])
  next
    case (serial_finish x)
    with f show ?thesis
      by (auto simp: serial_order_def serial_current_def serial_runs_def intro!: exI [of _ "fin @ [x]"])
  next
    case serial_shut
    with f show ?thesis by (auto simp: serial_order_def serial_current_def intro!: exI [of _ fin])
  next
    case (serial_drop xs)
    then have "subseq (fin @ serial_current s @ xs) (fin @ serial_current s @ se_waiting s)"
      by (intro list_emb_append_mono subseq_order.refl prefix_imp_subseq)
    with f(2) have "subseq (fin @ serial_current s @ xs) (se_accepted s)" by (rule subseq_order.trans [rotated])
    with f serial_drop show ?thesis
      by (auto simp: serial_order_def serial_current_def intro!: exI [of _ fin])
  qed
qed

interpretation serials: inv_system "\<lambda>s. s = serial_init" serial_step serial_order
proof unfold_locales
  show "serial_order s" if "s = serial_init" for s :: "'x serial"
    unfolding that serial_order_def by (intro exI [of _ "[]"]) (simp add: serial_init_def serial_current_def serial_runs_def)
qed (rule serial_order_step)

text \<open>What a step can change, for clients that look at single components.\<close>

lemma serial_step_begins:
  assumes "serial_step a b"
  shows "\<exists>es. se_trace b = se_trace a @ es \<and> (\<forall>x. Started x \<in> set es \<longrightarrow> x \<in> set (se_waiting a))"
  using assms by cases auto

lemma serial_step_waiting:
  assumes "serial_step a b" "se_accepted b = se_accepted a @ ys"
  shows "set (se_waiting b) \<subseteq> set (se_waiting a) \<union> set ys"
  using assms by cases (auto dest: set_mono_prefix)

lemma serial_runs_map: "map (map_serial_event f) (serial_runs xs) = serial_runs (map f xs)"
  by (induction xs) (simp_all add: serial_runs_def)

end
