(* ===== verification/Runner_Wait.thy ===== *)
theory Runner_Wait
  imports Serial_Spec
begin

text \<open>
  The calls that wait for a runner: \<^verbatim>\<open>WaitIdle\<close>, \<^verbatim>\<open>FlushAsync\<close> and \<^verbatim>\<open>WaitShutdown\<close> of
  \<^verbatim>\<open>core/sequenced_task_runner.go\<close> and \<^verbatim>\<open>core/single_thread_task_runner.go\<close>, which are the same
  code over the two runners. The callers are goroutines that move between the steps of a runner; the
  runner is given by its operations, and what the callers rely on is the locale \<open>waitable\<close>, which
  both runners provide.
\<close>

section \<open>The callers\<close>

text \<open>
  What is posted: a closure of a client, the callback given to \<^verbatim>\<open>FlushAsync\<close>, or the closure of the
  \<open>n\<close>-th waiting call, which closes the channel \<^verbatim>\<open>done\<close> of that call.
\<close>

datatype 'x work = UserWork 'x | FlushWork 'x | BarrierWork nat

record ('l, 's, 'x) runner_ops =
  ru_step :: "'l \<Rightarrow> 's \<Rightarrow> 's option"
  ru_post :: "'x work \<Rightarrow> 'l"
  ru_posts :: "'l \<Rightarrow> 'x work list"
  ru_closed :: "'s \<Rightarrow> bool"
  ru_shutdownChan_closed :: "'s \<Rightarrow> bool"
  ru_accepted :: "'s \<Rightarrow> 'x work list"
  ru_events :: "'s \<Rightarrow> 'x work serial_event list"
  ru_calls :: "'s \<Rightarrow> nat"
  ru_returned :: "'s \<Rightarrow> nat \<Rightarrow> bool"

datatype wait_result = WaitNil | WaitClosed | WaitCtx

text \<open>
  A call of \<^verbatim>\<open>WaitIdle\<close> past its check of \<^verbatim>\<open>IsClosed\<close>: before \<^verbatim>\<open>PostTask\<close>, inside it (the \<open>k\<close>-th
  call of the runner's posting), in the \<^verbatim>\<open>select\<close>, returned; a call of \<^verbatim>\<open>WaitShutdown\<close> in its
  \<^verbatim>\<open>select\<close>, returned. A context is \<open>None\<close> for \<^verbatim>\<open>context.Background()\<close>, which is never done.
\<close>

datatype waiter =
    IdlePost "nat option" | IdlePosting nat "nat option" | IdleSelect "nat option" | IdleReturned wait_result
  | ShutSelect "nat option" | ShutReturned wait_result

record ('s, 'x) wait_sys =
  wa_runner :: 's
  wa_waiters :: "waiter list"
  wa_before :: "'x work list list"
  wa_ctx_done :: "nat list"

text \<open>\<open>wa_before\<close> records what the runner had accepted when each call was made.\<close>

definition wait_init :: "'s \<Rightarrow> ('s, 'x) wait_sys" where
  "wait_init r = \<lparr>wa_runner = r, wa_waiters = [], wa_before = [], wa_ctx_done = []\<rparr>"

definition add_waiter :: "waiter \<Rightarrow> 'x work list \<Rightarrow> ('s, 'x) wait_sys \<Rightarrow> ('s, 'x) wait_sys" where
  "add_waiter w xs s = s\<lparr>wa_waiters := wa_waiters s @ [w], wa_before := wa_before s @ [xs]\<rparr>"

definition WaitIdle ::
  "('l, 's, 'x) runner_ops \<Rightarrow> nat option \<Rightarrow> ('s, 'x) wait_sys \<Rightarrow> ('s, 'x) wait_sys" where
  "WaitIdle ops ctx s =
     add_waiter (if ru_closed ops (wa_runner s) then IdleReturned WaitClosed else IdlePost ctx)
       (ru_accepted ops (wa_runner s)) s"

definition WaitShutdown ::
  "('l, 's, 'x) runner_ops \<Rightarrow> nat option \<Rightarrow> ('s, 'x) wait_sys \<Rightarrow> ('s, 'x) wait_sys" where
  "WaitShutdown ops ctx s = add_waiter (ShutSelect ctx) (ru_accepted ops (wa_runner s)) s"

definition FlushAsync :: "('l, 's, 'x) runner_ops \<Rightarrow> 'x \<Rightarrow> 's \<Rightarrow> 's option" where
  "FlushAsync ops callback r = ru_step ops (ru_post ops (FlushWork callback)) r"

text \<open>One move of the \<open>n\<close>-th call; the other branch of its \<^verbatim>\<open>select\<close> is \<open>waiter_ctx\<close>.\<close>

fun waiter_step ::
  "('l, 's, 'x) runner_ops \<Rightarrow> nat \<Rightarrow> waiter \<Rightarrow> 's \<Rightarrow> (waiter \<times> 's) option" where
  "waiter_step ops n (IdlePost ctx) r =
     map_option (\<lambda>r'. (if ru_calls ops r < ru_calls ops r' then IdlePosting (ru_calls ops r) ctx else IdleSelect ctx, r'))
       (ru_step ops (ru_post ops (BarrierWork n)) r)"
| "waiter_step ops n (IdlePosting k ctx) r = (if ru_returned ops r k then Some (IdleSelect ctx, r) else None)"
| "waiter_step ops n (IdleSelect ctx) r =
     (if Started (BarrierWork n) \<in> set (ru_events ops r) then Some (IdleReturned WaitNil, r) else None)"
| "waiter_step ops n (ShutSelect ctx) r =
     (if ru_shutdownChan_closed ops r then Some (ShutReturned WaitNil, r) else None)"
| "waiter_step ops n (IdleReturned res) r = None"
| "waiter_step ops n (ShutReturned res) r = None"

fun waiter_ctx :: "nat list \<Rightarrow> waiter \<Rightarrow> waiter option" where
  "waiter_ctx ds (IdleSelect (Some c)) = (if c \<in> set ds then Some (IdleReturned WaitCtx) else None)"
| "waiter_ctx ds (ShutSelect (Some c)) = (if c \<in> set ds then Some (ShutReturned WaitCtx) else None)"
| "waiter_ctx ds w = None"

datatype 'l wait_label = WaRunner 'l | WaIdle "nat option" | WaShutdown "nat option" | WaMove nat | WaCtx nat | WaCtxDone nat

text \<open>A step of anybody else on the runner never posts the closure of a waiting call.\<close>

fun barrier_free :: "'x work list \<Rightarrow> bool" where
  "barrier_free [] = True" | "barrier_free (BarrierWork n # ws) = False" | "barrier_free (w # ws) = barrier_free ws"

fun wait_step ::
  "('l, 's, 'x) runner_ops \<Rightarrow> 'l wait_label \<Rightarrow> ('s, 'x) wait_sys \<Rightarrow> ('s, 'x) wait_sys option" where
  "wait_step ops (WaRunner l) s =
     (if barrier_free (ru_posts ops l) then map_option (\<lambda>r. s\<lparr>wa_runner := r\<rparr>) (ru_step ops l (wa_runner s)) else None)"
| "wait_step ops (WaIdle ctx) s = Some (WaitIdle ops ctx s)"
| "wait_step ops (WaShutdown ctx) s = Some (WaitShutdown ops ctx s)"
| "wait_step ops (WaMove n) s =
     (if n < length (wa_waiters s)
      then map_option (\<lambda>(w, r). s\<lparr>wa_runner := r, wa_waiters := (wa_waiters s)[n := w]\<rparr>)
             (waiter_step ops n (wa_waiters s ! n) (wa_runner s))
      else None)"
| "wait_step ops (WaCtx n) s =
     (if n < length (wa_waiters s)
      then map_option (\<lambda>w. s\<lparr>wa_waiters := (wa_waiters s)[n := w]\<rparr>) (waiter_ctx (wa_ctx_done s) (wa_waiters s ! n))
      else None)"
| "wait_step ops (WaCtxDone c) s = Some (s\<lparr>wa_ctx_done := c # wa_ctx_done s\<rparr>)"

lemma barrier_free_iff: "barrier_free ws \<longleftrightarrow> (\<forall>n. BarrierWork n \<notin> set ws)"
  by (induction ws rule: barrier_free.induct) auto

section \<open>What the callers rely on\<close>

text \<open>
  \<open>pend\<close> is what is posted and not yet begun: in the hands of posting calls or waiting. Only such
  tasks are accepted or begun; before a shutdown drops tasks, the runner runs what it accepted one
  after the other in the order of acceptance.
\<close>

locale waitable =
  fixes I :: "'s \<Rightarrow> bool" and ops :: "('l, 's, 'x) runner_ops" and P :: "'s \<Rightarrow> bool"
    and pend :: "'s \<Rightarrow> 'x work set" and dropped :: "'s \<Rightarrow> bool"
  assumes first: "I s \<Longrightarrow> P s" "I s \<Longrightarrow> pend s = {} \<and> ru_accepted ops s = [] \<and> ru_events ops s = []"
    and kept: "P s \<Longrightarrow> ru_step ops l s = Some s' \<Longrightarrow> P s'"
    and grows: "P s \<Longrightarrow> ru_step ops l s = Some s' \<Longrightarrow>
      \<exists>ys. ru_accepted ops s' = ru_accepted ops s @ ys \<and> set ys \<subseteq> pend s"
    and begins: "P s \<Longrightarrow> ru_step ops l s = Some s' \<Longrightarrow>
      \<exists>es. ru_events ops s' = ru_events ops s @ es \<and> (\<forall>x. Started x \<in> set es \<longrightarrow> x \<in> pend s)"
    and pend_step: "P s \<Longrightarrow> ru_step ops l s = Some s' \<Longrightarrow> pend s' \<subseteq> pend s \<union> set (ru_posts ops l)"
    and in_order: "P s \<Longrightarrow> \<not> dropped s \<Longrightarrow>
      \<exists>fin cur. ru_events ops s = serial_runs fin @ map Started cur \<and> length cur \<le> 1 \<and>
        prefix (fin @ cur) (ru_accepted ops s)"
    and posts_post: "ru_posts ops (ru_post ops x) = [x]"
begin

definition known :: "'s \<Rightarrow> 'x work set" where
  "known r = pend r \<union> set (ru_accepted ops r)"

definition waiter_ok :: "('s, 'x) wait_sys \<Rightarrow> nat \<Rightarrow> bool" where
  "waiter_ok s n \<longleftrightarrow> prefix (wa_before s ! n) (ru_accepted ops (wa_runner s)) \<and> BarrierWork n \<notin> set (wa_before s ! n) \<and>
     (\<forall>ctx. wa_waiters s ! n = IdlePost ctx \<longrightarrow> BarrierWork n \<notin> known (wa_runner s)) \<and>
     (wa_waiters s ! n = IdleReturned WaitNil \<longrightarrow> Started (BarrierWork n) \<in> set (ru_events ops (wa_runner s)))"

definition wait_inv :: "('s, 'x) wait_sys \<Rightarrow> bool" where
  "wait_inv s \<longleftrightarrow> P (wa_runner s) \<and> length (wa_before s) = length (wa_waiters s) \<and>
     (\<forall>n < length (wa_waiters s). waiter_ok s n) \<and>
     (\<forall>n \<ge> length (wa_waiters s). BarrierWork n \<notin> known (wa_runner s))"

lemma known_step:
  assumes "P r" "ru_step ops l r = Some r'"
  shows "known r' \<subseteq> known r \<union> set (ru_posts ops l)"
  using grows [OF assms] pend_step [OF assms] by (auto simp: known_def)

text \<open>A step of the runner keeps what a call relies on, unless it posts the closure of that call.\<close>

lemma waiter_ok_runner:
  assumes st: "P (wa_runner s)" "ru_step ops l (wa_runner s) = Some (wa_runner t)" and ok: "waiter_ok s n"
    and before: "wa_before t ! n = wa_before s ! n"
    and pc: "wa_waiters t ! n = wa_waiters s ! n \<and> BarrierWork n \<notin> set (ru_posts ops l) \<or>
      wa_waiters t ! n \<in> range IdleSelect \<or> (\<exists>k. wa_waiters t ! n \<in> range (IdlePosting k))"
  shows "waiter_ok t n"
proof -
  obtain ys where "ru_accepted ops (wa_runner t) = ru_accepted ops (wa_runner s) @ ys" using grows [OF st] by blast
  with ok before have "prefix (wa_before t ! n) (ru_accepted ops (wa_runner t))" by (auto simp: waiter_ok_def intro: prefix_prefix)
  moreover have "BarrierWork n \<notin> set (wa_before t ! n)" using ok before by (simp add: waiter_ok_def)
  moreover have "BarrierWork n \<notin> known (wa_runner t)" if "wa_waiters t ! n = IdlePost ctx" for ctx
  proof -
    have "BarrierWork n \<notin> set (ru_posts ops l)" "wa_waiters s ! n = IdlePost ctx" using that pc by auto
    with ok have "BarrierWork n \<notin> known (wa_runner s)" by (simp add: waiter_ok_def)
    with known_step [OF st] \<open>BarrierWork n \<notin> set (ru_posts ops l)\<close> show ?thesis by blast
  qed
  moreover have "Started (BarrierWork n) \<in> set (ru_events ops (wa_runner t))" if "wa_waiters t ! n = IdleReturned WaitNil"
    using that pc ok begins [OF st] by (auto simp: waiter_ok_def)
  ultimately show ?thesis by (simp add: waiter_ok_def)
qed

lemma wait_runner_inv:
  assumes "wait_inv s" "barrier_free (ru_posts ops l)" "ru_step ops l (wa_runner s) = Some r'"
  shows "wait_inv (s\<lparr>wa_runner := r'\<rparr>)"
proof -
  have p: "P (wa_runner s)" using assms(1) by (simp add: wait_inv_def)
  have free: "BarrierWork n \<notin> set (ru_posts ops l)" for n using assms(2) by (simp add: barrier_free_iff)
  have "waiter_ok (s\<lparr>wa_runner := r'\<rparr>) j" if "j < length (wa_waiters s)" for j
  proof (rule waiter_ok_runner [of s l, OF p])
    show "waiter_ok s j" using assms(1) that by (simp add: wait_inv_def)
  qed (use assms(3) free in simp_all)
  moreover have "BarrierWork j \<notin> known r'" if "length (wa_waiters s) \<le> j" for j
    using known_step [OF p assms(3)] free [of j] assms(1) that by (auto simp add: wait_inv_def)
  ultimately show ?thesis using assms(1) kept [OF p assms(3)] by (simp add: wait_inv_def)
qed

lemma wait_post_inv:
  assumes "wait_inv s" "n < length (wa_waiters s)" "wa_waiters s ! n = IdlePost ctx"
    and "ru_step ops (ru_post ops (BarrierWork n)) (wa_runner s) = Some r'"
    and "w = IdlePosting k ctx \<or> w = IdleSelect ctx"
  shows "wait_inv (s\<lparr>wa_runner := r', wa_waiters := (wa_waiters s)[n := w]\<rparr>)"
proof -
  let ?t = "s\<lparr>wa_runner := r', wa_waiters := (wa_waiters s)[n := w]\<rparr>"
  have p: "P (wa_runner s)" using assms(1) by (simp add: wait_inv_def)
  have "waiter_ok ?t j" if "j < length (wa_waiters s)" for j
  proof (rule waiter_ok_runner [of s "ru_post ops (BarrierWork n)", OF p])
    show "waiter_ok s j" using assms(1) that by (simp add: wait_inv_def)
    show "wa_waiters ?t ! j = wa_waiters s ! j \<and> BarrierWork j \<notin> set (ru_posts ops (ru_post ops (BarrierWork n))) \<or>
        wa_waiters ?t ! j \<in> range IdleSelect \<or> (\<exists>k. wa_waiters ?t ! j \<in> range (IdlePosting k))"
      using assms(2,5) by (cases "j = n") (auto simp: posts_post)
  qed (use assms(4) in simp_all)
  moreover have "BarrierWork j \<notin> known r'" if "length (wa_waiters s) \<le> j" for j
    using known_step [OF p assms(4)] assms(1,2) that by (auto simp: wait_inv_def posts_post)
  ultimately show ?thesis using assms(1) kept [OF p assms(4)] by (simp add: wait_inv_def)
qed

text \<open>A call moves and the runner does not.\<close>

lemma wait_move_inv:
  assumes "wait_inv s" "n < length (wa_waiters s)" "\<And>ctx. w \<noteq> IdlePost ctx"
    and "w = IdleReturned WaitNil \<longrightarrow> Started (BarrierWork n) \<in> set (ru_events ops (wa_runner s))"
  shows "wait_inv (s\<lparr>wa_waiters := (wa_waiters s)[n := w]\<rparr>)"
  using assms by (auto simp: wait_inv_def waiter_ok_def nth_list_update)

lemma wait_add_inv:
  assumes "wait_inv s" "w \<noteq> IdleReturned WaitNil"
  shows "wait_inv (add_waiter w (ru_accepted ops (wa_runner s)) s)"
proof -
  let ?t = "add_waiter w (ru_accepted ops (wa_runner s)) s" and ?n = "length (wa_waiters s)"
  have new: "BarrierWork ?n \<notin> known (wa_runner s)" using assms(1) by (simp add: wait_inv_def)
  have "waiter_ok ?t j" if "j < Suc ?n" for j
  proof (cases "j = ?n")
    case True
    with assms new show ?thesis by (auto simp: wait_inv_def waiter_ok_def add_waiter_def nth_append known_def)
  next
    case False
    with assms(1) that show ?thesis by (auto simp: wait_inv_def waiter_ok_def add_waiter_def nth_append)
  qed
  with assms(1) show ?thesis by (auto simp: wait_inv_def add_waiter_def)
qed

lemma wait_step_inv:
  assumes inv: "wait_inv s" and st: "wait_step ops l s = Some s'"
  shows "wait_inv s'"
proof (cases l)
  case (WaRunner k)
  with st wait_runner_inv [OF inv, of k] show ?thesis by (auto split: if_splits)
next
  case (WaIdle ctx)
  with st wait_add_inv [OF inv] show ?thesis by (auto simp: WaitIdle_def split: if_splits)
next
  case (WaShutdown ctx)
  with st wait_add_inv [OF inv] show ?thesis by (auto simp: WaitShutdown_def)
next
  case (WaMove n)
  with st have n: "n < length (wa_waiters s)" by (simp split: if_splits)
  with WaMove st show ?thesis
    using wait_post_inv [OF inv n] wait_move_inv [OF inv n]
    by (cases "wa_waiters s ! n") (auto split: if_splits)
next
  case (WaCtx n)
  with st have n: "n < length (wa_waiters s)" by (simp split: if_splits)
  with WaCtx st obtain w where w: "waiter_ctx (wa_ctx_done s) (wa_waiters s ! n) = Some w"
    "s' = s\<lparr>wa_waiters := (wa_waiters s)[n := w]\<rparr>" by auto
  from w(1) have "w = IdleReturned WaitCtx \<or> w = ShutReturned WaitCtx"
    by (cases "(wa_ctx_done s, wa_waiters s ! n)" rule: waiter_ctx.cases) (auto split: if_splits)
  with wait_move_inv [OF inv n] w(2) show ?thesis by auto
next
  case (WaCtxDone c)
  with st inv show ?thesis by (auto simp: wait_inv_def waiter_ok_def)
qed

lemma wait_init_inv: "I r \<Longrightarrow> wait_inv (wait_init r)"
  using first [of r] by (simp add: wait_inv_def wait_init_def known_def)

text \<open>What \<^verbatim>\<open>WaitIdle\<close> guarantees when it returns nil and nothing was dropped.\<close>

lemma idle_means_done:
  assumes "wait_inv s" "n < length (wa_waiters s)" "wa_waiters s ! n = IdleReturned WaitNil" "\<not> dropped (wa_runner s)"
  shows "prefix (serial_runs (wa_before s ! n)) (ru_events ops (wa_runner s))"
proof -
  let ?b = "BarrierWork n" and ?xs = "wa_before s ! n" and ?r = "wa_runner s"
  have ok: "prefix ?xs (ru_accepted ops ?r)" "?b \<notin> set ?xs" "Started ?b \<in> set (ru_events ops ?r)" "P ?r"
    using assms(1-3) by (auto simp: wait_inv_def waiter_ok_def)
  from in_order [OF ok(4) assms(4)] obtain fin cur where f: "ru_events ops ?r = serial_runs fin @ map Started cur"
    "length cur \<le> 1" "prefix (fin @ cur) (ru_accepted ops ?r)" by blast
  have "?b \<in> set (fin @ cur)" using ok(3) f(1) by (auto simp: serial_runs_def)
  with ok(2) have "\<not> prefix (fin @ cur) ?xs" by (meson set_mono_prefix subsetD)
  with prefix_same_cases [OF ok(1) f(3)] have pre: "prefix ?xs (fin @ cur)" "?xs \<noteq> fin @ cur" by auto
  then have "length ?xs < length (fin @ cur)" by (metis prefix_length_less prefix_order.le_neq_trans)
  with f(2) have "length ?xs \<le> length fin" by simp
  with pre(1) have "prefix ?xs fin" by (metis prefix_length_prefix prefixI)
  then show ?thesis using f(1) by (auto simp: prefix_def serial_runs_def)
qed

text \<open>
  A call without a context that waits for a closure which is neither pending nor begun.
\<close>

definition abandoned :: "nat \<Rightarrow> ('s, 'x) wait_sys \<Rightarrow> bool" where
  "abandoned n s \<longleftrightarrow> n < length (wa_waiters s) \<and> wa_waiters s ! n = IdleSelect None \<and> P (wa_runner s) \<and>
     BarrierWork n \<notin> pend (wa_runner s) \<and> Started (BarrierWork n) \<notin> set (ru_events ops (wa_runner s))"

lemma abandoned_runner:
  assumes "abandoned n s" "ru_step ops l (wa_runner s) = Some (wa_runner t)" "BarrierWork n \<notin> set (ru_posts ops l)"
    and "length (wa_waiters t) = length (wa_waiters s)" "wa_waiters t ! n = wa_waiters s ! n"
  shows "abandoned n t"
proof -
  have p: "P (wa_runner s)" using assms(1) by (simp add: abandoned_def)
  from begins [OF p assms(2)] pend_step [OF p assms(2)] kept [OF p assms(2)] assms show ?thesis
    by (auto simp: abandoned_def)
qed

lemma abandoned_step:
  assumes ab: "abandoned n s" and st: "wait_step ops l s = Some s'"
  shows "abandoned n s'"
proof (cases l)
  case (WaRunner k)
  with st obtain r where r: "ru_step ops k (wa_runner s) = Some r" "s' = s\<lparr>wa_runner := r\<rparr>" "barrier_free (ru_posts ops k)"
    by (auto split: if_splits)
  then show ?thesis by (intro abandoned_runner [OF ab, of k]) (simp_all add: barrier_free_iff)
next
  case (WaMove m)
  with st obtain w r where m: "m < length (wa_waiters s)" "waiter_step ops m (wa_waiters s ! m) (wa_runner s) = Some (w, r)"
    "s' = s\<lparr>wa_runner := r, wa_waiters := (wa_waiters s)[m := w]\<rparr>" by (auto split: if_splits)
  with ab have "m \<noteq> n" by (auto simp: abandoned_def)
  show ?thesis
  proof (cases "wa_waiters s ! m")
    case (IdlePost ctx)
    with m(2) have "ru_step ops (ru_post ops (BarrierWork m)) (wa_runner s) = Some r" by auto
    with m(3) \<open>m \<noteq> n\<close> show ?thesis
      by (intro abandoned_runner [OF ab, of "ru_post ops (BarrierWork m)"]) (simp_all add: posts_post)
  qed (use m ab \<open>m \<noteq> n\<close> in \<open>auto simp: abandoned_def split: if_splits\<close>)
next
  case (WaCtx m)
  with st ab show ?thesis by (cases "m = n") (auto simp: abandoned_def split: if_splits)
qed (use st ab in \<open>auto simp: abandoned_def WaitIdle_def WaitShutdown_def add_waiter_def nth_append\<close>)

lemma abandoned_run: "abandoned n s \<Longrightarrow> run (wait_step ops) ls s = Some s' \<Longrightarrow> wa_waiters s' ! n = IdleSelect None"
proof (induction ls arbitrary: s)
  case Nil
  then show ?case by (simp add: abandoned_def)
next
  case (Cons l ls)
  then obtain u where "wait_step ops l s = Some u" "run (wait_step ops) ls u = Some s'"
    by (auto split: option.splits)
  with Cons.IH abandoned_step [OF Cons.prems(1)] show ?case by blast
qed

end

sublocale waitable \<subseteq> waits: inv_system "\<lambda>s. \<exists>r. I r \<and> s = wait_init r" "lstep (wait_step ops)" wait_inv
  by unfold_locales (auto simp: lstep_def intro: wait_init_inv wait_step_inv)

end
