(* ===== verification/Serial_Runner.thy ===== *)
theory Serial_Runner
  imports Serial_Spec Sequenced_Runner Single_Thread_Runner
begin

text \<open>
  The sequenced runner over the pool and the single-thread runner over its channel both implement
  the serial runner.
\<close>

section \<open>The sequenced runner is serial\<close>

text \<open>
  A task that a loop has popped and not begun counts as the first waiting one. \<open>HChan\<close> and later
  points of \<^verbatim>\<open>Shutdown\<close> come after the flag.
\<close>

fun l_popped :: "'t loop_at \<Rightarrow> 't TaskItem list" where
  "l_popped (LTask x) = [x]" | "l_popped _ = []"

fun l_inside :: "'t loop_at \<Rightarrow> 't TaskItem list" where
  "l_inside (LInside x) = [x]" | "l_inside _ = []"

definition seq_serial :: "('t, 'v) seq_sys \<Rightarrow> 't TaskItem serial" where
  "seq_serial s =
     \<lparr>se_accepted = ss_accepted s, se_waiting = concat (map l_popped (ss_loops s)) @ ss_contents s,
      se_running = (case concat (map l_inside (ss_loops s)) of [] \<Rightarrow> None | x # _ \<Rightarrow> Some x),
      se_trace = map (\<lambda>e. case e of Begin x \<Rightarrow> Started x | End x \<Rightarrow> Finished x) (ss_trace s),
      se_shut = sr_closed (ss_runner s)\<rparr>"

definition shut_ok :: "('t, 'v) seq_sys \<Rightarrow> bool" where
  "shut_ok s \<longleftrightarrow> (set (ss_shutters s) \<subseteq> {HClose} \<or> sr_closed (ss_runner s))"

lemma tok_zero: "l_tok pc = 0 \<Longrightarrow> l_popped pc = [] \<and> l_inside pc = []"
  by (cases pc) auto

lemma seq_one_token: "seq_inv s \<Longrightarrow> weight l_tok (ss_loops s) \<le> 1"
  by (auto simp: seq_inv_defs)

lemma loop_kept:
  "k < length ls \<Longrightarrow> f pc = f (ls ! k) \<Longrightarrow> concat (map f (ls[k := pc])) = concat (map f ls)"
  by (metis list_update_id map_update)

text \<open>The views of a state in which a loop or something else has moved.\<close>

lemma seq_serial_loop:
  assumes "seq_inv s" "k < length (ss_loops s)" "0 < l_tok (ss_loops s ! k)"
  shows "concat (map l_popped ((ss_loops s)[k := pc])) = l_popped pc"
    "concat (map l_inside ((ss_loops s)[k := pc])) = l_inside pc"
  using concat_of_owner [OF assms(2,3) seq_one_token [OF assms(1)]] tok_zero by blast+

lemma seq_serial_now:
  assumes "seq_inv s" "k < length (ss_loops s)" "0 < l_tok (ss_loops s ! k)"
  shows "concat (map l_popped (ss_loops s)) = l_popped (ss_loops s ! k)"
    "concat (map l_inside (ss_loops s)) = l_inside (ss_loops s ! k)"
  using seq_serial_loop [OF assms, of "ss_loops s ! k"] by (simp_all only: list_update_id)

lemma seq_serial_same:
  assumes "ss_accepted t = ss_accepted s" "ss_trace t = ss_trace s" "sr_closed (ss_runner t) = sr_closed (ss_runner s)"
    "ss_contents t = ss_contents s"
    and "concat (map l_popped (ss_loops t)) = concat (map l_popped (ss_loops s))"
    and "concat (map l_inside (ss_loops t)) = concat (map l_inside (ss_loops s))"
  shows "seq_serial t = seq_serial s"
  using assms by (simp add: seq_serial_def)

lemma seq_serial_loop_same:
  assumes "k < length (ss_loops s)" "ss_loops t = (ss_loops s)[k := pc]"
    "l_popped pc = l_popped (ss_loops s ! k)" "l_inside pc = l_inside (ss_loops s ! k)"
    "ss_accepted t = ss_accepted s" "ss_trace t = ss_trace s" "sr_closed (ss_runner t) = sr_closed (ss_runner s)"
    "ss_contents t = ss_contents s"
  shows "seq_serial t = seq_serial s"
  using assms by (intro seq_serial_same) (simp_all add: loop_kept)

lemma pool_post_view [simp]:
  "ss_accepted (pool_post tr s) = ss_accepted s" "ss_trace (pool_post tr s) = ss_trace s"
  "ss_runner (pool_post tr s) = ss_runner s" "ss_loops (pool_post tr s) = ss_loops s"
  by (simp_all add: pool_post_def)

lemma loop_pop_serial:
  assumes inv: "seq_inv s" and k: "k < length (ss_loops s)" "ss_loops s ! k = LPop"
    and st: "loop_step LPop s = Some (pc', s1)"
  shows "seq_serial (s1\<lparr>ss_loops := (ss_loops s)[k := pc']\<rparr>) = seq_serial s"
proof -
  have fi: "fifo_invar (sr_queue (ss_runner s))" using inv by (simp add: seq_inv_def)
  have now: "concat (map l_popped (ss_loops s)) = []" "concat (map l_inside (ss_loops s)) = []"
    using seq_serial_now [OF inv k(1)] k(2) by (simp_all del: concat_eq_Nil_conv)
  show ?thesis
  proof (cases "ss_contents s")
    case Nil
    from fifo.pop_empty [OF fi this] st have "pc' = LStore" "s1 = s" by (auto simp: sr_pop_def)
    with k show ?thesis by (intro seq_serial_loop_same [of k s _ LStore]) simp_all
  next
    case (Cons x xs)
    from fifo.pop_Cons [OF fi this] obtain q where q: "fifo_pop_item (sr_queue (ss_runner s)) = (Some x, q)"
      "fifo_contents q = xs" by blast
    with st have "pc' = LTask x" "s1 = s\<lparr>ss_runner := (ss_runner s)\<lparr>sr_queue := q\<rparr>, ss_started := ss_started s @ [x]\<rparr>"
      by (auto simp: sr_pop_def)
    with q Cons now show ?thesis
      using seq_serial_loop [OF inv k(1), of "LTask x"] k(2) by (simp add: seq_serial_def del: fifo_contents_Nil concat_eq_Nil_conv)
  qed
qed

lemma loop_begin_serial:
  assumes inv: "seq_inv s" and k: "k < length (ss_loops s)" "ss_loops s ! k = LTask x"
  shows "serial_step (seq_serial s) (seq_serial (s\<lparr>ss_trace := ss_trace s @ [Begin x], ss_loops := (ss_loops s)[k := LInside x]\<rparr>))"
proof -
  have tok: "0 < l_tok (ss_loops s ! k)" using k by simp
  note upd = seq_serial_loop [OF inv k(1) tok]
  have "concat (map l_popped (ss_loops s)) = [x]" "concat (map l_inside (ss_loops s)) = []"
    using seq_serial_now [OF inv k(1) tok] k(2) by (simp_all del: concat_eq_Nil_conv)
  then show ?thesis
    using upd [of "LInside x"]
    by (intro serial_startI [of _ x]) (simp_all add: seq_serial_def del: concat_eq_Nil_conv)
qed

lemma loop_end_serial:
  assumes inv: "seq_inv s" and k: "k < length (ss_loops s)" "ss_loops s ! k = LInside x"
  shows "serial_step (seq_serial s) (seq_serial (s\<lparr>ss_trace := ss_trace s @ [End x], ss_loops := (ss_loops s)[k := LMore]\<rparr>))"
proof -
  have tok: "0 < l_tok (ss_loops s ! k)" using k by simp
  note upd = seq_serial_loop [OF inv k(1) tok]
  have "concat (map l_popped (ss_loops s)) = []" "concat (map l_inside (ss_loops s)) = [x]"
    using seq_serial_now [OF inv k(1) tok] k(2) by (simp_all del: concat_eq_Nil_conv)
  then show ?thesis
    using upd [of LMore]
    by (intro serial_finishI [of _ x]) (simp_all add: seq_serial_def del: concat_eq_Nil_conv)
qed

lemma loop_serial:
  assumes inv: "seq_inv s" and k: "k < length (ss_loops s)"
    and st: "loop_step (ss_loops s ! k) s = Some (pc', s1)"
  shows "serial_step (seq_serial s) (seq_serial (s1\<lparr>ss_loops := (ss_loops s)[k := pc']\<rparr>)) \<or>
     seq_serial (s1\<lparr>ss_loops := (ss_loops s)[k := pc']\<rparr>) = seq_serial s"
proof (cases "ss_loops s ! k")
  case LPop
  with st loop_pop_serial [OF inv k LPop] show ?thesis by simp
next
  case (LTask x)
  with st loop_begin_serial [OF inv k LTask] show ?thesis by auto
next
  case (LInside x)
  with st loop_end_serial [OF inv k LInside] show ?thesis by auto
next
  case LCheck
  with st k show ?thesis by (intro disjI2 seq_serial_loop_same [of k s _ pc']) auto
next
  case LMore
  with st k show ?thesis by (intro disjI2 seq_serial_loop_same [of k s _ pc']) (auto split: option.splits)
next
  case (LPost tr)
  with st k show ?thesis by (intro disjI2 seq_serial_loop_same [of k s _ pc']) auto
next
  case LStore
  with st k show ?thesis by (intro disjI2 seq_serial_loop_same [of k s _ pc']) (auto simp: sr_store_idle_def)
next
  case LDouble
  with st k show ?thesis by (intro disjI2 seq_serial_loop_same [of k s _ pc']) (auto split: option.splits)
next
  case (LEnsure tr)
  with st k show ?thesis by (intro disjI2 seq_serial_loop_same [of k s _ pc']) (auto simp: sr_cas_def split: if_splits)
next
  case (LPostNew tr)
  with st k show ?thesis by (intro disjI2 seq_serial_loop_same [of k s _ pc']) auto
qed (use st in simp_all)

lemma poster_serial:
  assumes inv: "seq_inv s" and st: "post_step grow i pc s = Some (pc', s1)"
  shows "serial_step (seq_serial s) (seq_serial (s1\<lparr>ss_posters := ps\<rparr>)) \<or> seq_serial (s1\<lparr>ss_posters := ps\<rparr>) = seq_serial s"
proof (cases pc)
  case (QPush t tr)
  have "fifo_invar (sr_queue (ss_runner s))" using inv by (simp add: seq_inv_def)
  from fifo_push [OF this, of grow i t tr] st QPush show ?thesis
    by (intro disjI1 serial_acceptI [of _ _ "\<lparr>Task = t, Traits = tr, ID = i\<rparr>"])
      (auto simp: seq_serial_def sr_push_def fifo_insert_def)
next
  case (QEnsure tr)
  with st show ?thesis by (intro disjI2 seq_serial_same) (auto simp: sr_cas_def split: if_splits)
next
  case (QPost tr)
  with st show ?thesis by (intro disjI2 seq_serial_same) auto
qed (use st in simp)

lemma shutter_serial:
  assumes ok: "shut_ok s" "pc \<in> set (ss_shutters s)" and st: "shut_step pc s = Some (pc', s1)"
  shows "serial_step (seq_serial s) (seq_serial (s1\<lparr>ss_shutters := hs\<rparr>)) \<or> seq_serial (s1\<lparr>ss_shutters := hs\<rparr>) = seq_serial s"
proof (cases pc)
  case HClose
  with st show ?thesis by (intro disjI1 serial_shutI) (auto simp: seq_serial_def sr_close_def)
next
  case HChan
  with st show ?thesis by (intro disjI2 seq_serial_same) (auto simp: sr_close_chan_def)
next
  case HClear
  with ok have "sr_closed (ss_runner s)" by (auto simp: shut_ok_def)
  with HClear st show ?thesis by (intro disjI1 serial_dropI) (auto simp: seq_serial_def sr_clear_def)
qed (use st in simp)

lemma closed_kept:
  "loop_step pc s = Some (pc', s1) \<Longrightarrow> sr_closed (ss_runner s1) = sr_closed (ss_runner s) \<and> ss_shutters s1 = ss_shutters s"
  "post_step grow i q s = Some (q', s1) \<Longrightarrow> sr_closed (ss_runner s1) = sr_closed (ss_runner s) \<and> ss_shutters s1 = ss_shutters s"
  by (cases pc; auto simp: model_defs pool_post_def split: option.splits prod.splits if_splits)
    (cases q; auto simp: model_defs pool_post_def split: prod.splits if_splits)

lemma shut_ok_step:
  assumes ok: "shut_ok s" and st: "seq_step grow l s = Some s'"
  shows "shut_ok s'"
proof (cases l)
  case (SPoster k i)
  with st ok show ?thesis by (auto simp: shut_ok_def split: if_splits dest!: closed_kept(2))
next
  case (SLoop k)
  with st ok show ?thesis by (auto simp: shut_ok_def split: if_splits dest!: closed_kept(1))
next
  case (SShutter k)
  with st ok show ?thesis
    by (cases "ss_shutters s ! k")
      (auto simp: shut_ok_def sr_close_def sr_close_chan_def sr_clear_def split: if_splits dest!: nth_mem)
qed (use st ok in \<open>auto simp: shut_ok_def split: if_splits\<close>)

lemma seq_step_serial:
  assumes inv: "seq_inv s" "shut_ok s" and st: "seq_step grow l s = Some s'"
  shows "serial_step (seq_serial s) (seq_serial s') \<or> seq_serial s' = seq_serial s"
proof (cases l)
  case (SPost t tr)
  with st show ?thesis by (auto simp: seq_serial_def split: if_splits)
next
  case (SPoster k i)
  with st obtain pc s1 where "post_step grow i (ss_posters s ! k) s = Some (pc, s1)"
    "s' = s1\<lparr>ss_posters := (ss_posters s)[k := pc]\<rparr>" by (auto split: if_splits)
  with poster_serial [OF inv(1)] show ?thesis by blast
next
  case (SRunLoop k)
  with st show ?thesis by (intro disjI2 seq_serial_same) (auto split: if_splits)
next
  case (SLoop k)
  with st loop_serial [OF inv(1)] show ?thesis by (auto split: if_splits)
next
  case SShutdown
  with st show ?thesis by (intro disjI2 seq_serial_same) (auto split: if_splits)
next
  case (SShutter k)
  with st shutter_serial [OF inv(2) nth_mem] show ?thesis by (auto split: if_splits)
next
  case SPoolStop
  with st show ?thesis by (intro disjI2 seq_serial_same) auto
qed

interpretation seq_sim: simulation "\<lambda>s. \<exists>mem. s = seq_init mem" "lstep (seq_step grow)" "\<lambda>s. seq_inv s \<and> shut_ok s"
  "\<lambda>s. s = serial_init" serial_step seq_serial for grow
proof unfold_locales
  show "seq_inv s \<and> shut_ok s" if "\<exists>mem. s = seq_init mem" for s :: "('t, 'v) seq_sys"
    using that seq_inv_init by (auto simp: shut_ok_def seq_init_def [of mem for mem])
  show "seq_inv t \<and> shut_ok t" if "seq_inv s \<and> shut_ok s" "lstep (seq_step grow) s t" for s t :: "('t, 'v) seq_sys"
    using that by (auto simp: lstep_def intro: seq_step_inv shut_ok_step)
  show "seq_serial s = serial_init" if "\<exists>mem. s = seq_init mem" for s :: "('t, 'v) seq_sys"
    using that by (auto simp: seq_serial_def seq_init_def serial_init_def NewSequencedTaskRunner_def simp del: fifo_contents_Nil)
  show "serial_step (seq_serial s) (seq_serial t) \<or> seq_serial t = seq_serial s"
    if "seq_inv s \<and> shut_ok s" "lstep (seq_step grow) s t" for s t :: "('t, 'v) seq_sys"
    using that by (auto simp: lstep_def dest: seq_step_serial)
qed

section \<open>The single-thread runner is serial\<close>

definition st_serial :: "('t, 'v, 'c) st_sys \<Rightarrow> 't serial" where
  "st_serial s =
     \<lparr>se_accepted = y_sent s, se_waiting = st_workQueue (y_runner s),
      se_running = (case y_loop s of StInside t \<Rightarrow> Some t | _ \<Rightarrow> None),
      se_trace = map (\<lambda>e. case e of StBegin x \<Rightarrow> Started x | StEnd x \<Rightarrow> Finished x) (y_trace s),
      se_shut = st_closed (y_runner s)\<rparr>"

lemma st_loop_serial:
  assumes "st_loop_step receive s = Some s'"
  shows "serial_step (st_serial s) (st_serial s') \<or> st_serial s' = st_serial s"
proof (cases "y_loop s")
  case StSelect
  show ?thesis
  proof (cases "receive")
    case True
    with assms StSelect obtain t q where "st_workQueue (y_runner s) = t # q" by (auto split: list.splits)
    with assms StSelect True show ?thesis by (intro disjI1 serial_startI [of _ t]) (auto simp: st_serial_def)
  next
    case False
    with assms StSelect show ?thesis by (intro disjI2) (auto simp: st_serial_def split: if_splits)
  qed
next
  case (StInside t)
  with assms show ?thesis by (intro disjI1 serial_finishI [of _ t]) (auto simp: st_serial_def)
qed (use assms in simp)

lemma st_poster_serial:
  assumes st: "st_poster_step b pc s = Some (pc', s1)"
  shows "serial_step (st_serial s) (st_serial (s1\<lparr>y_posters := ps\<rparr>)) \<or> st_serial (s1\<lparr>y_posters := ps\<rparr>) = st_serial s"
proof (cases pc)
  case (StSend p c t tr)
  show ?thesis
  proof (cases b p c t tr "y_runner s" rule: enqueue_select_cases)
    case 2
    with StSend st show ?thesis by (intro disjI1 serial_acceptI [of _ _ t]) (auto simp: st_serial_def)
  qed (use StSend st in \<open>auto simp: st_serial_def\<close>)
qed (use st in \<open>auto simp: st_serial_def\<close>)

lemma st_step_serial:
  assumes st: "st_step l s = Some s'"
  shows "serial_step (st_serial s) (st_serial s') \<or> st_serial s' = st_serial s"
proof (cases l)
  case (YPoster k b)
  with st obtain pc s1 where "st_poster_step b (y_posters s ! k) s = Some (pc, s1)"
    "s' = s1\<lparr>y_posters := (y_posters s)[k := pc]\<rparr>" by (auto split: if_splits)
  with st_poster_serial show ?thesis by blast
next
  case (YLoop b)
  with st show ?thesis by (intro st_loop_serial [of b]) (simp del: st_loop_step.simps)
next
  case YShutdown
  with st show ?thesis
    by (cases "st_shutdownOnce (y_runner s)")
      (simp add: st_Shutdown_def, intro disjI1 serial_shutI, auto simp: st_serial_def st_Shutdown_def)
next
  case YStop
  with st show ?thesis
    by (cases "st_once (y_runner s)")
      (simp, intro disjI1 serial_shutI, auto simp: st_serial_def st_Stop_begin_def Let_def)
qed (use st in \<open>auto simp: st_serial_def SetQueuePolicy_def SetRejectionCallback_def split: if_splits\<close>)

interpretation st_sim: simulation "\<lambda>s. s = st_init" "lstep st_step" st_inv "\<lambda>s. s = serial_init" serial_step st_serial
proof unfold_locales
  show "st_serial s = serial_init" if "s = st_init" for s :: "('t, 'v, 'c) st_sys"
    by (simp add: that st_serial_def st_init_def serial_init_def NewSingleThreadTaskRunner_def)
  show "serial_step (st_serial s) (st_serial t) \<or> st_serial t = st_serial s"
    if "lstep st_step s t" for s t :: "('t, 'v, 'c) st_sys"
    using that by (auto simp: lstep_def dest: st_step_serial)
qed

section \<open>The properties\<close>

text \<open>
  C13: The sequenced runner implements the serial runner. A new one is the initial serial runner; each
  step of any of its goroutines, from any reachable state, is one step of the serial runner (a task is
  accepted, the oldest waiting task starts while none runs, the running task ends, the runner is
  shut down, waiting tasks are dropped after that) or is invisible.
\<close>

theorem sequenced_refines_serial:
  assumes "seq_reachable grow s" "seq_step grow l s = Some s'"
  shows "(\<forall>mem. seq_serial (seq_init mem :: ('t, 'v) seq_sys) = serial_init) \<and>
     (serial_step (seq_serial s) (seq_serial (s' :: ('t, 'v) seq_sys)) \<or> seq_serial s' = seq_serial s) \<and>
     reach (\<lambda>a. a = serial_init) serial_step (seq_serial s')"
  using seq_sim.view_init seq_sim.view_step [OF seq_sim.holds_reach [OF assms(1)] lstepI [of "seq_step grow", OF assms(2)]]
    seq_sim.view_reach [OF reach_step [OF assms(1) lstepI [of "seq_step grow", OF assms(2)]]]
  by blast

theorem sequenced_refines_serial_witness:
  "\<exists>s'. seq_step id (SLoop 0) ex_seq = Some s' \<and> se_running (seq_serial ex_seq) \<noteq> None \<and>
     reach (\<lambda>a. a = serial_init) serial_step (seq_serial s')"
proof -
  have "seq_step id (SLoop 0) ex_seq \<noteq> None" by (simp add: ex_seq_state)
  then obtain s' where s': "seq_step id (SLoop 0) ex_seq = Some s'" by blast
  with sequenced_refines_serial [OF ex_seq_reachable s'] show ?thesis by (simp add: seq_serial_def ex_seq_state)
qed

text \<open>
  C14: The single-thread runner implements the same serial runner over its channel and its own
  goroutine, whatever its queue policy and whoever stops it.
\<close>

theorem single_thread_refines_serial:
  assumes "st_reachable s" "st_step l s = Some s'"
  shows "st_serial (st_init :: ('t, 'v, 'c) st_sys) = serial_init \<and>
     (serial_step (st_serial s) (st_serial (s' :: ('t, 'v, 'c) st_sys)) \<or> st_serial s' = st_serial s) \<and>
     reach (\<lambda>a. a = serial_init) serial_step (st_serial s')"
  using st_sim.view_init st_sim.view_step [OF sts.holds_reach [OF assms(1)] lstepI [of st_step, OF assms(2)]]
    st_sim.view_reach [OF reach_step [OF assms(1) lstepI [of st_step, OF assms(2)]]]
  by blast

theorem single_thread_refines_serial_witness:
  "\<exists>s'. st_step (YLoop True) ex_st = Some s' \<and> se_running (st_serial ex_st) = Some 1 \<and>
     reach (\<lambda>a. a = serial_init) serial_step (st_serial s')"
proof -
  have "st_step (YLoop True) ex_st \<noteq> None" by (simp add: ex_st_state)
  then obtain s' where s': "st_step (YLoop True) ex_st = Some s'" by blast
  with single_thread_refines_serial [OF ex_st_reachable s'] show ?thesis by (simp add: st_serial_def ex_st_state)
qed

end
