(* ===== verification/Wait_Runners.thy ===== *)
theory Wait_Runners
  imports Runner_Wait Serial_Runner
begin

text \<open>
  \<^verbatim>\<open>WaitIdle\<close>, \<^verbatim>\<open>FlushAsync\<close> and \<^verbatim>\<open>WaitShutdown\<close> over the sequenced and the single-thread runner: both
  provide what the waiting calls rely on.
\<close>

section \<open>The sequenced runner\<close>

definition seq_ops :: "(nat \<Rightarrow> nat) \<Rightarrow> ('x work seq_label, ('x work, 'v) seq_sys, 'x) runner_ops" where
  "seq_ops grow =
     \<lparr>ru_step = seq_step grow, ru_post = (\<lambda>w. SPost w DefaultTaskTraits),
      ru_posts = (\<lambda>l. case l of SPost t tr \<Rightarrow> [t] | _ \<Rightarrow> []),
      ru_closed = (\<lambda>s. sr_closed (ss_runner s)), ru_shutdownChan_closed = (\<lambda>s. sr_shutdownChan_closed (ss_runner s)),
      ru_accepted = (\<lambda>s. map Task (ss_accepted s)),
      ru_events = (\<lambda>s. map (map_serial_event Task) (se_trace (seq_serial s))),
      ru_calls = (\<lambda>s. length (ss_posters s)), ru_returned = (\<lambda>s k. ss_posters s ! k = QReturned)\<rparr>"

lemma seq_ops_simps [simp]:
  "ru_step (seq_ops grow) = seq_step grow" "ru_post (seq_ops grow) w = SPost w DefaultTaskTraits"
  "ru_posts (seq_ops grow) (SPost t tr) = [t]" "ru_accepted (seq_ops grow) s = map Task (ss_accepted s)"
  "ru_events (seq_ops grow) s = map (map_serial_event Task) (se_trace (seq_serial s))"
  by (simp_all add: seq_ops_def)

definition posting :: "'t post_at list \<Rightarrow> 't set" where
  "posting ps = {t. \<exists>tr. QPush t tr \<in> set ps}"

lemma posting_update: "(\<And>t tr. pc \<noteq> QPush t tr) \<Longrightarrow> posting (ps[k := pc]) \<subseteq> posting ps"
  using set_update_subset_insert [of ps k pc] by (auto simp: posting_def)

definition seq_pend :: "('t, 'v) seq_sys \<Rightarrow> 't set" where
  "seq_pend s = Task ` set (se_waiting (seq_serial s)) \<union> posting (ss_posters s)"

lemma seq_accepts:
  assumes "seq_step grow l s = Some s'"
  shows "\<exists>ys. ss_accepted s' = ss_accepted s @ ys \<and> Task ` set ys \<subseteq> posting (ss_posters s)"
    "posting (ss_posters s') \<subseteq> posting (ss_posters s) \<union> (case l of SPost t tr \<Rightarrow> {t} | _ \<Rightarrow> {})"
proof -
  have "(\<exists>ys. ss_accepted s' = ss_accepted s @ ys \<and> Task ` set ys \<subseteq> posting (ss_posters s)) \<and>
    posting (ss_posters s') \<subseteq> posting (ss_posters s) \<union> (case l of SPost t tr \<Rightarrow> {t} | _ \<Rightarrow> {})"
  proof (cases l)
    case (SPost t tr)
    with assms show ?thesis by (auto simp: posting_def split: if_splits)
  next
    case (SPoster k i)
    with assms have k: "k < length (ss_posters s)" by (simp split: if_splits)
    with SPoster assms obtain pc s1 where st: "post_step grow i (ss_posters s ! k) s = Some (pc, s1)"
      "s' = s1\<lparr>ss_posters := (ss_posters s)[k := pc]\<rparr>" by auto
    from st(1) have "\<And>t tr. pc \<noteq> QPush t tr" by (cases "ss_posters s ! k") (auto split: prod.splits if_splits)
    then have "posting ((ss_posters s)[k := pc]) \<subseteq> posting (ss_posters s)" by (rule posting_update)
    moreover have "\<exists>ys. ss_accepted s1 = ss_accepted s @ ys \<and> Task ` set ys \<subseteq> posting (ss_posters s)"
      using st(1) nth_mem [OF k]
      by (cases "ss_posters s ! k") (auto simp: posting_def pool_post_def split: prod.splits if_splits)
    ultimately show ?thesis using st(2) SPoster by simp
  next
    case (SLoop k)
    have "ss_accepted s1 = ss_accepted s \<and> ss_posters s1 = ss_posters s" if "loop_step pc s = Some (pc', s1)" for pc pc' s1
      using that by (cases pc) (auto simp: pool_post_def split: prod.splits option.splits if_splits)
    with SLoop assms show ?thesis by (auto split: if_splits)
  next
    case (SShutter k)
    have "ss_accepted s1 = ss_accepted s \<and> ss_posters s1 = ss_posters s" if "shut_step pc s = Some (pc', s1)" for pc pc' s1
      using that by (cases pc) auto
    with SShutter assms show ?thesis by (auto split: if_splits)
  qed (use assms in \<open>auto split: if_splits\<close>)
  then show "\<exists>ys. ss_accepted s' = ss_accepted s @ ys \<and> Task ` set ys \<subseteq> posting (ss_posters s)"
    "posting (ss_posters s') \<subseteq> posting (ss_posters s) \<union> (case l of SPost t tr \<Rightarrow> {t} | _ \<Rightarrow> {})" by blast+
qed

lemma seq_begins:
  assumes "seq_inv s \<and> shut_ok s" "seq_step grow l s = Some s'"
  shows "\<exists>es. se_trace (seq_serial s') = se_trace (seq_serial s) @ es \<and>
    (\<forall>x. Started x \<in> set es \<longrightarrow> x \<in> set (se_waiting (seq_serial s)))"
  using seq_step_serial [of s grow l s'] assms serial_step_begins by fastforce

lemma seq_pend_step:
  assumes "seq_inv s \<and> shut_ok s" "seq_step grow l s = Some s'"
  shows "seq_pend s' \<subseteq> seq_pend s \<union> (case l of SPost t tr \<Rightarrow> {t} | _ \<Rightarrow> {})"
proof -
  obtain ys where ys: "ss_accepted s' = ss_accepted s @ ys" "Task ` set ys \<subseteq> posting (ss_posters s)"
    using seq_accepts(1) [OF assms(2)] by blast
  have "se_accepted (seq_serial s') = se_accepted (seq_serial s) @ ys" using ys(1) by (simp add: seq_serial_def)
  then have "set (se_waiting (seq_serial s')) \<subseteq> set (se_waiting (seq_serial s)) \<union> set ys"
    using seq_step_serial [of s grow l s'] assms serial_step_waiting [of "seq_serial s" "seq_serial s'" ys] by auto
  then have "Task ` set (se_waiting (seq_serial s')) \<subseteq> Task ` set (se_waiting (seq_serial s)) \<union> Task ` set ys" by blast
  with ys(2) seq_accepts(2) [OF assms(2)] show ?thesis unfolding seq_pend_def by blast
qed

lemma seq_in_order:
  assumes "seq_inv s" "\<not> ss_cleared s"
  shows "\<exists>fin cur. map (map_serial_event Task) (se_trace (seq_serial s)) = serial_runs fin @ map Started cur \<and>
    length cur \<le> 1 \<and> prefix (fin @ cur) (map Task (ss_accepted s))"
proof -
  obtain fin cur where f: "ss_trace s = brackets fin @ map Begin cur" "length cur \<le> 1" "prefix (fin @ cur) (ss_started s)"
    using assms(1) by (rule trace_shape)
  have "ss_accepted s = ss_started s @ ss_contents s" using assms by (simp add: seq_inv_def order_ok_def)
  with f(3) have "prefix (map Task (fin @ cur)) (map Task (ss_accepted s))" by (metis map_mono_prefix prefix_prefix)
  moreover have "map (\<lambda>e. case e of Begin x \<Rightarrow> Started x | End x \<Rightarrow> Finished x) (brackets xs) = serial_runs xs" for xs :: "'a TaskItem list"
    by (induction xs) (simp_all add: serial_runs_def)
  then have "map (map_serial_event Task) (se_trace (seq_serial s)) = serial_runs (map Task fin) @ map Started (map Task cur)"
    by (simp add: seq_serial_def f(1) serial_runs_map [symmetric] del: map_map) (simp add: comp_def)
  ultimately show ?thesis using f(2) by (intro exI [of _ "map Task fin"] exI [of _ "map Task cur"]) simp
qed

interpretation seq_waits: waitable "\<lambda>s. \<exists>mem. s = seq_init mem" "seq_ops grow" "\<lambda>s. seq_inv s \<and> shut_ok s" seq_pend ss_cleared for grow
proof unfold_locales
  fix s s' :: "('x work, 'v) seq_sys" and l
  assume P: "seq_inv s \<and> shut_ok s"
  show "\<exists>fin cur. ru_events (seq_ops grow) s = serial_runs fin @ map Started cur \<and> length cur \<le> 1 \<and>
      prefix (fin @ cur) (ru_accepted (seq_ops grow) s)" if "\<not> ss_cleared s"
    using seq_in_order [of s] P that by simp
  assume "ru_step (seq_ops grow) l s = Some s'"
  then have st: "seq_step grow l s = Some s'" by simp
  show "seq_inv s' \<and> shut_ok s'" using P st seq_step_inv shut_ok_step by blast
  show "\<exists>ys. ru_accepted (seq_ops grow) s' = ru_accepted (seq_ops grow) s @ ys \<and> set ys \<subseteq> seq_pend s"
  proof -
    obtain ys where "ss_accepted s' = ss_accepted s @ ys" "Task ` set ys \<subseteq> posting (ss_posters s)"
      using seq_accepts(1) [OF st] by blast
    then show ?thesis by (intro exI [of _ "map Task ys"]) (simp add: seq_pend_def le_supI2)
  qed
  show "\<exists>es. ru_events (seq_ops grow) s' = ru_events (seq_ops grow) s @ es \<and> (\<forall>x. Started x \<in> set es \<longrightarrow> x \<in> seq_pend s)"
  proof -
    obtain es where es: "se_trace (seq_serial s') = se_trace (seq_serial s) @ es"
      "\<And>x. Started x \<in> set es \<Longrightarrow> x \<in> set (se_waiting (seq_serial s))" using seq_begins [OF P st] by blast
    have "x \<in> seq_pend s" if "Started x \<in> set (map (map_serial_event Task) es)" for x
    proof -
      from that obtain e where "e \<in> set es" "map_serial_event Task e = Started x" by auto
      then obtain y where "Started y \<in> set es" "x = Task y" by (cases rule: serial_event.exhaust [of e]) auto
      with es(2) show ?thesis by (auto simp: seq_pend_def)
    qed
    with es(1) show ?thesis by (intro exI [of _ "map (map_serial_event Task) es"]) simp
  qed
  show "seq_pend s' \<subseteq> seq_pend s \<union> set (ru_posts (seq_ops grow) l)"
    using seq_pend_step [OF P st] by (auto simp: seq_ops_def split: seq_label.splits)
qed (use seq_sim.holds_init seq_sim.view_init in
      \<open>auto simp: seq_pend_def seq_init_def posting_def seq_serial_def NewSequencedTaskRunner_def simp del: fifo_contents_Nil\<close>)

section \<open>The single-thread runner\<close>

definition st_ops :: "(('x work, 'c) st_label, ('x work, 'v, 'c) st_sys, 'x) runner_ops" where
  "st_ops =
     \<lparr>ru_step = st_step, ru_post = (\<lambda>w. YPost w DefaultTaskTraits),
      ru_posts = (\<lambda>l. case l of YPost t tr \<Rightarrow> [t] | _ \<Rightarrow> []),
      ru_closed = (\<lambda>s. st_closed (y_runner s)), ru_shutdownChan_closed = (\<lambda>s. st_shutdownChan_closed (y_runner s)),
      ru_accepted = y_sent, ru_events = (\<lambda>s. se_trace (st_serial s)),
      ru_calls = (\<lambda>s. length (y_posters s)), ru_returned = (\<lambda>s k. y_posters s ! k = StReturned)\<rparr>"

text \<open>The three methods of the single-thread runner.\<close>

definition st_WaitIdle ::
  "nat option \<Rightarrow> (('x work, 'v, 'c) st_sys, 'x) wait_sys \<Rightarrow> (('x work, 'v, 'c) st_sys, 'x) wait_sys" where
  "st_WaitIdle ctx s = WaitIdle st_ops ctx s"

definition st_WaitShutdown ::
  "nat option \<Rightarrow> (('x work, 'v, 'c) st_sys, 'x) wait_sys \<Rightarrow> (('x work, 'v, 'c) st_sys, 'x) wait_sys" where
  "st_WaitShutdown ctx s = WaitShutdown st_ops ctx s"

definition st_FlushAsync :: "'x \<Rightarrow> ('x work, 'v, 'c) st_sys \<Rightarrow> ('x work, 'v, 'c) st_sys option" where
  "st_FlushAsync callback r = FlushAsync st_ops callback r"

lemma st_ops_simps [simp]:
  "ru_step st_ops = st_step" "ru_post st_ops w = YPost w DefaultTaskTraits" "ru_posts st_ops (YPost t tr) = [t]"
  "ru_accepted st_ops = y_sent" "ru_events st_ops s = se_trace (st_serial s)"
  by (simp_all add: st_ops_def)

definition st_posting :: "('t, 'c) st_post list \<Rightarrow> 't set" where
  "st_posting ps = {t. \<exists>tr. StPolicy t tr \<in> set ps \<or> (\<exists>p c. StSend p c t tr \<in> set ps)}"

definition st_pend :: "('t, 'v, 'c) st_sys \<Rightarrow> 't set" where
  "st_pend s = set (se_waiting (st_serial s)) \<union> st_posting (y_posters s)"

lemma st_poster_accepts:
  assumes st: "st_poster_step b (y_posters s ! k) s = Some (pc, s1)" and k: "k < length (y_posters s)"
  shows "(\<exists>ys. y_sent s1 = y_sent s @ ys \<and> set ys \<subseteq> st_posting (y_posters s)) \<and>
    st_posting ((y_posters s)[k := pc]) \<subseteq> st_posting (y_posters s)"
proof (cases "y_posters s ! k")
  case (StPolicy t tr)
  with st nth_mem [OF k] set_update_subset_insert [of "y_posters s" k pc] show ?thesis
    by (fastforce simp: st_posting_def)
next
  case (StSend p c t tr)
  have "pc = StReturned" using StSend st by (auto split: enqueue_result.splits)
  then have "st_posting ((y_posters s)[k := pc]) \<subseteq> st_posting (y_posters s)"
    using set_update_subset_insert [of "y_posters s" k pc] by (fastforce simp: st_posting_def)
  moreover have "\<exists>ys. y_sent s1 = y_sent s @ ys \<and> set ys \<subseteq> {t}" using StSend st by (auto split: enqueue_result.splits)
  moreover have "t \<in> st_posting (y_posters s)" using StSend nth_mem [OF k] by (force simp: st_posting_def)
  ultimately show ?thesis by blast
qed (use st in simp)

lemma st_accepts:
  assumes "st_step l s = Some s'"
  shows "\<exists>ys. y_sent s' = y_sent s @ ys \<and> set ys \<subseteq> st_posting (y_posters s)"
    "st_posting (y_posters s') \<subseteq> st_posting (y_posters s) \<union> (case l of YPost t tr \<Rightarrow> {t} | _ \<Rightarrow> {})"
proof -
  have "(\<exists>ys. y_sent s' = y_sent s @ ys \<and> set ys \<subseteq> st_posting (y_posters s)) \<and>
    st_posting (y_posters s') \<subseteq> st_posting (y_posters s) \<union> (case l of YPost t tr \<Rightarrow> {t} | _ \<Rightarrow> {})"
  proof (cases l)
    case (YPost t tr)
    with assms show ?thesis by (fastforce simp: st_posting_def split: if_splits)
  next
    case (YPoster k b)
    with assms st_poster_accepts [of b s k] show ?thesis by (auto split: if_splits)
  next
    case (YLoop r)
    with assms show ?thesis by (auto split: st_loop.splits list.splits if_splits)
  qed (use assms in \<open>auto split: if_splits\<close>)
  then show "\<exists>ys. y_sent s' = y_sent s @ ys \<and> set ys \<subseteq> st_posting (y_posters s)"
    "st_posting (y_posters s') \<subseteq> st_posting (y_posters s) \<union> (case l of YPost t tr \<Rightarrow> {t} | _ \<Rightarrow> {})" by blast+
qed

lemma st_pend_step:
  assumes "st_step l s = Some s'"
  shows "st_pend s' \<subseteq> st_pend s \<union> (case l of YPost t tr \<Rightarrow> {t} | _ \<Rightarrow> {})"
proof -
  obtain ys where ys: "y_sent s' = y_sent s @ ys" "set ys \<subseteq> st_posting (y_posters s)"
    using st_accepts(1) [OF assms] by blast
  have "se_accepted (st_serial s') = se_accepted (st_serial s) @ ys" using ys(1) by (simp add: st_serial_def)
  then have "set (se_waiting (st_serial s')) \<subseteq> set (se_waiting (st_serial s)) \<union> set ys"
    using st_step_serial [OF assms] serial_step_waiting [of "st_serial s" "st_serial s'" ys] by auto
  with ys(2) st_accepts(2) [OF assms] show ?thesis by (auto simp: st_pend_def)
qed

lemma st_in_order:
  assumes "st_inv s"
  shows "\<exists>fin cur. se_trace (st_serial s) = serial_runs fin @ map Started cur \<and> length cur \<le> 1 \<and> prefix (fin @ cur) (y_sent s)"
proof -
  obtain fin where f: "y_trace s = st_brackets fin @ map StBegin (st_current (y_loop s))" "y_taken s = fin @ st_current (y_loop s)"
    using st_trace_shape [OF assms] by blast
  have "map (\<lambda>e. case e of StBegin x \<Rightarrow> Started x | StEnd x \<Rightarrow> Finished x) (st_brackets xs) = serial_runs xs" for xs :: "'a list"
    by (induction xs) (simp_all add: serial_runs_def st_brackets_def)
  with f(1) have "se_trace (st_serial s) = serial_runs fin @ map Started (st_current (y_loop s))"
    by (simp add: st_serial_def comp_def)
  moreover have "prefix (fin @ st_current (y_loop s)) (y_sent s)" using assms f(2) by (simp add: st_inv_def)
  moreover have "length (st_current (y_loop s)) \<le> 1" by (cases "y_loop s") simp_all
  ultimately show ?thesis by blast
qed

interpretation st_waits: waitable "\<lambda>s. s = st_init" st_ops st_inv st_pend "\<lambda>s. False"
proof unfold_locales
  fix s s' :: "('x work, 'v, 'c) st_sys" and l
  assume P: "st_inv s"
  show "\<exists>fin cur. ru_events st_ops s = serial_runs fin @ map Started cur \<and> length cur \<le> 1 \<and>
      prefix (fin @ cur) (ru_accepted st_ops s)" if "\<not> False"
    using st_in_order [OF P] by simp
  assume "ru_step st_ops l s = Some s'"
  then have st: "st_step l s = Some s'" by simp
  show "st_inv s'" using P st st_step_inv by blast
  show "\<exists>ys. ru_accepted st_ops s' = ru_accepted st_ops s @ ys \<and> set ys \<subseteq> st_pend s"
    using st_accepts(1) [OF st] by (auto simp: st_pend_def)
  show "\<exists>es. ru_events st_ops s' = ru_events st_ops s @ es \<and> (\<forall>x. Started x \<in> set es \<longrightarrow> x \<in> st_pend s)"
    using st_step_serial [OF st] serial_step_begins [of "st_serial s" "st_serial s'"] by (auto simp: st_pend_def)
  show "st_pend s' \<subseteq> st_pend s \<union> set (ru_posts st_ops l)"
    using st_pend_step [OF st] by (auto simp: st_ops_def split: st_label.splits)
qed (use sts.holds_init in
      \<open>auto simp: st_pend_def st_posting_def st_serial_def st_init_def NewSingleThreadTaskRunner_def\<close>)

section \<open>The properties\<close>

abbreviation seq_wait_reachable :: "(nat \<Rightarrow> nat) \<Rightarrow> (('x work, 'v) seq_sys, 'x) wait_sys \<Rightarrow> bool" where
  "seq_wait_reachable grow \<equiv>
     reach (\<lambda>s. \<exists>r. (\<exists>mem. r = seq_init mem) \<and> s = wait_init r) (lstep (wait_step (seq_ops grow)))"

text \<open>
  An example: a task is accepted, \<^verbatim>\<open>WaitIdle\<close> is called and returns after both have run; the other
  run shuts the runner down between the check of \<^verbatim>\<open>WaitIdle\<close> and the run of its closure.
\<close>

definition ex_waited :: "((nat work, unit) seq_sys, nat) wait_sys" where
  "ex_waited = the (run (wait_step (seq_ops id))
     ([WaRunner (SPost (UserWork 7) DefaultTaskTraits), WaRunner (SPoster 0 1), WaIdle None, WaMove 0, WaRunner (SPoster 1 2),
       WaRunner (SPoster 0 1), WaRunner (SPoster 0 1), WaRunner (SPoster 1 2), WaMove 0, WaRunner (SRunLoop 0)] @
      replicate 6 (WaRunner (SLoop 0)) @ [WaRunner (SRunLoop 0)] @ replicate 3 (WaRunner (SLoop 1)) @ [WaMove 0])
     (wait_init (seq_init [])))"

definition ex_abandoned :: "((nat work, unit) seq_sys, nat) wait_sys" where
  "ex_abandoned = the (run (wait_step (seq_ops id))
     [WaIdle None, WaMove 0, WaRunner (SPoster 0 1), WaRunner SShutdown, WaRunner (SShutter 0), WaRunner (SShutter 0),
      WaRunner (SShutter 0), WaRunner (SPoster 0 1), WaRunner (SPoster 0 1), WaMove 0] (wait_init (seq_init [])))"

lemma ex_waited_reachable: "seq_wait_reachable id ex_waited"
  unfolding ex_waited_def by (rule run_the_reach) (blast, code_simp)

lemma ex_abandoned_reachable: "seq_wait_reachable id ex_abandoned"
  unfolding ex_abandoned_def by (rule run_the_reach) (blast, code_simp)

lemma ex_waited_state:
  "wa_waiters ex_waited = [IdleReturned WaitNil]" "wa_before ex_waited = [[UserWork 7]]" "\<not> ss_cleared (wa_runner ex_waited)"
  by code_simp+



text \<open>
  C37: \<^verbatim>\<open>WaitIdle\<close> of a sequenced runner can block for good. The runner is open when \<^verbatim>\<open>WaitIdle\<close> looks, its closure is
  queued, and \<^verbatim>\<open>Shutdown\<close> drops the queue; \<^verbatim>\<open>WaitIdle\<close> waits for the closure or its context only, so with
  \<^verbatim>\<open>context.Background()\<close> it never returns, whatever happens afterwards.
\<close>

theorem wait_idle_blocks_after_shutdown:
  assumes "run (wait_step (seq_ops id)) ls ex_abandoned = Some s"
  shows "seq_wait_reachable id ex_abandoned \<and> sr_shutdownChan_closed (ss_runner (wa_runner ex_abandoned)) \<and>
     wa_waiters s ! 0 = IdleSelect None"
proof -
  have "wa_waiters ex_abandoned = [IdleSelect None]" "ss_posters (wa_runner ex_abandoned) = [QReturned]"
    "se_waiting (seq_serial (wa_runner ex_abandoned)) = []" "se_trace (seq_serial (wa_runner ex_abandoned)) = []"
    "sr_shutdownChan_closed (ss_runner (wa_runner ex_abandoned))" by code_simp+
  moreover have "seq_inv (wa_runner ex_abandoned) \<and> shut_ok (wa_runner ex_abandoned)"
    using seq_waits.waits.holds_reach [OF ex_abandoned_reachable] by (simp add: seq_waits.wait_inv_def)
  ultimately have "seq_waits.abandoned id 0 ex_abandoned"
    by (simp add: seq_waits.abandoned_def seq_pend_def posting_def)
  from seq_waits.abandoned_run [OF this assms] ex_abandoned_reachable
    \<open>sr_shutdownChan_closed (ss_runner (wa_runner ex_abandoned))\<close> show ?thesis by simp
qed

theorem wait_idle_blocks_after_shutdown_witness:
  "\<exists>s. run (wait_step (seq_ops id)) [WaRunner (SRunLoop 0), WaRunner (SLoop 0)] ex_abandoned = Some s \<and>
     wa_waiters s ! 0 = IdleSelect None"
proof -
  have "run (wait_step (seq_ops id)) [WaRunner (SRunLoop 0), WaRunner (SLoop 0)] ex_abandoned \<noteq> None" by code_simp
  then obtain s where "run (wait_step (seq_ops id)) [WaRunner (SRunLoop 0), WaRunner (SLoop 0)] ex_abandoned = Some s" by blast
  with wait_idle_blocks_after_shutdown [OF this] show ?thesis by blast
qed

text \<open>
  \<^verbatim>\<open>WaitIdle\<close> of a single-thread runner keeps the same promise, and even through a shutdown, which leaves
  the tasks in the channel.
\<close>

theorem single_thread_wait_idle:
  assumes "reach (\<lambda>s. \<exists>r. r = st_init \<and> s = wait_init r) (lstep (wait_step st_ops)) s"
    and "n < length (wa_waiters s)" "wa_waiters s ! n = IdleReturned WaitNil"
  shows "prefix (serial_runs (wa_before s ! n)) (ru_events st_ops (wa_runner s))"
  using st_waits.idle_means_done [OF st_waits.waits.holds_reach [OF assms(1)] assms(2,3)] by simp

end
