(* ===== verification/Delayed_Runner.thy ===== *)
theory Delayed_Runner
  imports Delay_Manager Wait_Runners
begin

text \<open>
  Delayed tasks of sequenced runners, from the call to the execution: \<^verbatim>\<open>PostDelayedTask\<close> of
  \<^verbatim>\<open>core/sequenced_task_runner.go\<close>, \<^verbatim>\<open>PostDelayedInternal\<close> of the scheduler, the goroutine of the delay
  manager, whose posts are calls of \<^verbatim>\<open>PostTaskWithTraits\<close> on the target runner, and the run loops. Any
  number of runners share the manager.
\<close>

section \<open>The composed system\<close>

text \<open>
  \<open>de_call\<close> is the posting call on a runner that the goroutine of the manager is in, if any; \<open>de_direct\<close>
  records what was posted to which runner without a delay.
\<close>

record ('t, 'r, 'v) del_sys =
  de_dm :: "('t, 'r) dm_sys"
  de_run :: "'r \<Rightarrow> ('t, 'v) seq_sys"
  de_call :: "('r \<times> nat) option"
  de_shuttingDown :: bool
  de_direct :: "('r \<times> 't) list"

definition del_init :: "int \<Rightarrow> ('r \<Rightarrow> 't memory) \<Rightarrow> ('t, 'r, 'v) del_sys" where
  "del_init t0 mem = \<lparr>de_dm = dm_init_sys t0, de_run = (\<lambda>r. seq_init (mem r)), de_call = None, de_shuttingDown = False,
     de_direct = []\<rparr>"

text \<open>
  \<^verbatim>\<open>PostDelayedTaskWithTraitsNamed\<close> of runner \<open>r\<close>; a scheduler that shuts down drops the task, and a
  negative delay panics in the caller before anything changes. The other three variants give the
  default traits or the empty name.
\<close>

definition PostDelayedTaskWithTraitsNamed ::
  "'r \<Rightarrow> 't \<Rightarrow> int \<Rightarrow> TaskTraits \<Rightarrow> ('t, 'r, 'v) del_sys \<Rightarrow> delay_panic + ('t, 'r, 'v) del_sys" where
  "PostDelayedTaskWithTraitsNamed r t delay tr s =
     (if de_shuttingDown s then Inr s
      else case AddDelayedTask (ds_clock (de_dm s)) t delay tr r (ds_dm (de_dm s)) of
             Inl p \<Rightarrow> Inl p
           | Inr dm \<Rightarrow>
               Inr (s\<lparr>de_dm := (de_dm s)\<lparr>ds_dm := dm, ds_added := ds_added (de_dm s) @ [(ds_clock (de_dm s) + delay, t, tr, r)]\<rparr>\<rparr>))"

definition PostDelayedTaskWithTraits ::
  "'r \<Rightarrow> 't \<Rightarrow> int \<Rightarrow> TaskTraits \<Rightarrow> ('t, 'r, 'v) del_sys \<Rightarrow> delay_panic + ('t, 'r, 'v) del_sys" where
  "PostDelayedTaskWithTraits r t delay tr s = PostDelayedTaskWithTraitsNamed r t delay tr s"

definition PostDelayedTask ::
  "'r \<Rightarrow> 't \<Rightarrow> int \<Rightarrow> ('t, 'r, 'v) del_sys \<Rightarrow> delay_panic + ('t, 'r, 'v) del_sys" where
  "PostDelayedTask r t delay s = PostDelayedTaskWithTraits r t delay DefaultTaskTraits s"

text \<open>The goroutine of the manager calls \<^verbatim>\<open>Target.PostTaskWithTraits\<close> and is in that call until it returns.\<close>

definition deliver :: "(nat \<Rightarrow> nat) \<Rightarrow> ('t, 'r) DelayedTask \<Rightarrow> ('t, 'r, 'v) del_sys \<Rightarrow> ('t, 'r, 'v) del_sys option" where
  "deliver grow x s =
     (let r = dt_Target x; q = de_run s r in
      map_option (\<lambda>q'. s\<lparr>de_run := (de_run s)(r := q'),
          de_call := (if length (ss_posters q) < length (ss_posters q') then Some (r, length (ss_posters q)) else None)\<rparr>)
        (seq_step grow (SPost (dt_Task x) (dt_Traits x)) q))"

definition manager_free :: "('t, 'r, 'v) del_sys \<Rightarrow> bool" where
  "manager_free s = (case de_call s of None \<Rightarrow> True | Some (r, k) \<Rightarrow> ss_posters (de_run s r) ! k = QReturned)"

fun of_goroutine :: "('t, 'r) dm_label \<Rightarrow> bool" where
  "of_goroutine (DmAdd t d tr r) = False" | "of_goroutine DmCancel = False" | "of_goroutine DmClear = False"
| "of_goroutine (DmTick k) = False" | "of_goroutine _ = True"

datatype ('t, 'r) del_label =
    DeDelayed 'r 't int TaskTraits | DeManager "('t, 'r) dm_label" | DeRunner 'r "'t seq_label" | DeShutdown

fun manager_step :: "(nat \<Rightarrow> nat) \<Rightarrow> ('t, 'r) dm_label \<Rightarrow> ('t, 'r, 'v) del_sys \<Rightarrow> ('t, 'r, 'v) del_sys option" where
  "manager_step grow (DmAdd t d tr r) s = None"
| "manager_step grow l s =
     (if of_goroutine l \<and> \<not> manager_free s then None
      else case dm_step l (de_dm s) of
             None \<Rightarrow> None
           | Some d \<Rightarrow>
               (case (l, ds_pc (de_dm s)) of
                  (DmPost, LoopPost (x # xs)) \<Rightarrow> deliver grow x (s\<lparr>de_dm := d\<rparr>)
                | _ \<Rightarrow> Some (s\<lparr>de_dm := d\<rparr>)))"

fun del_step :: "(nat \<Rightarrow> nat) \<Rightarrow> ('t, 'r) del_label \<Rightarrow> ('t, 'r, 'v) del_sys \<Rightarrow> ('t, 'r, 'v) del_sys option" where
  "del_step grow (DeDelayed r t delay tr) s =
     (case PostDelayedTaskWithTraitsNamed r t delay tr s of Inl p \<Rightarrow> None | Inr s' \<Rightarrow> Some s')"
| "del_step grow (DeManager l) s = manager_step grow l s"
| "del_step grow (DeRunner r l) s =
     map_option (\<lambda>q. s\<lparr>de_run := (de_run s)(r := q),
         de_direct := de_direct s @ (case l of SPost t tr \<Rightarrow> [(r, t)] | _ \<Rightarrow> [])\<rparr>)
       (seq_step grow l (de_run s r))"
| "del_step grow DeShutdown s = Some (s\<lparr>de_shuttingDown := True\<rparr>)"

abbreviation del_reachable :: "(nat \<Rightarrow> nat) \<Rightarrow> ('t, 'r, 'v) del_sys \<Rightarrow> bool" where
  "del_reachable grow \<equiv> reach (\<lambda>s. \<exists>t0 mem. s = del_init t0 mem) (lstep (del_step grow))"

section \<open>The invariant\<close>

text \<open>What a runner may know of: direct posts, and delayed ones whose time has come.\<close>

definition allowed :: "('t, 'r, 'v) del_sys \<Rightarrow> 'r \<Rightarrow> 't set" where
  "allowed s r = {t. (r, t) \<in> set (de_direct s) \<or>
     (\<exists>T tr. (T, t, tr, r) \<in> set (ds_added (de_dm s)) \<and> T \<le> ds_clock (de_dm s))}"

definition reached :: "('t, 'v) seq_sys \<Rightarrow> 't set" where
  "reached q = Task ` set (ss_accepted q) \<union> posting (ss_posters q)"

definition del_inv :: "('t, 'r, 'v) del_sys \<Rightarrow> bool" where
  "del_inv s \<longleftrightarrow> dm_inv (de_dm s) \<and> (\<forall>r. seq_inv (de_run s r) \<and> reached (de_run s r) \<subseteq> allowed s r)"

lemma dm_step_grows:
  assumes "dm_step l d = Some d'"
  shows "set (ds_added d) \<subseteq> set (ds_added d')" "ds_clock d \<le> ds_clock d'"
  using assms
  by (cases l; auto simp: loop_head_def loop_collect_def split: if_splits sum.splits loop_pc.splits list.splits prod.splits delayNextRunState.splits)+

lemma reached_step:
  assumes "seq_step grow l q = Some q'"
  shows "reached q' \<subseteq> reached q \<union> (case l of SPost t tr \<Rightarrow> {t} | _ \<Rightarrow> {})"
  using seq_accepts [OF assms] by (fastforce simp: reached_def)

lemma in_hand_allowed:
  assumes "dm_inv d" "x \<in> set (in_hand (ds_pc d))"
  shows "(RunAt x, dt_Task x, dt_Traits x, dt_Target x) \<in> set (ds_added d)" "RunAt x \<le> ds_clock d"
proof -
  have "dt_payload x \<in># pending (in_hand (ds_pc d))" using assms(2) by (simp add: pending_def)
  moreover have "pending (in_hand (ds_pc d)) \<subseteq># mset (ds_added d)"
    using assms(1) by (auto simp: dm_inv_defs intro: subset_mset.order_trans [rotated] simp: add.assoc add.left_commute)
  ultimately show "(RunAt x, dt_Task x, dt_Traits x, dt_Target x) \<in> set (ds_added d)"
    by (metis dt_payload_def mset_subset_eqD set_mset_mset)
  show "RunAt x \<le> ds_clock d" using assms by (auto simp: dm_inv_defs)
qed

lemma allowed_mono:
  assumes "set (de_direct s) \<subseteq> set (de_direct t)" "set (ds_added (de_dm s)) \<subseteq> set (ds_added (de_dm t))"
    "ds_clock (de_dm s) \<le> ds_clock (de_dm t)"
  shows "allowed s r \<subseteq> allowed t r"
  using assms by (fastforce simp: allowed_def)

text \<open>The two ways in which the system moves: the manager alone, or one runner.\<close>

lemma manager_moves:
  assumes inv: "del_inv s" and d: "dm_inv d" "set (ds_added (de_dm s)) \<subseteq> set (ds_added d)" "ds_clock (de_dm s) \<le> ds_clock d"
  shows "del_inv (s\<lparr>de_dm := d\<rparr>)"
  using inv d(1) allowed_mono [of s "s\<lparr>de_dm := d\<rparr>"] d(2,3) by (fastforce simp: del_inv_def)

lemma runner_moves:
  assumes inv: "del_inv s" and st: "seq_step grow l (de_run s r) = Some q"
    and direct: "set (de_direct s) \<subseteq> set (de_direct t)" and t: "de_dm t = de_dm s" "de_run t = (de_run s)(r := q)"
    and new: "(case l of SPost x tr \<Rightarrow> {x} | _ \<Rightarrow> {}) \<subseteq> allowed t r"
  shows "del_inv t"
proof -
  have mono: "allowed s r' \<subseteq> allowed t r'" for r' using direct t(1) by (intro allowed_mono) simp_all
  have "seq_inv q" using seq_step_inv [OF _ st] inv by (simp add: del_inv_def)
  moreover have "reached q \<subseteq> allowed t r"
    using reached_step [OF st] new inv mono [of r] unfolding del_inv_def by blast
  moreover have "seq_inv (de_run s r') \<and> reached (de_run s r') \<subseteq> allowed t r'" for r'
    using inv mono [of r'] unfolding del_inv_def by blast
  ultimately show ?thesis using inv t by (simp add: del_inv_def)
qed

lemma deliver_inv:
  assumes inv: "del_inv s" and x: "(RunAt x, dt_Task x, dt_Traits x, dt_Target x) \<in> set (ds_added (de_dm s))"
    "RunAt x \<le> ds_clock (de_dm s)" and dl: "deliver grow x s = Some s'"
  shows "del_inv s'"
proof -
  obtain q where q: "seq_step grow (SPost (dt_Task x) (dt_Traits x)) (de_run s (dt_Target x)) = Some q"
    "de_dm s' = de_dm s" "de_direct s' = de_direct s" "de_run s' = (de_run s)(dt_Target x := q)"
    using dl by (auto simp: deliver_def Let_def)
  show ?thesis by (rule runner_moves [OF inv q(1) _ q(2,4)]) (use x q(2,3) in \<open>auto simp: allowed_def\<close>)
qed

lemma manager_step_inv:
  assumes inv: "del_inv s" and st: "manager_step grow l s = Some s'"
  shows "del_inv s'"
proof -
  from st obtain d where d: "dm_step l (de_dm s) = Some d"
    by (cases l) (auto split: if_splits option.splits)
  have dm: "dm_inv (de_dm s)" using inv by (simp add: del_inv_def)
  have moved: "del_inv (s\<lparr>de_dm := d\<rparr>)"
    using manager_moves [OF inv dm_step_inv [OF dm d] dm_step_grows [OF d]] .
  show ?thesis
  proof (cases "\<exists>x xs. l = DmPost \<and> ds_pc (de_dm s) = LoopPost (x # xs)")
    case True
    then obtain x xs where l: "l = DmPost" and pc: "ds_pc (de_dm s) = LoopPost (x # xs)" by blast
    then have "ds_added d = ds_added (de_dm s)" "ds_clock d = ds_clock (de_dm s)" using d by auto
    moreover have "deliver grow x (s\<lparr>de_dm := d\<rparr>) = Some s'"
      using st d unfolding l by (simp add: pc split: if_splits)
    ultimately show ?thesis using in_hand_allowed [OF dm, of x] pc by (intro deliver_inv [OF moved]) auto
  next
    case False
    with st d have "s' = s\<lparr>de_dm := d\<rparr>"
      by (cases l) (auto split: if_splits loop_pc.splits list.splits)
    with moved show ?thesis by simp
  qed
qed

lemma del_step_inv:
  assumes inv: "del_inv s" and st: "del_step grow l s = Some s'"
  shows "del_inv s'"
proof (cases l)
  case (DeDelayed r t delay tr)
  show ?thesis
  proof (cases "de_shuttingDown s")
    case True
    with DeDelayed st inv show ?thesis by (simp add: PostDelayedTaskWithTraitsNamed_def)
  next
    case False
    with DeDelayed st obtain dm where dm: "AddDelayedTask (ds_clock (de_dm s)) t delay tr r (ds_dm (de_dm s)) = Inr dm"
      "s' = s\<lparr>de_dm := (de_dm s)\<lparr>ds_dm := dm, ds_added := ds_added (de_dm s) @ [(ds_clock (de_dm s) + delay, t, tr, r)]\<rparr>\<rparr>"
      by (auto simp: PostDelayedTaskWithTraitsNamed_def split: sum.splits)
    have "dm_inv (de_dm s)" using inv by (simp add: del_inv_def)
    from dm_add_inv [OF this dm(1)] show ?thesis unfolding dm(2) by (intro manager_moves [OF inv]) auto
  qed
next
  case (DeManager k)
  with st manager_step_inv [OF inv] show ?thesis by simp
next
  case (DeRunner r k)
  with st obtain q where q: "seq_step grow k (de_run s r) = Some q" "de_dm s' = de_dm s" "de_run s' = (de_run s)(r := q)"
    "de_direct s' = de_direct s @ (case k of SPost t tr \<Rightarrow> [(r, t)] | _ \<Rightarrow> [])" by auto
  show ?thesis by (rule runner_moves [OF inv q(1) _ q(2,3)]) (use q(4) in \<open>auto simp: allowed_def split: seq_label.splits\<close>)
next
  case DeShutdown
  with st have "s' = s\<lparr>de_shuttingDown := True\<rparr>" by simp
  with inv show ?thesis by (simp add: del_inv_def allowed_def)
qed

interpretation dels: inv_system "\<lambda>s. \<exists>t0 mem. s = del_init t0 mem" "lstep (del_step grow)" del_inv for grow
proof unfold_locales
  show "del_inv s" if "\<exists>t0 mem. s = del_init t0 mem" for s :: "('t, 'r, 'v) del_sys"
    using that by (auto simp: del_inv_def del_init_def dm_inv_init seq_inv_init reached_def posting_def) (simp_all add: seq_init_def)
  show "del_inv t" if "del_inv s" "lstep (del_step grow) s t" for s t :: "('t, 'r, 'v) del_sys"
    using that by (auto simp: lstep_def intro: del_step_inv)
qed

section \<open>The property\<close>

lemma begun_reached: "seq_inv q \<Longrightarrow> Begin x \<in> set (ss_trace q) \<Longrightarrow> Task x \<in> reached q"
proof -
  assume inv: "seq_inv q" and b: "Begin x \<in> set (ss_trace q)"
  from inv have "set (ss_trace q) \<subseteq> set (brackets (ss_started q))"
    unfolding seq_inv_def trace_ok_def by (metis inf_sup_ord(3) set_append)
  with b have "x \<in> set (ss_started q)" by (auto simp: brackets_def)
  moreover have "set (ss_started q) \<subseteq> set (ss_accepted q)"
    using inv by (auto simp: seq_inv_def order_ok_def elim: list_emb_set)
  ultimately show "Task x \<in> reached q" by (auto simp: reached_def)
qed

definition ex_delayed :: "(nat, nat, unit) del_sys" where
  "ex_delayed = the (run (del_step id)
     ([DeDelayed 3 42 5 DefaultTaskTraits, DeManager DmHead, DeManager DmArm, DeManager (DmTick 6), DeManager DmTimer,
       DeManager DmCollect, DeManager DmPost] @ replicate 3 (DeRunner 3 (SPoster 0 1)) @ [DeRunner 3 (SRunLoop 0)] @
      replicate 3 (DeRunner 3 (SLoop 0)) @ [DeManager DmPost]) (del_init 0 (\<lambda>r. [])))"

text \<open>
  C16: Delays hold from end to end. In every reachable state of the delay manager with any number of sequenced
  runners, a task that has begun on a runner was posted to it directly, or was posted to it with a delay
  that has passed.
\<close>

theorem delayed_task_never_early:
  assumes "del_reachable grow s" "Begin x \<in> set (ss_trace (de_run s r))"
  shows "(r, Task x) \<in> set (de_direct s) \<or>
     (\<exists>T tr. (T, Task x, tr, r) \<in> set (ds_added (de_dm s)) \<and> T \<le> ds_clock (de_dm s))"
proof -
  have "del_inv s" by (rule dels.holds_reach [OF assms(1)])
  then have "Task x \<in> allowed s r" using begun_reached [OF _ assms(2)] unfolding del_inv_def by blast
  then show ?thesis by (simp add: allowed_def)
qed

theorem delayed_task_never_early_witness:
  "\<exists>T tr. (T, 42, tr, 3) \<in> set (ds_added (de_dm ex_delayed)) \<and> T \<le> ds_clock (de_dm ex_delayed)"
proof -
  have "del_reachable id ex_delayed" unfolding ex_delayed_def by (rule run_the_reach) (blast, code_simp)
  moreover have "ss_trace (de_run ex_delayed 3) = [Begin \<lparr>Task = 42, Traits = DefaultTaskTraits, ID = 1\<rparr>]"
    "de_direct ex_delayed = []" by code_simp+
  ultimately show ?thesis
    using delayed_task_never_early [of id ex_delayed "\<lparr>Task = 42, Traits = DefaultTaskTraits, ID = 1\<rparr>" 3] by simp
qed

end
