(* ===== verification/Timer_Runner.thy ===== *)
theory Timer_Runner
  imports Wait_Runners Parallel_Runner Task_Scheduler
begin

text \<open>
  Delayed tasks that do not pass through a sequenced runner. A single-thread runner
  (\<^verbatim>\<open>core/single_thread_task_runner.go\<close>) sets a timer of its own with \<^verbatim>\<open>time.AfterFunc\<close> for each of them: the
  system is the runner with its timers and a clock. A parallel runner
  (\<^verbatim>\<open>core/parallel_task_runner.go\<close>) hands them to the scheduler of its pool unless it is closed.
\<close>

section \<open>The parallel runner\<close>

definition pr_PostDelayedTaskWithTraitsNamed ::
  "int \<Rightarrow> 'c \<Rightarrow> int \<Rightarrow> TaskTraits \<Rightarrow> 'r \<Rightarrow> ('t, 'v) ParallelTaskRunner \<Rightarrow> ('c, 'r, 'h) TaskScheduler \<Rightarrow>
     delay_panic + ('c, 'r, 'h) TaskScheduler" where
  "pr_PostDelayedTaskWithTraitsNamed now task delay traits self r s =
     (if pr_closed r then Inr s else PostDelayedInternal now task delay traits self s)"

definition pr_PostDelayedTaskWithTraits ::
  "int \<Rightarrow> 'c \<Rightarrow> int \<Rightarrow> TaskTraits \<Rightarrow> 'r \<Rightarrow> ('t, 'v) ParallelTaskRunner \<Rightarrow> ('c, 'r, 'h) TaskScheduler \<Rightarrow>
     delay_panic + ('c, 'r, 'h) TaskScheduler" where
  "pr_PostDelayedTaskWithTraits now task delay traits self r s =
     pr_PostDelayedTaskWithTraitsNamed now task delay traits self r s"

definition pr_PostDelayedTask ::
  "int \<Rightarrow> 'c \<Rightarrow> int \<Rightarrow> 'r \<Rightarrow> ('t, 'v) ParallelTaskRunner \<Rightarrow> ('c, 'r, 'h) TaskScheduler \<Rightarrow>
     delay_panic + ('c, 'r, 'h) TaskScheduler" where
  "pr_PostDelayedTask now task delay self r s = pr_PostDelayedTaskWithTraits now task delay DefaultTaskTraits self r s"

section \<open>The single-thread runner and its timers\<close>

text \<open>
  A timer holds the time at which it fires and what its function posts. \<open>ti_added\<close> and \<open>ti_direct\<close>
  record the tasks that were given with a delay, with their times, and without.
\<close>

record ('t, 'v, 'c) timer_sys =
  ti_run :: "('t, 'v, 'c) st_sys"
  ti_clock :: int
  ti_timers :: "(int \<times> 't \<times> TaskTraits) list"
  ti_added :: "(int \<times> 't) list"
  ti_direct :: "'t list"

definition timer_init :: "int \<Rightarrow> ('t, 'v, 'c) timer_sys" where
  "timer_init t0 = \<lparr>ti_run = st_init, ti_clock = t0, ti_timers = [], ti_added = [], ti_direct = []\<rparr>"

definition st_PostDelayedTaskWithTraits ::
  "'t \<Rightarrow> int \<Rightarrow> TaskTraits \<Rightarrow> ('t, 'v, 'c) timer_sys \<Rightarrow> ('t, 'v, 'c) timer_sys" where
  "st_PostDelayedTaskWithTraits task delay traits s =
     (if st_PostDelayed_sets_timer (y_runner (ti_run s))
      then s\<lparr>ti_timers := ti_timers s @ [(ti_clock s + delay, task, traits)], ti_added := ti_added s @ [(ti_clock s + delay, task)]\<rparr>
      else s)"

definition st_PostDelayedTask :: "'t \<Rightarrow> int \<Rightarrow> ('t, 'v, 'c) timer_sys \<Rightarrow> ('t, 'v, 'c) timer_sys" where
  "st_PostDelayedTask task delay s = st_PostDelayedTaskWithTraits task delay DefaultTaskTraits s"

text \<open>The \<open>k\<close>-th timer fires: its function looks at \<^verbatim>\<open>closed\<close> and calls \<^verbatim>\<open>enqueueTask\<close>, a posting call of the runner.\<close>

definition timer_fire :: "nat \<Rightarrow> ('t, 'v, 'c) timer_sys \<Rightarrow> ('t, 'v, 'c) timer_sys option" where
  "timer_fire k s =
     (if k < length (ti_timers s) \<and> fst (ti_timers s ! k) \<le> ti_clock s
      then let (due, task, traits) = ti_timers s ! k;
               s' = s\<lparr>ti_timers := take k (ti_timers s) @ drop (Suc k) (ti_timers s)\<rparr>
           in if st_closed (y_runner (ti_run s)) then Some s'
              else map_option (\<lambda>r. s'\<lparr>ti_run := r\<rparr>) (st_step (YPost task traits) (ti_run s))
      else None)"

datatype ('t, 'c) timer_label = TiDelayed 't int TaskTraits | TiTick nat | TiFire nat | TiRunner "('t, 'c) st_label"

fun timer_step :: "('t, 'c) timer_label \<Rightarrow> ('t, 'v, 'c) timer_sys \<Rightarrow> ('t, 'v, 'c) timer_sys option" where
  "timer_step (TiDelayed t d tr) s = Some (st_PostDelayedTaskWithTraits t d tr s)"
| "timer_step (TiTick k) s = Some (s\<lparr>ti_clock := ti_clock s + int k\<rparr>)"
| "timer_step (TiFire k) s = timer_fire k s"
| "timer_step (TiRunner l) s =
     map_option (\<lambda>r. s\<lparr>ti_run := r, ti_direct := ti_direct s @ (case l of YPost t tr \<Rightarrow> [t] | _ \<Rightarrow> [])\<rparr>) (st_step l (ti_run s))"

abbreviation timer_reachable :: "('t, 'v, 'c) timer_sys \<Rightarrow> bool" where
  "timer_reachable \<equiv> reach (\<lambda>s. \<exists>t0. s = timer_init t0) (lstep timer_step)"

section \<open>The invariant\<close>

definition ti_allowed :: "('t, 'v, 'c) timer_sys \<Rightarrow> 't set" where
  "ti_allowed s = set (ti_direct s) \<union> {t. \<exists>due. (due, t) \<in> set (ti_added s) \<and> due \<le> ti_clock s}"

definition st_reached :: "('t, 'v, 'c) st_sys \<Rightarrow> 't set" where
  "st_reached r = set (y_sent r) \<union> st_posting (y_posters r)"

definition timer_inv :: "('t, 'v, 'c) timer_sys \<Rightarrow> bool" where
  "timer_inv s \<longleftrightarrow> st_inv (ti_run s) \<and> st_reached (ti_run s) \<subseteq> ti_allowed s \<and>
     (\<forall>due t tr. (due, t, tr) \<in> set (ti_timers s) \<longrightarrow> (due, t) \<in> set (ti_added s))"

lemma st_reached_step:
  assumes "st_step l r = Some r'"
  shows "st_reached r' \<subseteq> st_reached r \<union> (case l of YPost t tr \<Rightarrow> {t} | _ \<Rightarrow> {})"
  using st_accepts [OF assms] by (auto simp: st_reached_def)

lemma timer_runner_inv:
  assumes "timer_inv s" "st_step l (ti_run s) = Some r" "ti_run s' = r" "ti_added s' = ti_added s" "ti_clock s' = ti_clock s"
    and "set (ti_timers s') \<subseteq> set (ti_timers s)" "set (ti_direct s) \<subseteq> set (ti_direct s')"
    and "(case l of YPost t tr \<Rightarrow> {t} | _ \<Rightarrow> {}) \<subseteq> ti_allowed s'"
  shows "timer_inv s'"
proof -
  have "ti_allowed s \<subseteq> ti_allowed s'" using assms(4,5,7) by (auto simp: ti_allowed_def)
  then have "st_reached r \<subseteq> ti_allowed s'" using st_reached_step [OF assms(2)] assms(1,8) unfolding timer_inv_def by blast
  moreover have "st_inv r" using st_step_inv [OF _ assms(2)] assms(1) by (simp add: timer_inv_def)
  moreover have "(due, t) \<in> set (ti_added s')" if "(due, t, tr) \<in> set (ti_timers s')" for due t tr
    using that assms(1,4,6) unfolding timer_inv_def by (metis subsetD)
  ultimately show ?thesis using assms(3) by (auto simp: timer_inv_def)
qed

lemma timer_fire_inv:
  assumes inv: "timer_inv s" and st: "timer_fire k s = Some s'"
  shows "timer_inv s'"
proof -
  obtain due t tr where x: "ti_timers s ! k = (due, t, tr)" by (metis prod_cases3)
  from st x have k: "k < length (ti_timers s)" "due \<le> ti_clock s" by (auto simp: timer_fire_def split: if_splits)
  have sub: "set (take k (ti_timers s) @ drop (Suc k) (ti_timers s)) \<subseteq> set (ti_timers s)"
    by (auto dest: in_set_takeD in_set_dropD)
  show ?thesis
  proof (cases "st_closed (y_runner (ti_run s))")
    case True
    with st x k have "s' = s\<lparr>ti_timers := take k (ti_timers s) @ drop (Suc k) (ti_timers s)\<rparr>" by (simp add: timer_fire_def)
    moreover have "(d, t') \<in> set (ti_added s)" if "(d, t', tr') \<in> set (take k (ti_timers s) @ drop (Suc k) (ti_timers s))" for d t' tr'
      using that inv sub unfolding timer_inv_def by (metis subsetD)
    ultimately show ?thesis using inv by (auto simp: timer_inv_def ti_allowed_def)
  next
    case False
    with st x k obtain r where r: "st_step (YPost t tr) (ti_run s) = Some r"
      and s': "s' = s\<lparr>ti_timers := take k (ti_timers s) @ drop (Suc k) (ti_timers s), ti_run := r\<rparr>"
      by (auto simp: timer_fire_def simp del: st_step.simps)
    have "(due, t) \<in> set (ti_added s)" using inv k(1) x nth_mem [OF k(1)] by (auto simp: timer_inv_def)
    then have "t \<in> ti_allowed s'" using k(2) by (auto simp: ti_allowed_def s')
    then show ?thesis using timer_runner_inv [OF inv r, of s'] sub by (simp add: s')
  qed
qed

lemma timer_step_inv:
  assumes inv: "timer_inv s" and st: "timer_step l s = Some s'"
  shows "timer_inv s'"
proof (cases l)
  case (TiDelayed t d tr)
  with st have "s' = s \<or> s' = s\<lparr>ti_timers := ti_timers s @ [(ti_clock s + d, t, tr)], ti_added := ti_added s @ [(ti_clock s + d, t)]\<rparr>"
    by (auto simp: st_PostDelayedTaskWithTraits_def)
  moreover have "ti_allowed s \<subseteq> ti_allowed (s\<lparr>ti_timers := ts, ti_added := ti_added s @ ys\<rparr>)" for ts ys
    by (auto simp: ti_allowed_def)
  moreover have "(due, t) \<in> set (ti_added s)" if "(due, t, tr) \<in> set (ti_timers s)" for due t tr
    using inv that unfolding timer_inv_def by blast
  ultimately show ?thesis using inv unfolding timer_inv_def by (elim disjE) (simp, auto)
next
  case (TiTick k)
  with st inv show ?thesis by (fastforce simp: timer_inv_def ti_allowed_def)
next
  case (TiFire k)
  with st timer_fire_inv [OF inv] show ?thesis by simp
next
  case (TiRunner k)
  with st obtain r where r: "st_step k (ti_run s) = Some r"
    "s' = s\<lparr>ti_run := r, ti_direct := ti_direct s @ (case k of YPost t tr \<Rightarrow> [t] | _ \<Rightarrow> [])\<rparr>"
    by (auto simp del: st_step.simps)
  then show ?thesis
    by (intro timer_runner_inv [OF inv r(1)]) (auto simp: ti_allowed_def split: st_label.splits)
qed

interpretation timers: inv_system "\<lambda>s. \<exists>t0. s = timer_init t0" "lstep timer_step" timer_inv
proof unfold_locales
  show "timer_inv s" if "\<exists>t0. s = timer_init t0" for s :: "('t, 'v, 'c) timer_sys"
    using that sts.holds_init by (auto simp: timer_inv_def timer_init_def st_reached_def st_posting_def) (simp_all add: st_init_def)
qed (auto simp: lstep_def intro: timer_step_inv)

section \<open>The property\<close>

text \<open>
  Delays of a single-thread runner hold: in every reachable state, a task that has begun was posted
  without a delay, or with a delay that has passed.
\<close>

theorem single_thread_delayed_never_early:
  assumes "timer_reachable s" "StBegin t \<in> set (y_trace (ti_run s))"
  shows "t \<in> set (ti_direct s) \<or> (\<exists>due. (due, t) \<in> set (ti_added s) \<and> due \<le> ti_clock s)"
proof -
  have inv: "timer_inv s" by (rule timers.holds_reach [OF assms(1)])
  then have "y_trace (ti_run s) @ map StEnd (st_current (y_loop (ti_run s))) = st_brackets (y_taken (ti_run s))"
    "y_sent (ti_run s) = y_taken (ti_run s) @ st_workQueue (y_runner (ti_run s))" by (simp_all add: timer_inv_def st_inv_def)
  then have "StBegin t \<in> set (st_brackets (y_taken (ti_run s)))" "set (y_taken (ti_run s)) \<subseteq> set (y_sent (ti_run s))"
    using assms(2) by (metis Un_iff set_append, simp)
  then have "t \<in> set (y_sent (ti_run s))" by (auto simp: st_brackets_def)
  with inv show ?thesis by (auto simp: timer_inv_def st_reached_def ti_allowed_def)
qed

end
