(* ===== verification/Parallel_Wait.thy ===== *)
theory Parallel_Wait
  imports Parallel_Runner Runner_Wait
begin

text \<open>
  \<^verbatim>\<open>WaitIdle\<close>, \<^verbatim>\<open>FlushAsync\<close> and \<^verbatim>\<open>WaitShutdown\<close> of \<^verbatim>\<open>core/parallel_task_runner.go\<close>. The callers are
  goroutines that move between the steps of the runner, as in \<open>Runner_Wait\<close>; they differ from the
  ones of the serial runners in the third branch of the \<^verbatim>\<open>select\<close> of \<^verbatim>\<open>WaitIdle\<close>, and in that the
  barrier passes through the internal scheduler before it is queued.
\<close>

section \<open>The callers\<close>

datatype par_wait_result = PWaitNil | PWaitClosed | PWaitCtx | PWaitShutdown

datatype par_waiter =
    PIdlePost "nat option" | PIdleSelect "nat option" | PIdleReturned par_wait_result
  | PShutSelect "nat option" | PShutReturned par_wait_result

record ('x, 'v) par_wait_sys =
  pw_runner :: "('x work, 'v) par_sys"
  pw_waiters :: "par_waiter list"
  pw_before :: "'x work par_task list list"
  pw_ctx_done :: "nat list"

text \<open>
  What was posted to the runner: the tasks it accepted, the one its scheduling goroutine is about to
  push, and the ones whose closures wait in the channel of the internal scheduler. \<open>pw_before\<close>
  records it for each call.
\<close>

fun sc_push :: "'t sched_at \<Rightarrow> 't par_task list" where "sc_push (ScPush t tr) = [t]" | "sc_push _ = []"

fun op_task :: "'t sched_op \<Rightarrow> 't par_task list" where
  "op_task (OpPost t tr) = [UserTask t]" | "op_task (OpBarrier t) = [BarrierTask t]" | "op_task _ = []"

definition par_committed :: "('t, 'v) par_sys \<Rightarrow> 't par_task list" where
  "par_committed s = map Task (pp_accepted s) @ sc_push (pp_sched s)"

definition par_sent :: "('t, 'v) par_sys \<Rightarrow> 't par_task list" where
  "par_sent s = par_committed s @ concat (map op_task (pp_ops s))"

definition par_wait_init :: "('x work, 'v) par_sys \<Rightarrow> ('x, 'v) par_wait_sys" where
  "par_wait_init r = \<lparr>pw_runner = r, pw_waiters = [], pw_before = [], pw_ctx_done = []\<rparr>"

definition add_par_waiter :: "par_waiter \<Rightarrow> ('x, 'v) par_wait_sys \<Rightarrow> ('x, 'v) par_wait_sys" where
  "add_par_waiter w s = s\<lparr>pw_waiters := pw_waiters s @ [w], pw_before := pw_before s @ [par_sent (pw_runner s)]\<rparr>"

definition pr_WaitIdle :: "nat option \<Rightarrow> ('x, 'v) par_wait_sys \<Rightarrow> ('x, 'v) par_wait_sys" where
  "pr_WaitIdle ctx s =
     add_par_waiter (if pr_closed (pp_runner (pw_runner s)) then PIdleReturned PWaitClosed else PIdlePost ctx) s"

definition pr_WaitShutdown :: "nat option \<Rightarrow> ('x, 'v) par_wait_sys \<Rightarrow> ('x, 'v) par_wait_sys" where
  "pr_WaitShutdown ctx s = add_par_waiter (PShutSelect ctx) s"

text \<open>\<^verbatim>\<open>FlushAsync\<close>; the callback is \<open>None\<close> for nil.\<close>

definition pr_FlushAsync ::
  "(nat \<Rightarrow> nat) \<Rightarrow> bool \<Rightarrow> 'x option \<Rightarrow> ('x work, 'v) par_sys \<Rightarrow> ('x work, 'v) par_sys option" where
  "pr_FlushAsync grow send callback r =
     (case callback of None \<Rightarrow> Some r | Some c \<Rightarrow> par_step grow (XFlush (FlushWork c) send) r)"

text \<open>
  One move of the \<open>n\<close>-th call: the post of its barrier, the branch of its channel \<^verbatim>\<open>done\<close>, which the
  barrier closes when it runs, or the only branch of \<^verbatim>\<open>WaitShutdown\<close> besides the context.
\<close>

fun par_waiter_step ::
  "(nat \<Rightarrow> nat) \<Rightarrow> bool \<Rightarrow> nat \<Rightarrow> par_waiter \<Rightarrow> ('x work, 'v) par_sys \<Rightarrow> (par_waiter \<times> ('x work, 'v) par_sys) option" where
  "par_waiter_step grow send n (PIdlePost ctx) r =
     map_option (\<lambda>r'. (PIdleSelect ctx, r')) (par_step grow (XFlush (BarrierWork n) send) r)"
| "par_waiter_step grow send n (PIdleSelect ctx) r =
     (if \<exists>e \<in> set (pp_log r). case e of EvBegin x \<Rightarrow> Task x = BarrierTask (BarrierWork n) | _ \<Rightarrow> False
      then Some (PIdleReturned PWaitNil, r) else None)"
| "par_waiter_step grow send n (PShutSelect ctx) r =
     (if pr_shutdownChan_closed (pp_runner r) then Some (PShutReturned PWaitNil, r) else None)"
| "par_waiter_step grow send n (PIdleReturned res) r = None"
| "par_waiter_step grow send n (PShutReturned res) r = None"

text \<open>The branches of the context and, for \<^verbatim>\<open>WaitIdle\<close> only, of \<^verbatim>\<open>shutdownChan\<close>.\<close>

fun par_waiter_ctx :: "nat list \<Rightarrow> par_waiter \<Rightarrow> par_waiter option" where
  "par_waiter_ctx ds (PIdleSelect (Some c)) = (if c \<in> set ds then Some (PIdleReturned PWaitCtx) else None)"
| "par_waiter_ctx ds (PShutSelect (Some c)) = (if c \<in> set ds then Some (PShutReturned PWaitCtx) else None)"
| "par_waiter_ctx ds w = None"

fun par_waiter_shut :: "bool \<Rightarrow> par_waiter \<Rightarrow> par_waiter option" where
  "par_waiter_shut True (PIdleSelect ctx) = Some (PIdleReturned PWaitShutdown)"
| "par_waiter_shut b w = None"

datatype 'x par_wait_label =
    PwRunner "'x work par_label" | PwIdle "nat option" | PwShutdown "nat option" | PwMove nat bool
  | PwCtx nat | PwShut nat | PwCtxDone nat

fun par_posts :: "'t par_label \<Rightarrow> 't par_task list" where
  "par_posts (XPost t tr send) = (if send then [UserTask t] else [])"
| "par_posts (XFlush t send) = (if send then [BarrierTask t] else [])"
| "par_posts _ = []"

text \<open>Nobody else posts the barrier of a waiting call.\<close>

fun foreign_label :: "'x work par_label \<Rightarrow> bool" where
  "foreign_label (XFlush (BarrierWork n) send) = False"
| "foreign_label _ = True"

definition set_par_waiter :: "nat \<Rightarrow> ('x, 'v) par_wait_sys \<Rightarrow> par_waiter \<Rightarrow> ('x, 'v) par_wait_sys" where
  "set_par_waiter n s w = s\<lparr>pw_waiters := (pw_waiters s)[n := w]\<rparr>"

fun par_wait_step ::
  "(nat \<Rightarrow> nat) \<Rightarrow> 'x par_wait_label \<Rightarrow> ('x, 'v) par_wait_sys \<Rightarrow> ('x, 'v) par_wait_sys option" where
  "par_wait_step grow (PwRunner l) s =
     (if foreign_label l then map_option (\<lambda>r. s\<lparr>pw_runner := r\<rparr>) (par_step grow l (pw_runner s)) else None)"
| "par_wait_step grow (PwIdle ctx) s = Some (pr_WaitIdle ctx s)"
| "par_wait_step grow (PwShutdown ctx) s = Some (pr_WaitShutdown ctx s)"
| "par_wait_step grow (PwMove n send) s =
     (if n < length (pw_waiters s)
      then map_option (\<lambda>(w, r). set_par_waiter n (s\<lparr>pw_runner := r\<rparr>) w)
             (par_waiter_step grow send n (pw_waiters s ! n) (pw_runner s))
      else None)"
| "par_wait_step grow (PwCtx n) s =
     (if n < length (pw_waiters s)
      then map_option (set_par_waiter n s) (par_waiter_ctx (pw_ctx_done s) (pw_waiters s ! n)) else None)"
| "par_wait_step grow (PwShut n) s =
     (if n < length (pw_waiters s)
      then map_option (set_par_waiter n s)
             (par_waiter_shut (pr_shutdownChan_closed (pp_runner (pw_runner s))) (pw_waiters s ! n)) else None)"
| "par_wait_step grow (PwCtxDone c) s = Some (s\<lparr>pw_ctx_done := c # pw_ctx_done s\<rparr>)"

abbreviation par_wait_reachable :: "(nat \<Rightarrow> nat) \<Rightarrow> ('x, 'v) par_wait_sys \<Rightarrow> bool" where
  "par_wait_reachable grow \<equiv>
     reach (\<lambda>s. \<exists>r. fresh_parallel r \<and> s = par_wait_init (par_init r)) (lstep (par_wait_step grow))"

section \<open>What a step does to the posted tasks\<close>

text \<open>The posted tasks that can still be accepted: a closed runner ignores the closures in the channel.\<close>

definition par_live :: "('t, 'v) par_sys \<Rightarrow> 't par_task list" where
  "par_live s = par_committed s @ (if pr_closed (pp_runner s) then [] else concat (map op_task (pp_ops s)))"

lemma par_live_open: "\<not> pr_closed (pp_runner s) \<Longrightarrow> par_live s = par_sent s"
  by (simp add: par_live_def par_sent_def)

lemma live_sent: "set (par_live s) \<subseteq> set (par_sent s)"
  by (auto simp: par_live_def par_sent_def)

definition line_step :: "'t par_task list \<Rightarrow> ('t, 'v) par_sys \<Rightarrow> ('t, 'v) par_sys \<Rightarrow> bool" where
  "line_step ys s s' \<longleftrightarrow>
     (par_live s' = par_live s @ (if pr_closed (pp_runner s) then [] else ys) \<or>
        pr_closed (pp_runner s') \<and> prefix (par_live s') (par_live s)) \<and>
     set (par_sent s') \<subseteq> set (par_sent s) \<union> set ys \<and> (pr_closed (pp_runner s) \<longrightarrow> pr_closed (pp_runner s'))"

lemma line_step_same:
  assumes "map Task (pp_accepted s') @ sc_push (pp_sched s') = map Task (pp_accepted s) @ sc_push (pp_sched s)"
    and "concat (map op_task (pp_ops s')) = concat (map op_task (pp_ops s))" "pr_closed (pp_runner s') = pr_closed (pp_runner s)"
  shows "line_step [] s s'"
  using assms by (simp add: line_step_def par_live_def par_sent_def par_committed_def)

lemma sched_post_line:
  assumes "sched_post send op s = Some s'"
  shows "line_step (if send then op_task op else []) s s'"
  using assms by (auto simp: sched_post_def line_step_def par_live_def par_sent_def par_committed_def split: if_splits)

lemma op_step_line:
  assumes "pp_sched s = ScIdle" "pp_ops s = op # ops"
  shows "line_step [] s (op_step op (s\<lparr>pp_ops := ops\<rparr>))"
  using assms by (cases op) (auto simp: line_step_def par_live_def par_sent_def par_committed_def set_sched_at_def)

lemma sched_step_line:
  assumes st: "sched_step grow i s = Some s'"
  shows "line_step [] s s'"
proof (cases "pp_sched s")
  case ScIdle
  with st obtain op ops where "pp_ops s = op # ops" "s' = op_step op (s\<lparr>pp_ops := ops\<rparr>)"
    by (auto simp: Let_def split: list.splits)
  with op_step_line [OF ScIdle] show ?thesis by simp
next
  case (ScPush t tr)
  with st show ?thesis
    by (intro line_step_same) (auto simp: Let_def pr_push_def markAsBarrier_def split: par_task.splits)
qed (use st in \<open>auto simp: Let_def set_sched_at_def begin_post_def postBarrierTaskInternal_def pr_add_running_def
       removeBarrier_def intro!: line_step_same split: option.splits if_splits prod.splits\<close>)

lemma line_step_workers [simp]: "line_step ys s (s'\<lparr>pp_workers := ws\<rparr>) = line_step ys s s'"
  by (simp add: line_step_def par_live_def par_sent_def par_committed_def)

lemma worker_step_line:
  assumes "par_worker_step send pc s = Some (pc', s1)"
  shows "line_step [] s s1"
proof (cases pc)
  case RDefer
  with assms sched_post_line [of send OpBarrierDone s s1] show ?thesis by (cases send) auto
next
  case RNotify
  with assms sched_post_line [of send OpTry s s1] show ?thesis by (cases send) auto
qed (use assms in \<open>auto simp: pr_add_running_def intro!: line_step_same\<close>)

lemma par_step_line:
  assumes st: "par_step grow l s = Some s'"
  shows "line_step (par_posts l) s s'"
proof (cases l)
  case (XPost t tr send)
  with st sched_post_line [of send "OpPost t tr" s s'] show ?thesis by (cases send) simp_all
next
  case (XFlush t send)
  with st sched_post_line [of send "OpBarrier t" s s'] show ?thesis by (cases send) simp_all
next
  case (XSched i)
  with st sched_step_line [of grow i s s'] show ?thesis by simp
next
  case (XWorker k send)
  with st worker_step_line show ?thesis by (auto split: if_splits)
next
  case XShutdown
  with st show ?thesis
    by (cases "pr_shutdownOnce (pp_runner s)")
      (auto simp: pr_Shutdown_close_def line_step_def par_live_def par_sent_def par_committed_def)
qed (use st in \<open>auto simp: pr_Shutdown_clear_def intro!: line_step_same split: if_splits\<close>)

section \<open>The invariant\<close>

lemma posted_split: "x \<in> set (posted_of es) \<Longrightarrow> \<exists>pre post. es = pre @ EvPosted x # post"
proof (induction es rule: posted_of.induct)
  case (2 y es)
  then show ?case by (metis append_Cons append_Nil posted_of.simps(2) set_ConsD)
qed (auto, (metis append_Cons)+)

lemma mset_prefix: "prefix xs ys \<Longrightarrow> mset xs \<subseteq># mset ys"
  by (auto simp: prefix_def)

abbreviation wait_barrier :: "nat \<Rightarrow> 'x work par_task" where
  "wait_barrier n \<equiv> BarrierTask (BarrierWork n)"

definition begun_posted :: "('t, 'v) par_sys \<Rightarrow> bool" where
  "begun_posted s \<longleftrightarrow> (\<forall>x. EvBegin x \<in> set (pp_log s) \<longrightarrow> x \<in> set (posted_of (pp_log s)))"

text \<open>
  What holds of the \<open>n\<close>-th call: its barrier is behind everything posted before the call; before it
  posts the barrier nobody has it; and it returns nil only after the barrier began.
\<close>

definition par_waiter_ok :: "nat \<Rightarrow> par_waiter \<Rightarrow> 'x work par_task list \<Rightarrow> ('x work, 'v) par_sys \<Rightarrow> bool" where
  "par_waiter_ok n w before r \<longleftrightarrow>
     (\<forall>ctx. w = PIdlePost ctx \<longrightarrow> wait_barrier n \<notin> set (par_sent r) \<and>
        (\<not> pr_closed (pp_runner r) \<longrightarrow> prefix before (par_sent r))) \<and>
     (wait_barrier n \<in> set (par_live r) \<longrightarrow> prefix before (takeWhile (\<lambda>t. t \<noteq> wait_barrier n) (par_live r))) \<and>
     (w = PIdleReturned PWaitNil \<longrightarrow> (\<exists>x. EvBegin x \<in> set (pp_log r) \<and> Task x = wait_barrier n))"

definition par_wait_inv :: "('x, 'v) par_wait_sys \<Rightarrow> bool" where
  "par_wait_inv s \<longleftrightarrow> par_inv (pw_runner s) \<and> begun_posted (pw_runner s) \<and> length (pw_before s) = length (pw_waiters s) \<and>
     (\<forall>n < length (pw_waiters s). par_waiter_ok n (pw_waiters s ! n) (pw_before s ! n) (pw_runner s)) \<and>
     (\<forall>n \<ge> length (pw_waiters s). wait_barrier n \<notin> set (par_sent (pw_runner s)))"

lemma takeWhile_prefix: "prefix xs ys \<Longrightarrow> x \<in> set xs \<Longrightarrow> takeWhile (\<lambda>t. t \<noteq> x) xs = takeWhile (\<lambda>t. t \<noteq> x) ys"
  by (auto simp: prefix_def takeWhile_append1)

lemma log_grows:
  assumes "par_step grow l s = Some s'"
  shows "\<exists>es. pp_log s' = pp_log s @ es \<and> (\<forall>x. EvBegin x \<in> set es \<longrightarrow> x \<in> set (pp_pool s))"
proof (cases l)
  case (XSched i)
  have "pp_log (op_step op t) = pp_log t" for op and t :: "('a, 'b) par_sys"
    by (cases op) (simp_all add: set_sched_at_def)
  with XSched assms show ?thesis
    by (auto simp: Let_def set_sched_at_def begin_post_def split: sched_at.splits list.splits option.splits
        if_splits prod.splits par_task.splits)
next
  case (XWorker k send)
  have "\<exists>es. pp_log s1 = pp_log s @ es \<and> (\<forall>x. EvBegin x \<notin> set es)"
    if "par_worker_step send pc s = Some (pc', s1)" for pc pc' s1
    using that by (cases pc) (auto simp: sched_post_def split: if_splits)
  with XWorker assms show ?thesis by (fastforce split: if_splits)
qed (use assms in \<open>auto simp: sched_post_def pr_Shutdown_close_def pr_Shutdown_clear_def split: if_splits\<close>)

lemma begun_posted_step:
  assumes "par_inv s" "begun_posted s" "par_step grow l s = Some s'"
  shows "begun_posted s'"
proof -
  have "mset (pp_pool s) \<subseteq># mset (posted_of (pp_log s))" using assms(1) by (simp add: par_inv_def par_tasks_ok_def)
  then have "set (pp_pool s) \<subseteq> set (posted_of (pp_log s))" by (metis set_mset_mono set_mset_mset)
  with log_grows [OF assms(3)] assms(2) show ?thesis unfolding begun_posted_def by fastforce
qed

text \<open>A step of the runner keeps what a call relies on, unless it posts the barrier of that call.\<close>

lemma waiter_ok_foreign:
  assumes ok: "par_waiter_ok n w before r" and st: "par_step grow l r = Some r'" and not_own: "wait_barrier n \<notin> set (par_posts l)"
  shows "par_waiter_ok n w before r'"
proof -
  note line = par_step_line [OF st, unfolded line_step_def]
  have sent: "wait_barrier n \<notin> set (par_sent r')" if "wait_barrier n \<notin> set (par_sent r)"
    using line not_own that by blast
  have "prefix before (par_sent r')" if "prefix before (par_sent r)" "\<not> pr_closed (pp_runner r')"
    using line that par_live_open [of r] par_live_open [of r'] by (auto intro: prefix_prefix)
  moreover have "prefix before (takeWhile (\<lambda>t. t \<noteq> wait_barrier n) (par_live r'))" if b: "wait_barrier n \<in> set (par_live r')"
  proof -
    have b': "wait_barrier n \<in> set (par_live r)" using line b not_own by (auto dest: set_mono_prefix split: if_splits)
    have "prefix (par_live r') (par_live r) \<or> prefix (par_live r) (par_live r')" using line by auto
    then have "takeWhile (\<lambda>t. t \<noteq> wait_barrier n) (par_live r') = takeWhile (\<lambda>t. t \<noteq> wait_barrier n) (par_live r)"
      using takeWhile_prefix b b' by metis
    with ok b' show ?thesis by (simp add: par_waiter_ok_def)
  qed
  moreover have "\<exists>x. EvBegin x \<in> set (pp_log r') \<and> Task x = wait_barrier n" if "w = PIdleReturned PWaitNil"
    using ok that log_grows [OF st] by (auto simp: par_waiter_ok_def)
  ultimately show ?thesis using ok line sent by (auto simp: par_waiter_ok_def)
qed

lemma waiter_ok_own:
  assumes ok: "par_waiter_ok n (PIdlePost ctx) before r" and st: "par_step grow (XFlush (BarrierWork n) send) r = Some r'"
  shows "par_waiter_ok n (PIdleSelect ctx) before r'"
proof (cases "wait_barrier n \<in> set (par_live r')")
  case True
  note line = par_step_line [OF st, unfolded line_step_def]
  have new: "wait_barrier n \<notin> set (par_live r)" using ok live_sent [of r] by (auto simp: par_waiter_ok_def)
  with True line have "par_live r' = par_live r @ [wait_barrier n]" and op: "\<not> pr_closed (pp_runner r)"
    by (auto dest: set_mono_prefix split: if_splits)
  moreover have "prefix before (par_live r)" using ok op par_live_open [OF op] by (simp add: par_waiter_ok_def)
  moreover have "takeWhile (\<lambda>t. t \<noteq> wait_barrier n) (par_live r @ [wait_barrier n]) = par_live r"
    using new by (simp add: takeWhile_append takeWhile_eq_all_conv)
  ultimately show ?thesis by (simp add: par_waiter_ok_def)
qed (simp add: par_waiter_ok_def)

lemma par_wait_runner_inv:
  assumes inv: "par_wait_inv s" and st: "par_step grow l (pw_runner s) = Some r'"
    and ws: "length ws = length (pw_waiters s)"
    and calls: "\<And>n. n < length ws \<Longrightarrow> ws ! n = pw_waiters s ! n \<and> wait_barrier n \<notin> set (par_posts l) \<or>
      par_waiter_ok n (ws ! n) (pw_before s ! n) r'"
    and late: "\<And>n. length ws \<le> n \<Longrightarrow> wait_barrier n \<notin> set (par_posts l)"
  shows "par_wait_inv (s\<lparr>pw_runner := r', pw_waiters := ws\<rparr>)"
proof -
  have p: "par_inv (pw_runner s)" "begun_posted (pw_runner s)" using inv by (simp_all add: par_wait_inv_def)
  have "par_waiter_ok n (ws ! n) (pw_before s ! n) r'" if n: "n < length ws" for n
  proof -
    have "par_waiter_ok n (pw_waiters s ! n) (pw_before s ! n) (pw_runner s)" using inv n ws by (simp add: par_wait_inv_def)
    from waiter_ok_foreign [OF this st] calls [OF n] show ?thesis by auto
  qed
  moreover have "wait_barrier n \<notin> set (par_sent r')" if "length ws \<le> n" for n
    using par_step_line [OF st] inv late [OF that] that ws unfolding line_step_def par_wait_inv_def by auto
  ultimately show ?thesis
    using inv ws par_step_inv [OF p(1) st] begun_posted_step [OF p st] by (simp add: par_wait_inv_def)
qed

text \<open>A call moves and the runner does not.\<close>

lemma par_wait_move_inv:
  assumes "par_wait_inv s" "n < length (pw_waiters s)" "\<And>ctx. w \<noteq> PIdlePost ctx"
    and "w = PIdleReturned PWaitNil \<Longrightarrow> \<exists>x. EvBegin x \<in> set (pp_log (pw_runner s)) \<and> Task x = wait_barrier n"
  shows "par_wait_inv (set_par_waiter n s w)"
proof -
  have "par_waiter_ok m ((pw_waiters s)[n := w] ! m) (pw_before s ! m) (pw_runner s)" if "m < length (pw_waiters s)" for m
  proof -
    have "par_waiter_ok m (pw_waiters s ! m) (pw_before s ! m) (pw_runner s)" using assms(1) that by (simp add: par_wait_inv_def)
    then show ?thesis using assms(2-4) by (cases "m = n") (auto simp: par_waiter_ok_def)
  qed
  with assms(1) show ?thesis by (simp add: par_wait_inv_def set_par_waiter_def)
qed

lemma par_wait_add_inv:
  assumes inv: "par_wait_inv s" and w: "w \<noteq> PIdleReturned PWaitNil"
  shows "par_wait_inv (add_par_waiter w s)"
proof -
  let ?n = "length (pw_waiters s)"
  have new: "wait_barrier ?n \<notin> set (par_sent (pw_runner s))" using inv by (simp add: par_wait_inv_def)
  then have "par_waiter_ok ?n w (par_sent (pw_runner s)) (pw_runner s)"
    using live_sent [of "pw_runner s"] w by (auto simp: par_waiter_ok_def)
  then show ?thesis
    using inv by (auto simp: par_wait_inv_def add_par_waiter_def nth_append less_Suc_eq)
qed

lemma par_wait_step_inv:
  assumes inv: "par_wait_inv s" and st: "par_wait_step grow l s = Some s'"
  shows "par_wait_inv s'"
proof (cases l)
  case (PwRunner k)
  with st obtain r where r: "par_step grow k (pw_runner s) = Some r" "s' = s\<lparr>pw_runner := r\<rparr>" and k: "foreign_label k"
    by (auto split: if_splits)
  have foreign: "wait_barrier n \<notin> set (par_posts k)" for n
    using k by (cases k rule: foreign_label.cases) auto
  have "par_wait_inv (s\<lparr>pw_runner := r, pw_waiters := pw_waiters s\<rparr>)"
    by (rule par_wait_runner_inv [OF inv r(1)]) (simp_all add: foreign)
  with r(2) show ?thesis by simp
next
  case (PwIdle ctx)
  with st par_wait_add_inv [OF inv] show ?thesis by (auto simp: pr_WaitIdle_def split: if_splits)
next
  case (PwShutdown ctx)
  with st par_wait_add_inv [OF inv] show ?thesis by (auto simp: pr_WaitShutdown_def)
next
  case (PwMove n send)
  with st obtain w r where n: "n < length (pw_waiters s)"
    and w: "par_waiter_step grow send n (pw_waiters s ! n) (pw_runner s) = Some (w, r)"
    and s': "s' = s\<lparr>pw_runner := r, pw_waiters := (pw_waiters s)[n := w]\<rparr>"
    by (auto simp: set_par_waiter_def split: if_splits)
  show ?thesis
  proof (cases "pw_waiters s ! n")
    case (PIdlePost ctx)
    with w have p: "par_step grow (XFlush (BarrierWork n) send) (pw_runner s) = Some r" and w': "w = PIdleSelect ctx" by auto
    have ok: "par_waiter_ok n (PIdlePost ctx) (pw_before s ! n) (pw_runner s)" using inv n PIdlePost by (auto simp: par_wait_inv_def)
    show ?thesis
      unfolding s'
    proof (rule par_wait_runner_inv [OF inv p])
      show "(pw_waiters s)[n := w] ! m = pw_waiters s ! m \<and> wait_barrier m \<notin> set (par_posts (XFlush (BarrierWork n) send)) \<or>
          par_waiter_ok m ((pw_waiters s)[n := w] ! m) (pw_before s ! m) r" for m
        using waiter_ok_own [OF ok p] w' n by (cases "m = n") auto
    qed (use n in auto)
  next
    case (PIdleSelect ctx)
    with w have ex: "\<exists>e \<in> set (pp_log (pw_runner s)). case e of EvBegin x \<Rightarrow> Task x = wait_barrier n | _ \<Rightarrow> False"
      and "r = pw_runner s" "w = PIdleReturned PWaitNil" by (simp_all split: if_splits)
    moreover from ex obtain e where "e \<in> set (pp_log (pw_runner s))" "case e of EvBegin x \<Rightarrow> Task x = wait_barrier n | _ \<Rightarrow> False"
      by blast
    then have "\<exists>x. EvBegin x \<in> set (pp_log (pw_runner s)) \<and> Task x = wait_barrier n" by (cases rule: par_event.exhaust [of e]) auto
    ultimately show ?thesis using par_wait_move_inv [OF inv n, of w] by (simp add: s' set_par_waiter_def)
  next
    case (PShutSelect ctx)
    with w have "r = pw_runner s" "w = PShutReturned PWaitNil" by (auto split: if_splits)
    with par_wait_move_inv [OF inv n, of w] show ?thesis by (simp add: s' set_par_waiter_def)
  qed (use w in simp_all)
next
  case (PwCtx n)
  with st obtain w where n: "n < length (pw_waiters s)" and w: "par_waiter_ctx (pw_ctx_done s) (pw_waiters s ! n) = Some w"
    and s': "s' = set_par_waiter n s w" by (auto split: if_splits)
  from w have "w = PIdleReturned PWaitCtx \<or> w = PShutReturned PWaitCtx"
    by (cases "(pw_ctx_done s, pw_waiters s ! n)" rule: par_waiter_ctx.cases) (auto split: if_splits)
  with par_wait_move_inv [OF inv n, of w] show ?thesis by (auto simp: s')
next
  case (PwShut n)
  with st obtain w where n: "n < length (pw_waiters s)"
    and w: "par_waiter_shut (pr_shutdownChan_closed (pp_runner (pw_runner s))) (pw_waiters s ! n) = Some w"
    and s': "s' = set_par_waiter n s w" by (auto split: if_splits)
  from w have "w = PIdleReturned PWaitShutdown" by (auto elim!: par_waiter_shut.elims)
  with par_wait_move_inv [OF inv n, of w] show ?thesis by (auto simp: s')
next
  case (PwCtxDone c)
  with st inv show ?thesis by (auto simp: par_wait_inv_def)
qed

interpretation par_waits: inv_system "\<lambda>s. \<exists>r. fresh_parallel r \<and> s = par_wait_init (par_init r)"
  "lstep (par_wait_step grow)" par_wait_inv for grow
proof unfold_locales
  fix s :: "('x, 'v) par_wait_sys"
  assume "\<exists>r. fresh_parallel r \<and> s = par_wait_init (par_init r)"
  then obtain r where r: "fresh_parallel r" "s = par_wait_init (par_init r)" by blast
  from par_inv_init [OF r(1)] show "par_wait_inv s"
    by (simp add: r(2) par_wait_inv_def par_wait_init_def begun_posted_def par_sent_def par_committed_def)
       (simp add: par_init_def)
qed (auto simp: lstep_def simp del: par_wait_step.simps intro: par_wait_step_inv)

section \<open>The property\<close>

text \<open>A task is posted, \<^verbatim>\<open>WaitIdle\<close> is called while it waits, the task runs, the barrier runs, the call returns.\<close>

definition ex_pw_labels :: "nat par_wait_label list" where
  "ex_pw_labels =
     [PwRunner (XPost (UserWork 7) DefaultTaskTraits True), PwIdle None, PwMove 0 True] @ replicate 11 (PwRunner (XSched 1)) @
     replicate 6 (PwRunner (XSched 2)) @ [PwRunner (XWork 0)] @ replicate 3 (PwRunner (XWorker 0 True)) @
     replicate 4 (PwRunner (XSched 3)) @ [PwRunner (XWork 0), PwMove 0 True]"

definition ex_pw_runner :: "(nat work, unit) ParallelTaskRunner" where
  "ex_pw_runner = (case NewParallelTaskRunner [] (Some ()) 2 of Inr r \<Rightarrow> r | Inl _ \<Rightarrow> undefined)"

definition ex_pw :: "(nat, unit) par_wait_sys" where
  "ex_pw = the (run (par_wait_step id) ex_pw_labels (par_wait_init (par_init ex_pw_runner)))"

lemma ex_pw_fresh: "fresh_parallel ex_pw_runner"
proof -
  have "NewParallelTaskRunner [] (Some ()) 2 = Inr ex_pw_runner"
    by (simp add: ex_pw_runner_def NewParallelTaskRunner_def maxAllowedConcurrency_def)
  then show ?thesis unfolding fresh_parallel_def by blast
qed

lemma ex_pw_reachable: "par_wait_reachable id ex_pw"
  unfolding ex_pw_def by (rule run_the_reach) (use ex_pw_fresh in blast, code_simp)

lemma ex_pw_state:
  "pw_waiters ex_pw = [PIdleReturned PWaitNil]" "pw_before ex_pw = [[UserTask (UserWork 7)]]"
  "\<not> pp_cleared (pw_runner ex_pw)" "distinct (map ID (pp_accepted (pw_runner ex_pw)))"
  by code_simp+



end
