(* ===== verification/Task_Observability.thy ===== *)
theory Task_Observability
  imports Sequenced_Runner Parallel_Runner Task_And_Reply
begin

text \<open>
  What the runners and the pool tell the handlers when a task runs: the context a task gets
  (\<^verbatim>\<open>core/task.go\<close>), the reports of the queue depth, the recovery of a panic in \<^verbatim>\<open>runLoop\<close> of the
  three runners and in \<^verbatim>\<open>workerLoop\<close> of \<^verbatim>\<open>pool.go\<close>, and the texts of the default handlers
  (\<^verbatim>\<open>core/interfaces.go\<close>). Here one closure runs to its end without interruption; the interleavings are
  the subject of the runners' own theories, whose steps these functions follow.
\<close>

section \<open>The context of a task\<close>

text \<open>A context is the background one, one with the key \<^verbatim>\<open>taskRunnerKey\<close> on top, or one that carries something else.\<close>

datatype 'r go_context = Background | WithRunner "'r go_context" 'r | WithOther "'r go_context"

fun GetCurrentTaskRunner :: "'r go_context \<Rightarrow> 'r option" where
  "GetCurrentTaskRunner Background = None"
| "GetCurrentTaskRunner (WithRunner ctx r) = Some r"
| "GetCurrentTaskRunner (WithOther ctx) = GetCurrentTaskRunner ctx"

section \<open>Calls on the handlers\<close>

text \<open>
  A panic is of the user's task, the runner's own check, or a use of a nil scheduler. A call
  on a handler is recorded with its arguments, but for the stack trace and the measured time.
\<close>

datatype 'p panic_value = UserPanic 'p | RunnerPanic | NilDereference

datatype ('r, 'p) obs_call =
    CHandlePanic "'r go_context" string int "'p panic_value"
  | CRecordTaskPanic string "'p panic_value"
  | CRecordQueueDepth string nat
  | CRecordTaskDuration string TaskPriority
  | CLogPanic string "'p panic_value"
  | CPrintPanic string "'p panic_value"

text \<open>
  The pool of a runner: whether it has the method \<^verbatim>\<open>GetScheduler\<close> (a nil pool has not), and
  what that returns. A scheduler always has handlers, by its constructors.
\<close>

datatype ('t, 'r, 'h) pool_view = NoGetScheduler | GetSchedulerIs "('t, 'r, 'h) TaskScheduler option"

definition sr_emitQueueDepth ::
  "('c, 'q, 'h) pool_view \<Rightarrow> ('t, 'v) SequencedTaskRunner \<Rightarrow> nat \<Rightarrow> ('r, 'p) obs_call list" where
  "sr_emitQueueDepth pool r depth =
     (case pool of GetSchedulerIs (Some _) \<Rightarrow> [CRecordQueueDepth (sr_observabilityName r) depth] | _ \<Rightarrow> [])"

definition pr_emitQueueDepth ::
  "('c, 'q, 'h) pool_view \<Rightarrow> ('t, 'v) ParallelTaskRunner \<Rightarrow> nat \<Rightarrow> ('r, 'p) obs_call list" where
  "pr_emitQueueDepth pool r depth =
     (case pool of GetSchedulerIs (Some _) \<Rightarrow> [CRecordQueueDepth (pr_observabilityName r) depth] | _ \<Rightarrow> [])"

text \<open>
  The deferred function around a task, the same in two runners but for the text of its log line. It
  does not test the scheduler: a nil one makes it panic in turn.
\<close>

definition runner_recover ::
  "string \<Rightarrow> ('c, 'q, 'h) pool_view \<Rightarrow> 'r go_context \<Rightarrow> string \<Rightarrow> 'p panic_value \<Rightarrow>
     'p panic_value outcome \<times> ('r, 'p) obs_call list" where
  "runner_recover line pool runCtx name p =
     (case pool of
        NoGetScheduler \<Rightarrow> (Returned, [CLogPanic line p])
      | GetSchedulerIs None \<Rightarrow> (Panicked NilDereference, [])
      | GetSchedulerIs (Some _) \<Rightarrow> (Returned, [CHandlePanic runCtx name (- 1) p, CRecordTaskPanic name p]))"

section \<open>The sequenced runner\<close>

text \<open>
  A task gets the context and may change the runner, by posting to it. \<open>sr_run_task\<close> is the
  function literal in \<^verbatim>\<open>runLoop\<close>.
\<close>

definition sr_run_task ::
  "('c, 'q, 'h) pool_view \<Rightarrow> 'r go_context \<Rightarrow>
     ('r go_context \<Rightarrow> ('t, 'v) SequencedTaskRunner \<Rightarrow> 'p panic_value outcome \<times> ('t, 'v) SequencedTaskRunner) \<Rightarrow>
     ('t, 'v) SequencedTaskRunner \<Rightarrow> 'p panic_value outcome \<times> ('t, 'v) SequencedTaskRunner \<times> ('r, 'p) obs_call list" where
  "sr_run_task pool runCtx task r =
     (case task runCtx r of
        (Returned, r') \<Rightarrow> (Returned, r', [])
      | (Panicked p, r') \<Rightarrow>
          (case runner_recover ''[SequencedTaskRunner] Task panic recovered: '' pool runCtx (sr_name r') p of
             (res, cs) \<Rightarrow> (res, r', cs)))"

text \<open>\<^verbatim>\<open>ensureRunning\<close> and \<^verbatim>\<open>scheduleNextIfNeeded\<close>: the posts of \<^verbatim>\<open>runLoop\<close> with their traits.\<close>

definition sr_ensureRunning :: "TaskTraits \<Rightarrow> ('t, 'v) SequencedTaskRunner \<Rightarrow> ('t, 'v) SequencedTaskRunner \<times> TaskTraits list" where
  "sr_ensureRunning tr r = (case sr_cas r of (ok, r') \<Rightarrow> (r', if ok then [tr] else []))"

definition sr_scheduleNextIfNeeded :: "('t, 'v) SequencedTaskRunner \<Rightarrow> ('t, 'v) SequencedTaskRunner \<times> TaskTraits list" where
  "sr_scheduleNextIfNeeded r = (case sr_has_more r of Some tr \<Rightarrow> sr_ensureRunning tr r | None \<Rightarrow> (r, []))"

definition sr_runLoop ::
  "'r \<Rightarrow> ('c, 'q, 'h) pool_view \<Rightarrow>
     ('t \<Rightarrow> 'r go_context \<Rightarrow> ('t, 'v) SequencedTaskRunner \<Rightarrow> 'p panic_value outcome \<times> ('t, 'v) SequencedTaskRunner) \<Rightarrow>
     'r go_context \<Rightarrow> ('t, 'v) SequencedTaskRunner \<Rightarrow>
     'p panic_value outcome \<times> ('t, 'v) SequencedTaskRunner \<times> ('r, 'p) obs_call list \<times> TaskTraits list" where
  "sr_runLoop self pool env ctx r =
     (if sr_runningCount r \<noteq> 1 then (Panicked RunnerPanic, r, [], [])
      else
        let runCtx = WithRunner ctx self in
        case sr_pop r of
          (None, r1) \<Rightarrow> (case sr_scheduleNextIfNeeded (sr_store_idle r1) of (r2, posts) \<Rightarrow> (Returned, r2, [], posts))
        | (Some item, r1) \<Rightarrow>
            (let depth = sr_emitQueueDepth pool r1 (FIFO_Len (sr_queue r1)) in
             case sr_run_task pool runCtx (env (Task item)) r1 of
               (Panicked p, r2, cs) \<Rightarrow> (Panicked p, r2, depth @ cs, [])
             | (Returned, r2, cs) \<Rightarrow>
                 (case sr_has_more r2 of
                    Some tr \<Rightarrow> (Returned, r2, depth @ cs, [tr])
                  | None \<Rightarrow>
                      (case sr_scheduleNextIfNeeded (sr_store_idle r2) of (r3, posts) \<Rightarrow> (Returned, r3, depth @ cs, posts)))))"

section \<open>The parallel and the single-thread runner\<close>

text \<open>The closure that \<^verbatim>\<open>runLoop(task)\<close> of a parallel runner returns, with \<^verbatim>\<open>onTaskComplete\<close>, which runs even when the deferred function panics.\<close>

definition pr_runLoop ::
  "'r \<Rightarrow> ('c, 'q, 'h) pool_view \<Rightarrow>
     ('r go_context \<Rightarrow> ('t, 'v) ParallelTaskRunner \<Rightarrow> 'p panic_value outcome \<times> ('t, 'v) ParallelTaskRunner) \<Rightarrow>
     'r go_context \<Rightarrow> ('t, 'v) ParallelTaskRunner \<Rightarrow>
     'p panic_value outcome \<times> ('t, 'v) ParallelTaskRunner \<times> ('r, 'p) obs_call list \<times> 't sched_op list" where
  "pr_runLoop self pool task ctx r =
     (let runCtx = WithRunner ctx self in
      case task runCtx r of
        (Returned, r') \<Rightarrow> (Returned, pr_add_running (- 1) r', [], [OpTry])
      | (Panicked p, r') \<Rightarrow>
          (case runner_recover ''[ParallelTaskRunner] Task panic recovered: '' pool runCtx (pr_name r') p of
             (res, cs) \<Rightarrow> (res, pr_add_running (- 1) r', cs, [OpTry])))"

text \<open>The function literal in \<^verbatim>\<open>runLoop\<close> of a single-thread runner, which prints and asks no handler.\<close>

definition st_run_task ::
  "'r \<Rightarrow> ('r go_context \<Rightarrow> ('t, 'v, 'k) SingleThreadTaskRunner \<Rightarrow> 'p panic_value outcome \<times> ('t, 'v, 'k) SingleThreadTaskRunner) \<Rightarrow>
     'r go_context \<Rightarrow> ('t, 'v, 'k) SingleThreadTaskRunner \<Rightarrow> ('t, 'v, 'k) SingleThreadTaskRunner \<times> ('r, 'p) obs_call list" where
  "st_run_task self task ctx r =
     (case task (WithRunner ctx self) (r\<lparr>st_executingCount := st_executingCount r + 1\<rparr>) of
        (res, r') \<Rightarrow>
          (r'\<lparr>st_executingCount := st_executingCount r' - 1\<rparr>,
           case res of Returned \<Rightarrow> [] | Panicked p \<Rightarrow> [CPrintPanic ''[SingleThreadTaskRunner] Panic: '' p]))"

section \<open>The worker of the pool\<close>

text \<open>The deferred function of \<^verbatim>\<open>workerLoop\<close> after the closure it popped.\<close>

definition worker_report ::
  "'r go_context \<Rightarrow> string \<Rightarrow> nat \<Rightarrow> TaskPriority \<Rightarrow> 'p panic_value outcome \<Rightarrow> ('r, 'p) obs_call list" where
  "worker_report ctx poolName i priority res =
     (case res of
        Panicked p \<Rightarrow> [CHandlePanic ctx poolName (int i) p, CRecordTaskPanic poolName p]
      | Returned \<Rightarrow> [CRecordTaskDuration poolName priority])"

text \<open>A worker executes the \<^verbatim>\<open>runLoop\<close> of a sequenced runner.\<close>

definition worker_runs_sequenced ::
  "string \<Rightarrow> nat \<Rightarrow> TaskPriority \<Rightarrow> 'r \<Rightarrow> ('c, 'q, 'h) pool_view \<Rightarrow>
     ('t \<Rightarrow> 'r go_context \<Rightarrow> ('t, 'v) SequencedTaskRunner \<Rightarrow> 'p panic_value outcome \<times> ('t, 'v) SequencedTaskRunner) \<Rightarrow>
     'r go_context \<Rightarrow> ('t, 'v) SequencedTaskRunner \<Rightarrow> ('t, 'v) SequencedTaskRunner \<times> ('r, 'p) obs_call list \<times> TaskTraits list" where
  "worker_runs_sequenced poolName i priority self pool env ctx r =
     (case sr_runLoop self pool env ctx r of
        (res, r', cs, posts) \<Rightarrow> (r', cs @ worker_report ctx poolName i priority res, posts))"

section \<open>The default handlers\<close>

fun dec_digits :: "nat \<Rightarrow> string" where
  "dec_digits n = (if n < 10 then [char_of (48 + n)] else dec_digits (n div 10) @ [char_of (48 + n mod 10)])"

definition dec_int :: "int \<Rightarrow> string" where
  "dec_int n = (if n < 0 then ''-'' @ dec_digits (nat (- n)) else dec_digits (nat n))"

definition newline :: string where "newline = [char_of (10 :: nat)]"

text \<open>\<open>shown\<close> is the text of the panic value under \<^verbatim>\<open>%v\<close>.\<close>

definition DefaultPanicHandler_HandlePanic :: "string \<Rightarrow> int \<Rightarrow> string \<Rightarrow> string \<Rightarrow> string" where
  "DefaultPanicHandler_HandlePanic runnerName workerID shown stackTrace =
     (if workerID \<ge> 0
      then ''[Worker '' @ dec_int workerID @ '' @ '' @ runnerName @ ''] Panic: '' @ shown @ newline @
             ''Stack trace:'' @ newline @ stackTrace @ newline
      else ''[Runner '' @ runnerName @ ''] Panic: '' @ shown @ newline @ ''Stack trace:'' @ newline @ stackTrace @ newline)"

definition DefaultRejectedTaskHandler_HandleRejectedTask :: "string \<Rightarrow> string \<Rightarrow> string" where
  "DefaultRejectedTaskHandler_HandleRejectedTask runnerName reason =
     ''[Runner '' @ runnerName @ ''] Task rejected: '' @ reason @ newline"

section \<open>The properties\<close>

lemma sr_has_more_None_iff: "sr_has_more r = None \<longleftrightarrow> FIFO_IsEmpty (sr_queue r)"
  by (auto simp: sr_has_more_def split: option.splits)

text \<open>How a \<^verbatim>\<open>runLoop\<close> leaves its runner: idle and empty, or handed over to one posted \<^verbatim>\<open>runLoop\<close>.\<close>

definition sr_handed_over :: "('t, 'v) SequencedTaskRunner \<Rightarrow> TaskTraits list \<Rightarrow> bool" where
  "sr_handed_over r posts \<longleftrightarrow>
     posts = [] \<and> sr_runningCount r = 0 \<and> FIFO_IsEmpty (sr_queue r) \<or>
     (\<exists>tr. posts = [tr] \<and> sr_runningCount r = 1 \<and> \<not> FIFO_IsEmpty (sr_queue r))"

lemma schedule_hands_over: "sr_scheduleNextIfNeeded (sr_store_idle r) = (r', posts) \<Longrightarrow> sr_handed_over r' posts"
  using sr_has_more_None_iff [of "sr_store_idle r"]
  by (auto simp: sr_scheduleNextIfNeeded_def sr_ensureRunning_def sr_cas_def sr_store_idle_def sr_handed_over_def
      split: option.splits if_splits)

lemma run_task_contains:
  assumes "pool \<noteq> GetSchedulerIs None"
  shows "\<exists>cs. sr_run_task pool runCtx task r = (Returned, snd (task runCtx r), cs)"
  using assms by (cases "task runCtx r")
    (auto simp: sr_run_task_def runner_recover_def split: outcome.splits pool_view.splits option.splits)

lemma pop_keeps: "sr_pop r = (x, r') \<Longrightarrow> sr_runningCount r' = sr_runningCount r \<and> sr_name r' = sr_name r"
  by (auto simp: sr_pop_def split: prod.splits)

lemma runLoop_item:
  assumes "sr_runningCount r = 1" "sr_pop r = (Some item, r1)"
    and "sr_run_task pool (WithRunner ctx self) (env (Task item)) r1 = (Returned, r2, cs)"
  shows "\<exists>r3 posts. sr_runLoop self pool env ctx r =
      (Returned, r3, sr_emitQueueDepth pool r1 (FIFO_Len (sr_queue r1)) @ cs, posts) \<and>
    (r3 = r2 \<and> (\<exists>tr. posts = [tr]) \<and> \<not> FIFO_IsEmpty (sr_queue r2) \<or> sr_handed_over r3 posts)"
proof (cases "sr_has_more r2")
  case None
  then show ?thesis
    using assms schedule_hands_over [of r2] by (auto simp: sr_runLoop_def split: prod.splits)
next
  case (Some tr)
  then have "\<not> FIFO_IsEmpty (sr_queue r2)" using sr_has_more_None_iff [of r2] by simp
  with Some assms show ?thesis by (simp add: sr_runLoop_def)
qed

text \<open>An example: a runner with two tasks, the first of which panics, on a pool with a scheduler.\<close>

definition ex_obs_runner :: "(nat, unit) SequencedTaskRunner" where
  "ex_obs_runner = sr_push id 2 8 DefaultTaskTraits (sr_push id 1 7 DefaultTaskTraits (NewSequencedTaskRunner []))\<lparr>sr_runningCount := 1\<rparr>"

definition ex_obs_env ::
  "nat \<Rightarrow> nat go_context \<Rightarrow> (nat, unit) SequencedTaskRunner \<Rightarrow> string panic_value outcome \<times> (nat, unit) SequencedTaskRunner" where
  "ex_obs_env t ctx r = (if t = 7 then (Panicked (UserPanic ''boom''), r) else (Returned, r))"

definition ex_obs_sched :: "(nat, nat, unit) TaskScheduler" where
  "ex_obs_sched = the (NewPriorityTaskScheduler 1)"



text \<open>
  What the handlers see of a task that panics on a sequenced runner: the depth of the queue, then the
  panic, once, with the runner's name and a context in which \<^verbatim>\<open>GetCurrentTaskRunner\<close> is the runner, then its
  metric; and then the worker records the duration of a successful task, because the panic does
  not reach it.
\<close>

theorem panicking_task_reports:
  assumes "sr_runningCount r = 1" "sr_pop r = (Some item, r1)"
    and "env (Task item) (WithRunner ctx self) r1 = (Panicked p, r2)"
  shows "fst (snd (worker_runs_sequenced poolName i priority self (GetSchedulerIs (Some sch)) env ctx r)) =
     [CRecordQueueDepth (sr_observabilityName r) (FIFO_Len (sr_queue r1)), CHandlePanic (WithRunner ctx self) (sr_name r2) (- 1) p,
      CRecordTaskPanic (sr_name r2) p, CRecordTaskDuration poolName priority] \<and>
     GetCurrentTaskRunner (WithRunner ctx self) = Some self"
proof -
  have "sr_run_task (GetSchedulerIs (Some sch)) (WithRunner ctx self) (env (Task item)) r1 =
      (Returned, r2, [CHandlePanic (WithRunner ctx self) (sr_name r2) (- 1) p, CRecordTaskPanic (sr_name r2) p])"
    using assms(3) by (simp add: sr_run_task_def runner_recover_def)
  from runLoop_item [where env = env, OF assms(1,2) this] pop_keeps [OF assms(2)] show ?thesis
    by (auto simp: worker_runs_sequenced_def worker_report_def sr_emitQueueDepth_def sr_observabilityName_def)
qed

lemma pop_none_empty:
  assumes "fifo_invar (sr_queue r)" "sr_pop r = (None, r')"
  shows "r' = r \<and> sr_has_more r = None"
proof -
  have "fifo_contents (sr_queue r) = []"
  proof (rule ccontr)
    assume "fifo_contents (sr_queue r) \<noteq> []"
    then obtain y ys where "fifo_contents (sr_queue r) = y # ys" by (cases "fifo_contents (sr_queue r)") auto
    from fifo.pop_Cons [OF assms(1) this] assms(2) show False by (auto simp: sr_pop_def)
  qed
  with fifo.pop_empty [OF assms(1)] has_more_iff [OF assms(1)] assms(2) show ?thesis by (auto simp: sr_pop_def)
qed

lemma loop_owns_token:
  assumes "seq_inv s" "k < length (ss_loops s)" "ss_loops s ! k = LCheck"
  shows "sr_runningCount (ss_runner s) = 1"
proof -
  have "1 \<le> weight l_tok (ss_loops s)" using weight_ge [OF assms(2), of l_tok] assms(3) by simp
  then have "1 \<le> unat (sr_runningCount (ss_runner s))" using assms(1) by (simp add: seq_inv_def token_ok_def tokens_def)
  then show ?thesis using assms(1) by (auto simp: seq_inv_def token_ok_def)
qed

definition ex_obs_sys :: "(nat, unit) seq_sys" where
  "ex_obs_sys = the (run (seq_step id)
     [SPost 7 DefaultTaskTraits, SPoster 0 1, SPoster 0 1, SPoster 0 1, SPost 8 DefaultTaskTraits, SPoster 1 2, SRunLoop 0] (seq_init []))"

lemma ex_obs_sys_reachable: "seq_reachable id ex_obs_sys"
  unfolding ex_obs_sys_def by (rule run_the_reach) (blast, code_simp)



end
