(* ===== verification/Metrics_Exporter.thy ===== *)
theory Metrics_Exporter
  imports Task_Observability
begin

text \<open>
  The Prometheus exporter of \<^verbatim>\<open>observability/prometheus/metrics_exporter.go\<close>. The package
  \<^verbatim>\<open>client_golang\<close> is third-party code: it is the argument \<open>api\<close> of the definitions, with a state
  \<open>'w\<close> that holds its registries (of type \<open>'g\<close>) and collectors (of type \<open>'c\<close>); \<^verbatim>\<open>float64\<close>
  is the type \<open>'f\<close>.
\<close>

section \<open>The collectors\<close>

datatype vec_kind = HistogramVec | CounterVec | GaugeVec

record 'f vec_opts =
  vo_kind :: vec_kind
  vo_Namespace :: string
  vo_Name :: string
  vo_Help :: string
  vo_Buckets :: "'f list"
  vo_Labels :: "string list"

text \<open>What \<^verbatim>\<open>Register\<close> answers: no error, \<^verbatim>\<open>AlreadyRegisteredError\<close> with its \<^verbatim>\<open>ExistingCollector\<close>, another error.\<close>

datatype ('c, 'e) register_result = RegisterOk | AlreadyRegistered 'c | RegisterError 'e

record ('w, 'g, 'c, 'e, 'f) prom_api =
  prom_New :: "'f vec_opts \<Rightarrow> 'w \<Rightarrow> 'c \<times> 'w"
  prom_Register :: "'g \<Rightarrow> 'c \<Rightarrow> 'w \<Rightarrow> ('c, 'e) register_result \<times> 'w"
  prom_DefaultRegisterer :: 'g
  prom_DefBuckets :: "'f list"
  prom_kind :: "'c \<Rightarrow> vec_kind"
  prom_Observe :: "'c \<Rightarrow> string list \<Rightarrow> 'f \<Rightarrow> 'w \<Rightarrow> 'w"
  prom_Inc :: "'c \<Rightarrow> string list \<Rightarrow> 'w \<Rightarrow> 'w"
  prom_Set :: "'c \<Rightarrow> string list \<Rightarrow> 'f \<Rightarrow> 'w \<Rightarrow> 'w"
  float_Seconds :: "int \<Rightarrow> 'f"
  float_of_int :: "int \<Rightarrow> 'f"

record 'f ExporterOptions =
  DurationBuckets :: "'f list"

record 'c MetricsExporter =
  taskDurationSeconds :: 'c
  taskPanicTotal :: 'c
  taskRejectedTotal :: 'c
  queueDepth :: 'c

datatype 'e exporter_error = TypeMismatch vec_kind | RegistrationFailed 'e

definition registerCollector ::
  "('w, 'g, 'c, 'e, 'f) prom_api \<Rightarrow> 'g \<Rightarrow> vec_kind \<Rightarrow> 'c \<Rightarrow> 'w \<Rightarrow> ('e exporter_error + 'c) \<times> 'w" where
  "registerCollector api reg kind collector w =
     (case prom_Register api reg collector w of
        (RegisterOk, w') \<Rightarrow> (Inr collector, w')
      | (AlreadyRegistered existing, w') \<Rightarrow>
          (if prom_kind api existing = kind then (Inr existing, w') else (Inl (TypeMismatch kind), w'))
      | (RegisterError e, w') \<Rightarrow> (Inl (RegistrationFailed e), w'))"

text \<open>The four descriptions, for a namespace and the buckets of the histogram.\<close>

definition duration_opts :: "string \<Rightarrow> 'f list \<Rightarrow> 'f vec_opts" where
  "duration_opts ns buckets = \<lparr>vo_kind = HistogramVec, vo_Namespace = ns, vo_Name = ''task_duration_seconds'',
     vo_Help = ''Task execution duration in seconds.'', vo_Buckets = buckets, vo_Labels = [''runner'', ''priority'']\<rparr>"

definition panic_opts :: "string \<Rightarrow> 'f vec_opts" where
  "panic_opts ns = \<lparr>vo_kind = CounterVec, vo_Namespace = ns, vo_Name = ''task_panic_total'',
     vo_Help = ''Total number of task panics.'', vo_Buckets = [], vo_Labels = [''runner'']\<rparr>"

definition rejected_opts :: "string \<Rightarrow> 'f vec_opts" where
  "rejected_opts ns = \<lparr>vo_kind = CounterVec, vo_Namespace = ns, vo_Name = ''task_rejected_total'',
     vo_Help = ''Total number of rejected tasks.'', vo_Buckets = [], vo_Labels = [''runner'', ''reason'']\<rparr>"

definition depth_opts :: "string \<Rightarrow> 'f vec_opts" where
  "depth_opts ns = \<lparr>vo_kind = GaugeVec, vo_Namespace = ns, vo_Name = ''queue_depth'',
     vo_Help = ''Current queue depth.'', vo_Buckets = [], vo_Labels = [''runner'']\<rparr>"

text \<open>The second half of \<^verbatim>\<open>NewMetricsExporter\<close>: the four registrations, in order, up to the first error.\<close>

definition register_all ::
  "('w, 'g, 'c, 'e, 'f) prom_api \<Rightarrow> 'g \<Rightarrow> 'c \<Rightarrow> 'c \<Rightarrow> 'c \<Rightarrow> 'c \<Rightarrow> 'w \<Rightarrow> ('e exporter_error + 'c MetricsExporter) \<times> 'w" where
  "register_all api reg durationVec panicVec rejectedVec queueDepthVec w =
     (case registerCollector api reg HistogramVec durationVec w of
        (Inl e, w) \<Rightarrow> (Inl e, w)
      | (Inr d, w) \<Rightarrow>
     (case registerCollector api reg CounterVec panicVec w of
        (Inl e, w) \<Rightarrow> (Inl e, w)
      | (Inr p, w) \<Rightarrow>
     (case registerCollector api reg CounterVec rejectedVec w of
        (Inl e, w) \<Rightarrow> (Inl e, w)
      | (Inr j, w) \<Rightarrow>
     (case registerCollector api reg GaugeVec queueDepthVec w of
        (Inl e, w) \<Rightarrow> (Inl e, w)
      | (Inr q, w) \<Rightarrow>
          (Inr \<lparr>taskDurationSeconds = d, taskPanicTotal = p, taskRejectedTotal = j, queueDepth = q\<rparr>, w)))))"

definition NewMetricsExporter ::
  "('w, 'g, 'c, 'e, 'f) prom_api \<Rightarrow> string \<Rightarrow> 'g option \<Rightarrow> 'f ExporterOptions \<Rightarrow> 'w \<Rightarrow>
     ('e exporter_error + 'c MetricsExporter) \<times> 'w" where
  "NewMetricsExporter api namespace reg opts w =
     (let ns = (if namespace = [] then ''taskrunner'' else namespace);
          r = (case reg of None \<Rightarrow> prom_DefaultRegisterer api | Some r \<Rightarrow> r);
          buckets = (if DurationBuckets opts = [] then prom_DefBuckets api else DurationBuckets opts);
          (durationVec, w1) = prom_New api (duration_opts ns buckets) w;
          (panicVec, w2) = prom_New api (panic_opts ns) w1;
          (rejectedVec, w3) = prom_New api (rejected_opts ns) w2;
          (queueDepthVec, w4) = prom_New api (depth_opts ns) w3
      in register_all api r durationVec panicVec rejectedVec queueDepthVec w4)"

section \<open>Recording\<close>

definition normalizeLabel :: "string \<Rightarrow> string \<Rightarrow> string" where
  "normalizeLabel v fallback = (if v = [] then fallback else v)"

definition priorityLabel :: "TaskPriority \<Rightarrow> string" where
  "priorityLabel priority =
     (if priority = TaskPriorityUserBlocking then ''user_blocking''
      else if priority = TaskPriorityUserVisible then ''user_visible''
      else if priority = TaskPriorityBestEffort then ''best_effort''
      else ''unknown'')"

text \<open>A nil exporter is \<open>None\<close>; durations are in nanoseconds.\<close>

definition exp_RecordTaskDuration ::
  "('w, 'g, 'c, 'e, 'f) prom_api \<Rightarrow> 'c MetricsExporter option \<Rightarrow> string \<Rightarrow> TaskPriority \<Rightarrow> int \<Rightarrow> 'w \<Rightarrow> 'w" where
  "exp_RecordTaskDuration api m runnerName priority duration w =
     (case m of None \<Rightarrow> w
      | Some x \<Rightarrow> prom_Observe api (taskDurationSeconds x) [normalizeLabel runnerName ''unknown'', priorityLabel priority]
                    (float_Seconds api duration) w)"

definition exp_RecordTaskPanic :: "('w, 'g, 'c, 'e, 'f) prom_api \<Rightarrow> 'c MetricsExporter option \<Rightarrow> string \<Rightarrow> 'w \<Rightarrow> 'w" where
  "exp_RecordTaskPanic api m runnerName w =
     (case m of None \<Rightarrow> w | Some x \<Rightarrow> prom_Inc api (taskPanicTotal x) [normalizeLabel runnerName ''unknown''] w)"

definition exp_RecordQueueDepth :: "('w, 'g, 'c, 'e, 'f) prom_api \<Rightarrow> 'c MetricsExporter option \<Rightarrow> string \<Rightarrow> int \<Rightarrow> 'w \<Rightarrow> 'w" where
  "exp_RecordQueueDepth api m runnerName depth w =
     (case m of None \<Rightarrow> w
      | Some x \<Rightarrow> prom_Set api (queueDepth x) [normalizeLabel runnerName ''unknown''] (float_of_int api depth) w)"

definition exp_RecordTaskRejected :: "('w, 'g, 'c, 'e, 'f) prom_api \<Rightarrow> 'c MetricsExporter option \<Rightarrow> string \<Rightarrow> string \<Rightarrow> 'w \<Rightarrow> 'w" where
  "exp_RecordTaskRejected api m runnerName reason w =
     (case m of None \<Rightarrow> w
      | Some x \<Rightarrow> prom_Inc api (taskRejectedTotal x) [normalizeLabel runnerName ''unknown'', normalizeLabel reason ''unknown''] w)"

section \<open>What the exporter relies on\<close>

text \<open>
  What \<^verbatim>\<open>client_golang\<close> documents of \<^verbatim>\<open>Register\<close>, in terms of the collector that a registry holds
  under a full name and of what a collector describes (\<open>desc\<close>: its full name, help and labels): a
  new collector describes its options and is not registered; a successful registration stores the
  collector under its name; \<^verbatim>\<open>AlreadyRegisteredError\<close> is the answer exactly when the name is taken
  by a collector with the same description, and changes nothing.
\<close>

definition opts_desc :: "'f vec_opts \<Rightarrow> string \<times> string \<times> string list" where
  "opts_desc v = (vo_Namespace v @ ''_'' @ vo_Name v, vo_Help v, vo_Labels v)"

definition prom_documented ::
  "('w, 'g, 'c, 'e, 'f) prom_api \<Rightarrow> ('g \<Rightarrow> 'w \<Rightarrow> string \<Rightarrow> 'c option) \<Rightarrow> ('c \<Rightarrow> string \<times> string \<times> string list) \<Rightarrow> bool" where
  "prom_documented api registered desc \<longleftrightarrow>
     (\<forall>v w. desc (fst (prom_New api v w)) = opts_desc v \<and> prom_kind api (fst (prom_New api v w)) = vo_kind v \<and>
        (\<forall>g. registered g (snd (prom_New api v w)) = registered g w)) \<and>
     (\<forall>g c w w'. prom_Register api g c w = (RegisterOk, w') \<longrightarrow>
        registered g w (fst (desc c)) = None \<and> registered g w' = (registered g w)(fst (desc c) \<mapsto> c)) \<and>
     (\<forall>g c w c' w'. prom_Register api g c w = (AlreadyRegistered c', w') \<longrightarrow>
        w' = w \<and> registered g w (fst (desc c)) = Some c' \<and> desc c' = desc c) \<and>
     (\<forall>g c w c'. registered g w (fst (desc c)) = Some c' \<and> desc c' = desc c \<longrightarrow>
        prom_Register api g c w = (AlreadyRegistered c', w))"

text \<open>A registry holds a collector of the right type for some options.\<close>

definition holds_vec ::
  "('w, 'g, 'c, 'e, 'f) prom_api \<Rightarrow> ('g \<Rightarrow> 'w \<Rightarrow> string \<Rightarrow> 'c option) \<Rightarrow> ('c \<Rightarrow> string \<times> string \<times> string list) \<Rightarrow>
     'g \<Rightarrow> 'f vec_opts \<Rightarrow> 'c \<Rightarrow> 'w \<Rightarrow> bool" where
  "holds_vec api registered desc g v c w \<longleftrightarrow>
     registered g w (fst (opts_desc v)) = Some c \<and> desc c = opts_desc v \<and> prom_kind api c = vo_kind v"

lemma register_holds:
  assumes "prom_documented api registered desc" "desc c = opts_desc v" "prom_kind api c = vo_kind v"
    and "registerCollector api g (vo_kind v) c w = (Inr c', w')"
  shows "holds_vec api registered desc g v c' w' \<and>
    (\<forall>n. n \<noteq> fst (opts_desc v) \<longrightarrow> registered g w' n = registered g w n)"
proof (cases "fst (prom_Register api g c w)")
  case RegisterOk
  then have r: "prom_Register api g c w = (RegisterOk, snd (prom_Register api g c w))" by (metis prod.collapse)
  with assms(4) have "c' = c" "snd (prom_Register api g c w) = w'" by (simp_all add: registerCollector_def split: prod.splits)
  with r have "prom_Register api g c w = (RegisterOk, w')" by simp
  with assms(1) have "registered g w' = (registered g w)(fst (desc c) \<mapsto> c)" unfolding prom_documented_def by blast
  with assms(2,3) \<open>c' = c\<close> show ?thesis by (simp add: holds_vec_def)
next
  case (AlreadyRegistered c1)
  then have r: "prom_Register api g c w = (AlreadyRegistered c1, snd (prom_Register api g c w))" by (metis prod.collapse)
  with assms(4) have "c' = c1" "prom_kind api c1 = vo_kind v" "snd (prom_Register api g c w) = w'"
    by (simp_all add: registerCollector_def split: prod.splits if_splits)
  with r have "prom_Register api g c w = (AlreadyRegistered c', w')" by simp
  with assms(1) have "w' = w \<and> registered g w (fst (desc c)) = Some c' \<and> desc c' = desc c" unfolding prom_documented_def by blast
  with assms(2) \<open>c' = c1\<close> \<open>prom_kind api c1 = vo_kind v\<close> show ?thesis by (simp add: holds_vec_def)
next
  case (RegisterError e)
  with assms(4) show ?thesis by (simp add: registerCollector_def split: prod.splits)
qed

lemma holds_vec_keep:
  assumes "holds_vec api registered desc g v c w" "fst (opts_desc v) \<noteq> n"
    and "\<forall>m. m \<noteq> n \<longrightarrow> registered g w' m = registered g w m"
  shows "holds_vec api registered desc g v c w'"
  using assms by (simp add: holds_vec_def)

lemma register_again:
  assumes "prom_documented api registered desc" "desc c = opts_desc v" "holds_vec api registered desc g v c' w"
  shows "registerCollector api g (vo_kind v) c w = (Inr c', w)"
proof -
  have law: "\<forall>g c w c'. registered g w (fst (desc c)) = Some c' \<and> desc c' = desc c \<longrightarrow>
      prom_Register api g c w = (AlreadyRegistered c', w)"
    using assms(1) unfolding prom_documented_def by (elim conjE)
  have "registered g w (fst (desc c)) = Some c' \<and> desc c' = desc c" using assms(2,3) by (simp add: holds_vec_def)
  with law have "prom_Register api g c w = (AlreadyRegistered c', w)" by blast
  then show ?thesis using assms(3) by (simp add: registerCollector_def holds_vec_def)
qed

text \<open>The four names are different in every namespace.\<close>

lemma names_differ [simp]:
  "fst (opts_desc (duration_opts ns b)) \<noteq> fst (opts_desc (panic_opts ns))" "fst (opts_desc (duration_opts ns b)) \<noteq> fst (opts_desc (rejected_opts ns))"
  "fst (opts_desc (duration_opts ns b)) \<noteq> fst (opts_desc (depth_opts ns))" "fst (opts_desc (panic_opts ns)) \<noteq> fst (opts_desc (rejected_opts ns))"
  "fst (opts_desc (panic_opts ns)) \<noteq> fst (opts_desc (depth_opts ns))" "fst (opts_desc (rejected_opts ns)) \<noteq> fst (opts_desc (depth_opts ns))"
  by (simp_all add: opts_desc_def duration_opts_def panic_opts_def rejected_opts_def depth_opts_def)

lemma opts_kind [simp]:
  "vo_kind (duration_opts ns b) = HistogramVec" "vo_kind (panic_opts ns) = CounterVec" "vo_kind (rejected_opts ns) = CounterVec"
  "vo_kind (depth_opts ns) = GaugeVec"
  by (simp_all add: duration_opts_def panic_opts_def rejected_opts_def depth_opts_def)

lemma buckets_not_described: "opts_desc (duration_opts ns b) = opts_desc (duration_opts ns b')"
  by (simp add: opts_desc_def duration_opts_def)

definition exporter_registered ::
  "('w, 'g, 'c, 'e, 'f) prom_api \<Rightarrow> ('g \<Rightarrow> 'w \<Rightarrow> string \<Rightarrow> 'c option) \<Rightarrow> ('c \<Rightarrow> string \<times> string \<times> string list) \<Rightarrow>
     'g \<Rightarrow> string \<Rightarrow> 'f list \<Rightarrow> 'c MetricsExporter \<Rightarrow> 'w \<Rightarrow> bool" where
  "exporter_registered api registered desc g ns b m w \<longleftrightarrow>
     holds_vec api registered desc g (duration_opts ns b) (taskDurationSeconds m) w \<and>
     holds_vec api registered desc g (panic_opts ns) (taskPanicTotal m) w \<and>
     holds_vec api registered desc g (rejected_opts ns) (taskRejectedTotal m) w \<and>
     holds_vec api registered desc g (depth_opts ns) (queueDepth m) w"

lemma register_all_registers:
  fixes api :: "('w, 'g, 'c, 'e, 'f) prom_api"
  assumes doc: "prom_documented api registered desc"
    and d: "desc d = opts_desc (duration_opts ns b :: 'f vec_opts)" "prom_kind api d = HistogramVec"
    and p: "desc p = opts_desc (panic_opts ns :: 'f vec_opts)" "prom_kind api p = CounterVec"
    and j: "desc j = opts_desc (rejected_opts ns :: 'f vec_opts)" "prom_kind api j = CounterVec"
    and q: "desc q = opts_desc (depth_opts ns :: 'f vec_opts)" "prom_kind api q = GaugeVec"
    and all: "register_all api g d p j q w = (Inr m, w')"
  shows "exporter_registered api registered desc g ns b m w'"
proof -
  obtain x1 w1 where x1: "registerCollector api g HistogramVec d w = (x1, w1)" by fastforce
  obtain x2 w2 where x2: "registerCollector api g CounterVec p w1 = (x2, w2)" by fastforce
  obtain x3 w3 where x3: "registerCollector api g CounterVec j w2 = (x3, w3)" by fastforce
  obtain x4 w4 where x4: "registerCollector api g GaugeVec q w3 = (x4, w4)" by fastforce
  note x = x1 x2 x3 x4
  have "\<exists>d1 p1 j1 q1. x1 = Inr d1 \<and> x2 = Inr p1 \<and> x3 = Inr j1 \<and> x4 = Inr q1 \<and> w4 = w' \<and>
      m = \<lparr>taskDurationSeconds = d1, taskPanicTotal = p1, taskRejectedTotal = j1, queueDepth = q1\<rparr>"
    using all x by (cases x1; cases x2; cases x3; cases x4) (simp_all add: register_all_def)
  then obtain d1 p1 j1 q1 where
    st: "registerCollector api g HistogramVec d w = (Inr d1, w1)" "registerCollector api g CounterVec p w1 = (Inr p1, w2)"
      "registerCollector api g CounterVec j w2 = (Inr j1, w3)" "registerCollector api g GaugeVec q w3 = (Inr q1, w')"
    and m: "m = \<lparr>taskDurationSeconds = d1, taskPanicTotal = p1, taskRejectedTotal = j1, queueDepth = q1\<rparr>"
    using x by auto
  note r1 = register_holds [OF doc d(1), unfolded opts_kind, OF d(2) st(1)]
    and r2 = register_holds [OF doc p(1), unfolded opts_kind, OF p(2) st(2)]
    and r3 = register_holds [OF doc j(1), unfolded opts_kind, OF j(2) st(3)]
    and r4 = register_holds [OF doc q(1), unfolded opts_kind, OF q(2) st(4)]
  have "holds_vec api registered desc g (duration_opts ns b) d1 w2"
    by (rule holds_vec_keep [OF r1 [THEN conjunct1] _ r2 [THEN conjunct2]]) simp
  from holds_vec_keep [OF this _ r3 [THEN conjunct2]] have "holds_vec api registered desc g (duration_opts ns b) d1 w3" by simp
  from holds_vec_keep [OF this _ r4 [THEN conjunct2]] have "holds_vec api registered desc g (duration_opts ns b) d1 w'" by simp
  moreover have "holds_vec api registered desc g (panic_opts ns) p1 w3"
    by (rule holds_vec_keep [OF r2 [THEN conjunct1] _ r3 [THEN conjunct2]]) simp
  from holds_vec_keep [OF this _ r4 [THEN conjunct2]] have "holds_vec api registered desc g (panic_opts ns) p1 w'" by simp
  moreover have "holds_vec api registered desc g (rejected_opts ns) j1 w'"
    by (rule holds_vec_keep [OF r3 [THEN conjunct1] _ r4 [THEN conjunct2]]) simp
  ultimately show ?thesis using r4 by (simp add: exporter_registered_def m)
qed

lemma register_all_again:
  fixes api :: "('w, 'g, 'c, 'e, 'f) prom_api"
  assumes doc: "prom_documented api registered desc"
    and desc: "desc d = opts_desc (duration_opts ns b :: 'f vec_opts)" "desc p = opts_desc (panic_opts ns :: 'f vec_opts)"
      "desc j = opts_desc (rejected_opts ns :: 'f vec_opts)" "desc q = opts_desc (depth_opts ns :: 'f vec_opts)"
    and reg: "exporter_registered api registered desc g ns b m w"
  shows "register_all api g d p j q w = (Inr m, w)"
proof -
  have "registerCollector api g HistogramVec d w = (Inr (taskDurationSeconds m), w)"
    "registerCollector api g CounterVec p w = (Inr (taskPanicTotal m), w)"
    "registerCollector api g CounterVec j w = (Inr (taskRejectedTotal m), w)"
    "registerCollector api g GaugeVec q w = (Inr (queueDepth m), w)"
    using reg register_again [OF doc desc(1)] register_again [OF doc desc(2)] register_again [OF doc desc(3)]
      register_again [OF doc desc(4)] unfolding exporter_registered_def opts_kind by blast+
  then show ?thesis by (simp add: register_all_def)
qed

text \<open>
  An example of the package: a registry holds a list of named collectors, a collector is its
  options with a serial number.
\<close>

type_synonym ex_prom_world = "nat \<times> (string \<times> (nat \<times> int vec_opts)) list"

definition ex_prom :: "(ex_prom_world, unit, nat \<times> int vec_opts, string, int) prom_api" where
  "ex_prom = \<lparr>prom_New = (\<lambda>v (n, rs). ((n, v), (Suc n, rs))),
     prom_Register = (\<lambda>_ c (n, rs). case map_of rs (fst (opts_desc (snd c))) of
        None \<Rightarrow> (RegisterOk, (n, (fst (opts_desc (snd c)), c) # rs))
      | Some c' \<Rightarrow> if opts_desc (snd c') = opts_desc (snd c) then (AlreadyRegistered c', (n, rs))
                   else (RegisterError ''inconsistent description'', (n, rs))),
     prom_DefaultRegisterer = (), prom_DefBuckets = [1, 10], prom_kind = (\<lambda>c. vo_kind (snd c)),
     prom_Observe = (\<lambda>_ _ _ w. w), prom_Inc = (\<lambda>_ _ w. w), prom_Set = (\<lambda>_ _ _ w. w),
     float_Seconds = (\<lambda>d. d), float_of_int = (\<lambda>n. n)\<rparr>"

definition ex_registered :: "unit \<Rightarrow> ex_prom_world \<Rightarrow> string \<Rightarrow> (nat \<times> int vec_opts) option" where
  "ex_registered g w = map_of (snd w)"

lemma ex_prom_documented: "prom_documented ex_prom ex_registered (\<lambda>c. opts_desc (snd c))"
  unfolding prom_documented_def
  by (auto simp: ex_prom_def ex_registered_def split_beta split: option.splits if_splits)

text \<open>
  C31: Two exporters of one registry share their collectors. With a package that behaves as documented: when
  \<^verbatim>\<open>NewMetricsExporter\<close> has succeeded, then as long as the registry keeps what it holds, another call
  with the same namespace and registry succeeds and gives the same four collectors, so what both
  record adds up; the buckets of its options are then without effect.
\<close>

theorem exporters_share_collectors:
  assumes "prom_documented api registered desc" "NewMetricsExporter api namespace reg opts w = (Inr m, w')"
    and "\<And>g. registered g w'' = registered g w'"
  shows "\<exists>w3. NewMetricsExporter api namespace reg opts' w'' = (Inr m, w3)"
proof -
  let ?bk = "\<lambda>o'. if DurationBuckets o' = [] then prom_DefBuckets api else DurationBuckets o'"
  define ns where "ns = (if namespace = [] then ''taskrunner'' else namespace)"
  define g where "g = (case reg of None \<Rightarrow> prom_DefaultRegisterer api | Some r \<Rightarrow> r)"
  have new: "desc c = opts_desc v \<and> prom_kind api c = vo_kind v" and kept: "registered r u' = registered r u"
    if "prom_New api v u = (c, u')" for v u c u' r
    using assms(1) that unfolding prom_documented_def by (metis fst_conv, metis snd_conv)
  have all_new: "\<exists>d p j q u1 u2 u3 u4. prom_New api (duration_opts ns b) u = (d, u1) \<and> prom_New api (panic_opts ns) u1 = (p, u2) \<and>
      prom_New api (rejected_opts ns) u2 = (j, u3) \<and> prom_New api (depth_opts ns) u3 = (q, u4)" for b u
    by (meson surj_pair)
  obtain d p j q u1 u2 u3 u4 where first: "prom_New api (duration_opts ns (?bk opts)) w = (d, u1)"
    "prom_New api (panic_opts ns) u1 = (p, u2)" "prom_New api (rejected_opts ns) u2 = (j, u3)" "prom_New api (depth_opts ns) u3 = (q, u4)"
    using all_new by blast
  obtain d' p' j' q' v1 v2 v3 v4 where again: "prom_New api (duration_opts ns (?bk opts')) w'' = (d', v1)"
    "prom_New api (panic_opts ns) v1 = (p', v2)" "prom_New api (rejected_opts ns) v2 = (j', v3)" "prom_New api (depth_opts ns) v3 = (q', v4)"
    using all_new by blast
  note n1 = new [OF first(1)] new [OF first(2)] new [OF first(3)] new [OF first(4)]
    and n2 = new [OF again(1)] new [OF again(2)] new [OF again(3)] new [OF again(4)]
  have "register_all api g d p j q u4 = (Inr m, w')"
    using assms(2) first by (simp add: NewMetricsExporter_def ns_def g_def Let_def)
  then have "exporter_registered api registered desc g ns (?bk opts) m w'"
    using n1 by (intro register_all_registers [OF assms(1)]) simp_all
  moreover have "registered g v4 = registered g w'"
    using kept [OF again(1)] kept [OF again(2)] kept [OF again(3)] kept [OF again(4)] assms(3) by simp
  ultimately have "exporter_registered api registered desc g ns (?bk opts) m v4"
    by (simp add: exporter_registered_def holds_vec_def)
  moreover have "desc d' = opts_desc (duration_opts ns (?bk opts))"
    using n2(1) buckets_not_described [of ns "?bk opts'" "?bk opts"] by simp
  ultimately have "register_all api g d' p' j' q' v4 = (Inr m, v4)"
    using n2 by (intro register_all_again [OF assms(1)]) simp_all
  then show ?thesis using again by (simp add: NewMetricsExporter_def ns_def g_def Let_def)
qed

theorem exporters_share_collectors_witness:
  "\<exists>m w' w3. NewMetricsExporter ex_prom [] None \<lparr>DurationBuckets = []\<rparr> (0, []) = (Inr m, w') \<and>
     NewMetricsExporter ex_prom [] None \<lparr>DurationBuckets = [5]\<rparr> w' = (Inr m, w3)"
proof -
  have "case fst (NewMetricsExporter ex_prom [] None \<lparr>DurationBuckets = []\<rparr> (0, [])) of Inl e \<Rightarrow> False | Inr m \<Rightarrow> True" by code_simp
  then obtain m w' where first: "NewMetricsExporter ex_prom [] None \<lparr>DurationBuckets = []\<rparr> (0, []) = (Inr m, w')"
    by (cases "NewMetricsExporter ex_prom [] None \<lparr>DurationBuckets = []\<rparr> (0, [])") (auto split: sum.splits)
  with exporters_share_collectors [OF ex_prom_documented first, of w' "\<lparr>DurationBuckets = [5]\<rparr>"] show ?thesis by blast
qed

text \<open>
  The two metrics of one unnamed sequenced runner carry different labels: its queue depth is
  recorded under the name of its type, its panics under \<^verbatim>\<open>unknown\<close>, because the panic path asks for the
  bare name.
\<close>

lemma unnamed_runner_labels:
  assumes "sr_name r = []"
  shows "sr_emitQueueDepth (GetSchedulerIs (Some sch)) r n = [CRecordQueueDepth ''sequenced'' n]"
    and "snd (runner_recover line (GetSchedulerIs (Some sch)) ctx (sr_name r) p) = [CHandlePanic ctx [] (- 1) p, CRecordTaskPanic [] p]"
    and "exp_RecordTaskPanic api (Some m) [] w = prom_Inc api (taskPanicTotal m) [''unknown''] w"
  using assms by (simp_all add: sr_emitQueueDepth_def sr_observabilityName_def runner_recover_def exp_RecordTaskPanic_def normalizeLabel_def)

end
