(* ===== verification/Event_Bus.thy ===== *)
theory Event_Bus
  imports Prelude
begin

text \<open>
  The event bus of \<^verbatim>\<open>eventbus/eventbus.go\<close>. Its maps are touched only by closures that run one after
  the other on a sequenced runner, in the order in which they were posted; the system below keeps the
  posted closures in a list and interleaves the callers with the runner. A Go type is a value of
  \<open>'ty\<close>, a handler a value of \<open>'h\<close>, an event a value of \<open>'e\<close>.
\<close>

section \<open>Decimal numerals\<close>

text \<open>\<^verbatim>\<open>fmt.Sprintf("sub-%d", n)\<close> of a counter that starts at 1 and counts up (below \<open>2\<^sup>6\<^sup>3\<close>).\<close>

definition digit :: "nat \<Rightarrow> char" where
  "digit d = char_of (48 + d)"

fun decimal :: "nat \<Rightarrow> string" where
  "decimal n = (if n < 10 then [digit n] else decimal (n div 10) @ [digit (n mod 10)])"

declare decimal.simps [simp del]

definition read_decimal :: "string \<Rightarrow> nat" where
  "read_decimal = foldl (\<lambda>n c. 10 * n + (of_char c - 48)) 0"

lemma of_char_digit: "d < 10 \<Longrightarrow> of_char (digit d) = 48 + d"
  by (simp add: digit_def)

lemma read_decimal_decimal: "read_decimal (decimal n) = n"
proof (induction n rule: decimal.induct)
  case (1 n)
  then show ?case
    by (subst decimal.simps) (auto simp: read_decimal_def of_char_digit)
qed

definition sub_id :: "nat \<Rightarrow> string" where
  "sub_id n = ''sub-'' @ decimal n"

lemma sub_id_inject [simp]: "sub_id m = sub_id n \<longleftrightarrow> m = n"
  unfolding sub_id_def by (metis read_decimal_decimal same_append_eq)

section \<open>The bus and its closures\<close>

record 'h subscriber =
  sub_ident :: string
  sub_handler :: 'h

record 'ty subLocator =
  loc_eventType :: 'ty
  loc_index :: nat

record ('ty, 'h) EventBus =
  bus_subs :: "'ty \<rightharpoonup> 'h subscriber list"
  bus_byID :: "string \<rightharpoonup> 'ty subLocator"
  bus_nextID :: nat
  bus_closed :: bool

definition NewEventBus :: "('ty, 'h) EventBus" where
  "NewEventBus = \<lparr>bus_subs = Map.empty, bus_byID = Map.empty, bus_nextID = 0, bus_closed = False\<rparr>"

text \<open>Reading a missing key of a Go map gives the zero value, here the empty slice.\<close>

definition subs_of :: "('ty, 'h) EventBus \<Rightarrow> 'ty \<Rightarrow> 'h subscriber list" where
  "subs_of b ty = (case bus_subs b ty of None \<Rightarrow> [] | Some xs \<Rightarrow> xs)"

definition subscribe_task :: "string \<Rightarrow> 'ty \<Rightarrow> 'h \<Rightarrow> ('ty, 'h) EventBus \<Rightarrow> ('ty, 'h) EventBus" where
  "subscribe_task i ty h b =
     (let xs = subs_of b ty @ [\<lparr>sub_ident = i, sub_handler = h\<rparr>]
      in b\<lparr>bus_subs := (bus_subs b)(ty \<mapsto> xs),
           bus_byID := (bus_byID b)(i \<mapsto> \<lparr>loc_eventType = ty, loc_index = length xs - 1\<rparr>)\<rparr>)"

text \<open>
  The closure of \<^verbatim>\<open>Unsubscribe\<close>. An index out of range panics: the bus keeps the changes made so
  far, and the panic is reported by the runner, which goes on. The flag says whether it panicked.
\<close>

definition unsubscribe_task :: "string \<Rightarrow> ('ty, 'h) EventBus \<Rightarrow> bool \<times> ('ty, 'h) EventBus" where
  "unsubscribe_task i b =
     (case bus_byID b i of
        None \<Rightarrow> (False, b)
      | Some loc \<Rightarrow>
          (let ty = loc_eventType loc; k = loc_index loc; xs = subs_of b ty in
           if length xs \<le> k then (True, b)
           else
             (let ys = butlast (xs[k := last xs]) in
              if ys = [] then
                (False, b\<lparr>bus_subs := (bus_subs b)(ty := None), bus_byID := (bus_byID b)(i := None)\<rparr>)
              else
                (let b1 = b\<lparr>bus_subs := (bus_subs b)(ty \<mapsto> ys)\<rparr> in
                 if length ys \<le> k then (True, b1)
                 else (False, b1\<lparr>bus_byID := ((bus_byID b)(sub_ident (ys ! k) \<mapsto> \<lparr>loc_eventType = ty, loc_index = k\<rparr>))
                                             (i := None)\<rparr>)))))"

datatype ('ty, 'h, 'e) bus_task =
    SubscribeTask string 'ty 'h | UnsubscribeTask string | PublishTask 'ty 'e | CallHandler 'h 'e

record ('ty, 'h, 'e) bus_sys =
  bs_bus :: "('ty, 'h) EventBus"
  bs_open :: bool
  bs_tasks :: "('ty, 'h, 'e) bus_task list"
  bs_delivered :: "('h \<times> 'e) list"
  bs_panics :: nat

text \<open>\<^verbatim>\<open>runner.PostTask\<close>: a closed runner drops the closure.\<close>

definition bus_post :: "('ty, 'h, 'e) bus_task \<Rightarrow> ('ty, 'h, 'e) bus_sys \<Rightarrow> ('ty, 'h, 'e) bus_sys" where
  "bus_post t s = (if bs_open s then s\<lparr>bs_tasks := bs_tasks s @ [t]\<rparr> else s)"

definition Subscribe :: "'ty \<Rightarrow> 'h \<Rightarrow> ('ty, 'h, 'e) bus_sys \<Rightarrow> string \<times> ('ty, 'h, 'e) bus_sys" where
  "Subscribe ty h s =
     (let n = Suc (bus_nextID (bs_bus s)); i = sub_id n
      in (i, bus_post (SubscribeTask i ty h) (s\<lparr>bs_bus := (bs_bus s)\<lparr>bus_nextID := n\<rparr>\<rparr>)))"

definition Publish :: "('e \<Rightarrow> 'ty) \<Rightarrow> 'e \<Rightarrow> ('ty, 'h, 'e) bus_sys \<Rightarrow> ('ty, 'h, 'e) bus_sys" where
  "Publish typeof e s = (if bus_closed (bs_bus s) then s else bus_post (PublishTask (typeof e) e) s)"

definition Unsubscribe :: "string \<Rightarrow> ('ty, 'h, 'e) bus_sys \<Rightarrow> ('ty, 'h, 'e) bus_sys" where
  "Unsubscribe i s = bus_post (UnsubscribeTask i) s"

text \<open>\<^verbatim>\<open>Close\<close>: the flag, then \<^verbatim>\<open>Shutdown\<close> of the runner, which drops what is posted.\<close>

definition Close_flag :: "('ty, 'h, 'e) bus_sys \<Rightarrow> ('ty, 'h, 'e) bus_sys" where
  "Close_flag s = s\<lparr>bs_bus := (bs_bus s)\<lparr>bus_closed := True\<rparr>\<rparr>"

definition Close_shutdown :: "('ty, 'h, 'e) bus_sys \<Rightarrow> ('ty, 'h, 'e) bus_sys" where
  "Close_shutdown s = s\<lparr>bs_open := False, bs_tasks := []\<rparr>"

definition publish_task :: "'ty \<Rightarrow> 'e \<Rightarrow> ('ty, 'h, 'e) bus_sys \<Rightarrow> ('ty, 'h, 'e) bus_sys" where
  "publish_task ty e s = foldl (\<lambda>s x. bus_post (CallHandler (sub_handler x) e) s) s (subs_of (bs_bus s) ty)"

fun bus_exec :: "('ty, 'h, 'e) bus_task \<Rightarrow> ('ty, 'h, 'e) bus_sys \<Rightarrow> ('ty, 'h, 'e) bus_sys" where
  "bus_exec (SubscribeTask i ty h) s = s\<lparr>bs_bus := subscribe_task i ty h (bs_bus s)\<rparr>"
| "bus_exec (UnsubscribeTask i) s =
     (case unsubscribe_task i (bs_bus s) of
        (panicked, b) \<Rightarrow> s\<lparr>bs_bus := b, bs_panics := bs_panics s + (if panicked then 1 else 0)\<rparr>)"
| "bus_exec (PublishTask ty e) s = publish_task ty e s"
| "bus_exec (CallHandler h e) s = s\<lparr>bs_delivered := bs_delivered s @ [(h, e)]\<rparr>"

datatype ('ty, 'h, 'e) bus_label =
    BSubscribe 'ty 'h | BPublish 'e | BUnsubscribe string | BRun | BCloseFlag | BShutdown

fun bus_step :: "('e \<Rightarrow> 'ty) \<Rightarrow> ('ty, 'h, 'e) bus_label \<Rightarrow> ('ty, 'h, 'e) bus_sys \<Rightarrow> ('ty, 'h, 'e) bus_sys option" where
  "bus_step typeof (BSubscribe ty h) s = Some (snd (Subscribe ty h s))"
| "bus_step typeof (BPublish e) s = Some (Publish typeof e s)"
| "bus_step typeof (BUnsubscribe i) s = Some (Unsubscribe i s)"
| "bus_step typeof BRun s =
     (case bs_tasks s of [] \<Rightarrow> None | t # ts \<Rightarrow> Some (bus_exec t (s\<lparr>bs_tasks := ts\<rparr>)))"
| "bus_step typeof BCloseFlag s = Some (Close_flag s)"
| "bus_step typeof BShutdown s = (if bus_closed (bs_bus s) then Some (Close_shutdown s) else None)"

definition bus_init :: "('ty, 'h, 'e) bus_sys" where
  "bus_init = \<lparr>bs_bus = NewEventBus, bs_open = True, bs_tasks = [], bs_delivered = [], bs_panics = 0\<rparr>"

abbreviation bus_reachable :: "('e \<Rightarrow> 'ty) \<Rightarrow> ('ty, 'h, 'e) bus_sys \<Rightarrow> bool" where
  "bus_reachable typeof \<equiv> reach (\<lambda>s. s = bus_init) (lstep (bus_step typeof))"

section \<open>Consistency of the two maps\<close>

definition bus_ok :: "('ty, 'h) EventBus \<Rightarrow> bool" where
  "bus_ok b \<longleftrightarrow>
     (\<forall>ty k. k < length (subs_of b ty) \<longrightarrow>
        bus_byID b (sub_ident (subs_of b ty ! k)) = Some \<lparr>loc_eventType = ty, loc_index = k\<rparr>) \<and>
     (\<forall>i loc. bus_byID b i = Some loc \<longrightarrow>
        loc_index loc < length (subs_of b (loc_eventType loc)) \<and> sub_ident (subs_of b (loc_eventType loc) ! loc_index loc) = i)"

fun pending_ids :: "('ty, 'h, 'e) bus_task list \<Rightarrow> string list" where
  "pending_ids [] = []"
| "pending_ids (SubscribeTask i ty h # ts) = i # pending_ids ts"
| "pending_ids (_ # ts) = pending_ids ts"

definition bus_inv :: "('ty, 'h, 'e) bus_sys \<Rightarrow> bool" where
  "bus_inv s \<longleftrightarrow> (bs_panics s = 0 \<longrightarrow> bus_ok (bs_bus s) \<and>
     distinct (pending_ids (bs_tasks s)) \<and>
     set (pending_ids (bs_tasks s)) \<inter> dom (bus_byID (bs_bus s)) = {} \<and>
     set (pending_ids (bs_tasks s)) \<union> dom (bus_byID (bs_bus s)) \<subseteq> sub_id ` {..bus_nextID (bs_bus s)})"

lemma pending_ids_append [simp]: "pending_ids (ts @ us) = pending_ids ts @ pending_ids us"
  by (induction ts rule: pending_ids.induct) auto

lemma subs_of_simps [simp]:
  "subs_of (b\<lparr>bus_byID := m\<rparr>) ty = subs_of b ty" "subs_of (b\<lparr>bus_nextID := n\<rparr>) ty = subs_of b ty"
  "subs_of (b\<lparr>bus_closed := c\<rparr>) ty = subs_of b ty"
  "subs_of (b\<lparr>bus_subs := (bus_subs b)(ty' \<mapsto> xs)\<rparr>) ty = (if ty = ty' then xs else subs_of b ty)"
  "subs_of (b\<lparr>bus_subs := (bus_subs b)(ty' := None)\<rparr>) ty = (if ty = ty' then [] else subs_of b ty)"
  by (simp_all add: subs_of_def)

lemma bus_ok_located:
  "bus_ok b \<Longrightarrow> k < length (subs_of b ty) \<Longrightarrow>
     bus_byID b (sub_ident (subs_of b ty ! k)) = Some \<lparr>loc_eventType = ty, loc_index = k\<rparr>"
  by (simp add: bus_ok_def)

lemma bus_ok_entry:
  assumes "bus_ok b" "bus_byID b i = Some loc"
  shows "loc_index loc < length (subs_of b (loc_eventType loc))"
    and "sub_ident (subs_of b (loc_eventType loc) ! loc_index loc) = i"
  using assms by (auto simp: bus_ok_def)

text \<open>An identifier names one place.\<close>

lemma bus_ok_unique:
  assumes "bus_ok b" "k < length (subs_of b ty)" "k' < length (subs_of b ty')"
    and "sub_ident (subs_of b ty ! k) = sub_ident (subs_of b ty' ! k')"
  shows "ty = ty' \<and> k = k'"
proof -
  have "Some \<lparr>loc_eventType = ty, loc_index = k\<rparr> = Some \<lparr>loc_eventType = ty', loc_index = k'\<rparr>"
    using bus_ok_located [OF assms(1,2)] bus_ok_located [OF assms(1,3)] unfolding assms(4) by (rule trans [OF sym])
  then show ?thesis by simp
qed

lemma subscribe_ok:
  assumes "bus_ok b" "bus_byID b i = None"
  shows "bus_ok (subscribe_task i ty h b)"
proof -
  have new: "sub_ident (subs_of b ty' ! k) \<noteq> i" if "k < length (subs_of b ty')" for ty' k
    using bus_ok_located [OF assms(1) that] assms(2) by auto
  let ?b = "subscribe_task i ty h b"
  have subs: "subs_of ?b ty' = (if ty' = ty then subs_of b ty @ [\<lparr>sub_ident = i, sub_handler = h\<rparr>] else subs_of b ty')" for ty'
    by (simp add: subscribe_task_def Let_def)
  have byID: "bus_byID ?b = (bus_byID b)(i \<mapsto> \<lparr>loc_eventType = ty, loc_index = length (subs_of b ty)\<rparr>)"
    by (simp add: subscribe_task_def Let_def)
  show ?thesis
    unfolding bus_ok_def
  proof (intro conjI allI impI)
    fix ty' k
    assume "k < length (subs_of ?b ty')"
    then show "bus_byID ?b (sub_ident (subs_of ?b ty' ! k)) = Some \<lparr>loc_eventType = ty', loc_index = k\<rparr>"
      using new bus_ok_located [OF assms(1)] unfolding subs byID
      by (cases "ty' = ty"; cases "k < length (subs_of b ty')") (auto simp: nth_append less_Suc_eq)
  next
    fix j loc
    assume "bus_byID ?b j = Some loc"
    then show "loc_index loc < length (subs_of ?b (loc_eventType loc))"
      "sub_ident (subs_of ?b (loc_eventType loc) ! loc_index loc) = j"
      using bus_ok_entry [OF assms(1), of j loc] unfolding subs byID
      by (cases "j = i"; auto simp: nth_append)+
  qed
qed

section \<open>The closure of Unsubscribe\<close>

lemma filter_swap_remove:
  assumes "k < length xs" "\<And>j. j < length xs \<Longrightarrow> P (xs ! j) \<longleftrightarrow> j \<noteq> k"
  shows "mset (butlast (xs[k := last xs])) = mset (filter P xs)"
proof -
  have ne: "xs \<noteq> []" using assms(1) by auto
  have "mset (xs[k := last xs]) = add_mset (last xs) (mset xs - {#xs ! k#})"
    using assms(1) by (simp add: mset_update)
  moreover have "xs[k := last xs] = butlast (xs[k := last xs]) @ [last xs]"
  proof (cases "k = length xs - 1")
    case True
    then show ?thesis using ne by (metis append_butlast_last_id last_conv_nth list_update_id list_update_nonempty)
  next
    case False
    then have "last (xs[k := last xs]) = last xs"
      using assms(1) ne by (simp add: last_conv_nth)
    then show ?thesis using ne by (metis append_butlast_last_id list_update_nonempty)
  qed
  ultimately have "mset (butlast (xs[k := last xs])) = mset xs - {#xs ! k#}"
    by (metis add_mset_add_single add_mset_remove_trivial mset.simps(1) mset.simps(2) mset_append)
  moreover have "filter P xs = take k xs @ drop (Suc k) xs"
  proof -
    have "filter P xs = filter P (take k xs) @ filter P (xs ! k # drop (Suc k) xs)"
      using assms(1) by (metis append_take_drop_id Cons_nth_drop_Suc filter_append)
    also have "filter P (take k xs) = take k xs"
      by (rule filter_True) (use assms in \<open>auto simp: in_set_conv_nth\<close>)
    also have "filter P (xs ! k # drop (Suc k) xs) = drop (Suc k) xs"
      using assms by (auto intro!: filter_True simp: in_set_conv_nth)
    finally show ?thesis .
  qed
  moreover have "mset xs = add_mset (xs ! k) (mset (take k xs @ drop (Suc k) xs))"
    using assms(1) by (metis id_take_nth_drop mset.simps(2) mset_append union_mset_add_mset_right)
  ultimately show ?thesis by simp
qed

definition removes :: "string \<Rightarrow> ('ty, 'h) EventBus \<Rightarrow> ('ty, 'h) EventBus \<Rightarrow> bool" where
  "removes i b b' \<longleftrightarrow> (\<forall>ty. mset (subs_of b' ty) = mset (filter (\<lambda>x. sub_ident x \<noteq> i) (subs_of b ty)))"

definition last_of_several :: "string \<Rightarrow> ('ty, 'h) EventBus \<Rightarrow> bool" where
  "last_of_several i b \<longleftrightarrow> (\<exists>ty xs x. subs_of b ty = xs @ [x] \<and> xs \<noteq> [] \<and> sub_ident x = i)"

lemma unsubscribe_unknown:
  assumes "bus_ok b" "bus_byID b i = None"
  shows "removes i b b" and "\<not> last_of_several i b"
proof -
  have no: "sub_ident x \<noteq> i" if "x \<in> set (subs_of b ty)" for ty x
    using that bus_ok_located [OF assms(1)] assms(2) by (metis in_set_conv_nth option.distinct(1))
  then show "removes i b b" by (auto simp: removes_def filter_id_conv)
  show "\<not> last_of_several i b" unfolding last_of_several_def using no by (metis in_set_conv_decomp)
qed

lemma filter_other_type:
  assumes "bus_ok b" "bus_byID b i = Some loc" "ty \<noteq> loc_eventType loc"
  shows "filter (\<lambda>x. sub_ident x \<noteq> i) (subs_of b ty) = subs_of b ty"
proof (rule filter_True, rule ballI)
  fix x
  assume "x \<in> set (subs_of b ty)"
  then obtain k where "k < length (subs_of b ty)" "subs_of b ty ! k = x" by (auto simp: in_set_conv_nth)
  with bus_ok_located [OF assms(1)] assms(2,3) show "sub_ident x \<noteq> i" by force
qed

lemma last_of_several_iff:
  assumes "bus_ok b" "bus_byID b i = Some loc"
  shows "last_of_several i b \<longleftrightarrow>
     Suc (loc_index loc) = length (subs_of b (loc_eventType loc)) \<and> 0 < loc_index loc"
proof
  assume "last_of_several i b"
  then obtain ty xs x where x: "subs_of b ty = xs @ [x]" "xs \<noteq> []" "sub_ident x = i" by (auto simp: last_of_several_def)
  with bus_ok_located [OF assms(1), of "length xs" ty] assms(2)
  show "Suc (loc_index loc) = length (subs_of b (loc_eventType loc)) \<and> 0 < loc_index loc" by (cases loc) auto
next
  let ?xs = "subs_of b (loc_eventType loc)"
  assume k: "Suc (loc_index loc) = length ?xs \<and> 0 < loc_index loc"
  then have "?xs = butlast ?xs @ [?xs ! loc_index loc]" "butlast ?xs \<noteq> []"
    by (metis append_butlast_last_id diff_Suc_1 last_conv_nth length_0_conv nat.distinct(1))
      (use k in \<open>metis diff_Suc_1 length_butlast length_greater_0_conv\<close>)
  with bus_ok_entry(2) [OF assms] show "last_of_several i b" unfolding last_of_several_def by blast
qed

lemma unsubscribe_found:
  assumes ok: "bus_ok b" and found: "bus_byID b i = Some loc"
    and b': "bus_subs b' = bus_subs (snd (unsubscribe_task i b))"
  shows "removes i b b'"
  unfolding removes_def
proof
  fix ty
  let ?ty = "loc_eventType loc" and ?k = "loc_index loc"
  let ?xs = "subs_of b ?ty"
  let ?ys = "butlast (?xs[?k := last ?xs])"
  have k: "?k < length ?xs" "sub_ident (?xs ! ?k) = i" using bus_ok_entry [OF ok found] by auto
  have subs: "subs_of b' ty = (if ty = ?ty then ?ys else subs_of b ty)"
    using k found b' by (auto simp: unsubscribe_task_def Let_def subs_of_def split: option.splits if_splits)
  show "mset (subs_of b' ty) = mset (filter (\<lambda>x. sub_ident x \<noteq> i) (subs_of b ty))"
  proof (cases "ty = ?ty")
    case True
    have "sub_ident (?xs ! j) \<noteq> i \<longleftrightarrow> j \<noteq> ?k" if "j < length ?xs" for j
      using bus_ok_unique [OF ok that k(1)] k(2) by auto
    with filter_swap_remove [OF k(1), of "\<lambda>x. sub_ident x \<noteq> i"] True show ?thesis unfolding subs by simp
  next
    case False
    then show ?thesis unfolding subs by (simp add: filter_other_type [OF ok found])
  qed
qed

lemma unsubscribe_task_cases:
  assumes ok: "bus_ok b" and found: "bus_byID b i = Some loc"
  defines "xs \<equiv> subs_of b (loc_eventType loc)"
  shows "unsubscribe_task i b =
     (if length xs = 1 then
        (False, b\<lparr>bus_subs := (bus_subs b)(loc_eventType loc := None), bus_byID := (bus_byID b)(i := None)\<rparr>)
      else if Suc (loc_index loc) = length xs then
        (True, b\<lparr>bus_subs := (bus_subs b)(loc_eventType loc \<mapsto> butlast (xs[loc_index loc := last xs]))\<rparr>)
      else
        (False, b\<lparr>bus_subs := (bus_subs b)(loc_eventType loc \<mapsto> butlast (xs[loc_index loc := last xs])),
                  bus_byID := ((bus_byID b)(sub_ident (last xs) \<mapsto>
                    \<lparr>loc_eventType = loc_eventType loc, loc_index = loc_index loc\<rparr>))(i := None)\<rparr>))"
proof -
  have k: "loc_index loc < length xs" using bus_ok_entry(1) [OF ok found] by (simp add: xs_def)
  have nth: "butlast (xs[loc_index loc := last xs]) ! loc_index loc = last xs" if "Suc (loc_index loc) < length xs"
    using that by (simp add: nth_butlast)
  have "butlast (xs[loc_index loc := last xs]) = [] \<longleftrightarrow> length xs = 1"
    using k by (metis One_nat_def Suc_lessD diff_Suc_1 length_0_conv length_butlast length_list_update less_nat_zero_code
        less_numeral_extra(3) Suc_pred zero_less_iff_neq_zero)
  with k nth found show ?thesis
    by (auto simp: unsubscribe_task_def Let_def xs_def [symmetric])
qed

lemma remove_only_ok:
  assumes ok: "bus_ok b" and found: "bus_byID b i = Some loc" and one: "length (subs_of b (loc_eventType loc)) = 1"
  shows "bus_ok (b\<lparr>bus_subs := (bus_subs b)(loc_eventType loc := None), bus_byID := (bus_byID b)(i := None)\<rparr>)"
    (is "bus_ok ?b")
proof -
  have subs: "subs_of ?b ty = (if ty = loc_eventType loc then [] else subs_of b ty)" for ty by (simp add: subs_of_def)
  have k: "loc_index loc < length (subs_of b (loc_eventType loc))"
    "sub_ident (subs_of b (loc_eventType loc) ! loc_index loc) = i"
    using bus_ok_entry [OF ok found] by auto
  have byID: "bus_byID ?b = (bus_byID b)(i := None)" by simp
  show ?thesis
    unfolding bus_ok_def subs byID
  proof (intro conjI allI impI)
    fix ty j
    assume "j < length (if ty = loc_eventType loc then [] else subs_of b ty)"
    then have j: "ty \<noteq> loc_eventType loc" "j < length (subs_of b ty)" by (auto split: if_splits)
    then have "sub_ident (subs_of b ty ! j) \<noteq> i" using bus_ok_unique [OF ok j(2) k(1)] k(2) by auto
    with j bus_ok_located [OF ok j(2)]
    show "((bus_byID b)(i := None)) (sub_ident ((if ty = loc_eventType loc then [] else subs_of b ty) ! j)) =
        Some \<lparr>loc_eventType = ty, loc_index = j\<rparr>" by simp
  next
    fix j loc'
    assume "((bus_byID b)(i := None)) j = Some loc'"
    then have j: "j \<noteq> i" "bus_byID b j = Some loc'" by (auto split: if_splits)
    note e = bus_ok_entry [OF ok j(2)]
    have ty: "loc_eventType loc' \<noteq> loc_eventType loc"
    proof
      assume "loc_eventType loc' = loc_eventType loc"
      with e one k j(1) show False by (metis less_one)
    qed
    with e show "loc_index loc' < length (if loc_eventType loc' = loc_eventType loc then [] else subs_of b (loc_eventType loc'))"
      and "sub_ident ((if loc_eventType loc' = loc_eventType loc then [] else subs_of b (loc_eventType loc')) ! loc_index loc') = j"
      by simp_all
  qed
qed

lemma remove_inner_ok:
  assumes ok: "bus_ok b" and found: "bus_byID b i = Some loc"
    and inner: "Suc (loc_index loc) < length (subs_of b (loc_eventType loc))"
  defines "xs \<equiv> subs_of b (loc_eventType loc)"
  defines "ys \<equiv> butlast (xs[loc_index loc := last xs])"
  shows "bus_ok (b\<lparr>bus_subs := (bus_subs b)(loc_eventType loc \<mapsto> ys),
     bus_byID := ((bus_byID b)(sub_ident (last xs) \<mapsto>
        \<lparr>loc_eventType = loc_eventType loc, loc_index = loc_index loc\<rparr>))(i := None)\<rparr>)"
    (is "bus_ok ?b")
proof -
  let ?ty = "loc_eventType loc" and ?k = "loc_index loc" and ?n = "length xs - 1"
  have k: "?k < ?n" "?k < length (subs_of b ?ty)" "sub_ident (subs_of b ?ty ! ?k) = i"
    using bus_ok_entry [OF ok found] inner by (auto simp: xs_def)
  have n: "?n < length (subs_of b ?ty)" "last xs = subs_of b ?ty ! ?n"
    using k(2) by (auto simp: xs_def intro!: last_conv_nth [unfolded One_nat_def])
  have last_i: "sub_ident (last xs) \<noteq> i" using bus_ok_unique [OF ok n(1) k(2)] k(1,3) n(2) by auto
  have ys: "length ys = ?n" "\<And>j. j < ?n \<Longrightarrow> ys ! j = (if j = ?k then last xs else xs ! j)"
    by (auto simp: ys_def nth_butlast)
  have subs: "subs_of ?b ty = (if ty = ?ty then ys else subs_of b ty)" for ty by (simp add: subs_of_def)
  have byID: "bus_byID ?b = ((bus_byID b)(sub_ident (last xs) \<mapsto> \<lparr>loc_eventType = ?ty, loc_index = ?k\<rparr>))(i := None)" by simp
  show ?thesis
    unfolding bus_ok_def
  proof (intro conjI allI impI)
    fix ty j
    assume j: "j < length (subs_of ?b ty)"
    show "bus_byID ?b (sub_ident (subs_of ?b ty ! j)) = Some \<lparr>loc_eventType = ty, loc_index = j\<rparr>"
    proof (cases "ty = ?ty \<and> j = ?k")
      case True
      with ys(2) [of ?k] k(1) last_i show ?thesis unfolding subs byID by simp
    next
      case False
      then have old: "subs_of ?b ty ! j = subs_of b ty ! j" "j < length (subs_of b ty)" "ty = ?ty \<Longrightarrow> j < ?n"
        using j ys unfolding subs by (auto simp: xs_def split: if_splits)
      have "sub_ident (subs_of b ty ! j) \<noteq> i" using bus_ok_unique [OF ok old(2) k(2)] k(3) False by auto
      moreover have "sub_ident (subs_of b ty ! j) \<noteq> sub_ident (last xs)"
        using bus_ok_unique [OF ok old(2) n(1)] n(2) old(3) by auto
      ultimately show ?thesis using bus_ok_located [OF ok old(2)] unfolding old(1) byID by simp
    qed
  next
    fix j loc'
    assume "bus_byID ?b j = Some loc'"
    then have j: "j \<noteq> i"
      "if j = sub_ident (last xs) then loc' = \<lparr>loc_eventType = ?ty, loc_index = ?k\<rparr> else bus_byID b j = Some loc'"
      unfolding byID by (auto split: if_splits)
    have "loc_index loc' < length (subs_of ?b (loc_eventType loc')) \<and>
        sub_ident (subs_of ?b (loc_eventType loc') ! loc_index loc') = j"
    proof (cases "j = sub_ident (last xs)")
      case True
      with j ys(1) ys(2) [of ?k] k(1) show ?thesis unfolding subs by simp
    next
      case False
      with j(2) have e: "loc_index loc' < length (subs_of b (loc_eventType loc'))"
        "sub_ident (subs_of b (loc_eventType loc') ! loc_index loc') = j"
        using bus_ok_entry [OF ok, of j loc'] by auto
      have "loc_index loc' < ?n \<and> loc_index loc' \<noteq> ?k" if "loc_eventType loc' = ?ty"
        using e False j(1) n k(3) that by (metis One_nat_def Suc_pred less_antisym less_nat_zero_code not_gr_zero xs_def)
      with e ys show ?thesis unfolding subs by (auto simp: xs_def)
    qed
    then show "loc_index loc' < length (subs_of ?b (loc_eventType loc'))"
      "sub_ident (subs_of ?b (loc_eventType loc') ! loc_index loc') = j" by auto
  qed
qed

lemma unsubscribe_panics_iff:
  assumes "bus_ok b"
  shows "fst (unsubscribe_task i b) \<longleftrightarrow> last_of_several i b"
proof (cases "bus_byID b i")
  case None
  with unsubscribe_unknown(2) [OF assms None] show ?thesis by (simp add: unsubscribe_task_def)
next
  case (Some loc)
  show ?thesis
    using bus_ok_entry(1) [OF assms Some]
    unfolding last_of_several_iff [OF assms Some] unsubscribe_task_cases [OF assms Some] by auto
qed

lemma unsubscribe_removes:
  assumes "bus_ok b"
  shows "removes i b (snd (unsubscribe_task i b))"
proof (cases "bus_byID b i")
  case None
  with unsubscribe_unknown(1) [OF assms None] show ?thesis by (simp add: unsubscribe_task_def)
next
  case (Some loc)
  from unsubscribe_found [OF assms this refl] show ?thesis .
qed

lemma unsubscribe_ok:
  assumes ok: "bus_ok b" and no_panic: "\<not> fst (unsubscribe_task i b)"
  shows "bus_ok (snd (unsubscribe_task i b))"
    and "dom (bus_byID (snd (unsubscribe_task i b))) \<subseteq> dom (bus_byID b)"
    and "bus_nextID (snd (unsubscribe_task i b)) = bus_nextID b"
proof -
  let ?b = "snd (unsubscribe_task i b)"
  have "bus_ok ?b \<and> dom (bus_byID ?b) \<subseteq> dom (bus_byID b) \<and> bus_nextID ?b = bus_nextID b"
  proof (cases "bus_byID b i")
    case None
    with ok show ?thesis by (simp add: unsubscribe_task_def)
  next
    case (Some loc)
    let ?xs = "subs_of b (loc_eventType loc)"
    note entry = bus_ok_entry [OF ok Some] and eq = unsubscribe_task_cases [OF ok Some]
    show ?thesis
    proof (cases "length ?xs = 1")
      case True
      with remove_only_ok [OF ok Some] show ?thesis by (auto simp: eq)
    next
      case False
      with no_panic have "Suc (loc_index loc) \<noteq> length ?xs" by (auto simp: eq)
      with entry have inner: "Suc (loc_index loc) < length ?xs" by simp
      have "last ?xs = ?xs ! (length ?xs - 1)" "length ?xs - 1 < length ?xs"
        using inner by (auto intro!: last_conv_nth [unfolded One_nat_def])
      then have "sub_ident (last ?xs) \<in> dom (bus_byID b)" using bus_ok_located [OF ok] by (metis domI)
      with remove_inner_ok [OF ok Some inner] inner show ?thesis by (auto simp: eq split: if_splits)
    qed
  qed
  then show "bus_ok ?b" "dom (bus_byID ?b) \<subseteq> dom (bus_byID b)" "bus_nextID ?b = bus_nextID b" by auto
qed

section \<open>The invariant\<close>

lemma bus_post_calls:
  "bs_open s \<Longrightarrow> foldl (\<lambda>s x. bus_post (CallHandler (sub_handler x) e) s) s xs =
     s\<lparr>bs_tasks := bs_tasks s @ map (\<lambda>x. CallHandler (sub_handler x) e) xs\<rparr>"
  "\<not> bs_open s \<Longrightarrow> foldl (\<lambda>s x. bus_post (CallHandler (sub_handler x) e) s) s xs = s"
  by (induction xs arbitrary: s) (auto simp: bus_post_def)

lemma publish_task_posts:
  "publish_task ty e s =
     (if bs_open s
      then s\<lparr>bs_tasks := bs_tasks s @ map (\<lambda>x. CallHandler (sub_handler x) e) (subs_of (bs_bus s) ty)\<rparr>
      else s)"
  by (simp add: publish_task_def bus_post_calls)

lemma pending_ids_calls [simp]: "pending_ids (map (\<lambda>x. CallHandler (sub_handler x) e) xs) = []"
  by (induction xs) auto

lemma bus_ok_cong:
  "bus_subs b' = bus_subs b \<Longrightarrow> bus_byID b' = bus_byID b \<Longrightarrow> bus_ok b' = bus_ok b"
  by (simp add: bus_ok_def subs_of_def)

lemma bus_exec_inv:
  assumes inv: "bus_inv (s\<lparr>bs_tasks := t # ts\<rparr>)"
  shows "bus_inv (bus_exec t (s\<lparr>bs_tasks := ts\<rparr>))"
proof (cases t)
  case (SubscribeTask i ty h)
  have byID: "bus_byID (subscribe_task i ty h b) = (bus_byID b)(i \<mapsto> \<lparr>loc_eventType = ty, loc_index = length (subs_of b ty)\<rparr>)"
    and "bus_nextID (subscribe_task i ty h b) = bus_nextID b" for b
    by (simp_all add: subscribe_task_def Let_def)
  with inv subscribe_ok [of "bs_bus s" i ty h] show ?thesis
    by (auto simp: SubscribeTask bus_inv_def)
next
  case (UnsubscribeTask i)
  show ?thesis
  proof (cases "bs_panics s = 0 \<and> \<not> fst (unsubscribe_task i (bs_bus s))")
    case True
    with inv have ok: "bus_ok (bs_bus s)" by (simp add: bus_inv_def)
    obtain b where b: "unsubscribe_task i (bs_bus s) = (False, b)"
      using True by (cases "unsubscribe_task i (bs_bus s)") auto
    have u: "bus_ok b" "dom (bus_byID b) \<subseteq> dom (bus_byID (bs_bus s))" "bus_nextID b = bus_nextID (bs_bus s)"
      using unsubscribe_ok [OF ok, of i] by (auto simp: b)
    then have "set (pending_ids ts) \<inter> dom (bus_byID b) = {}" "dom (bus_byID b) \<subseteq> sub_id ` {..bus_nextID b}"
      using True inv unfolding bus_inv_def UnsubscribeTask by (auto 0 4)
    with u True inv show ?thesis by (auto simp: UnsubscribeTask bus_inv_def b)
  next
    case False
    then show ?thesis by (cases "unsubscribe_task i (bs_bus s)") (auto simp: UnsubscribeTask bus_inv_def)
  qed
next
  case (PublishTask ty e)
  then show ?thesis using inv by (simp add: bus_inv_def publish_task_posts)
next
  case (CallHandler h e)
  then show ?thesis using inv by (simp add: bus_inv_def)
qed

lemma bus_subscribe_inv:
  assumes inv: "bus_inv s"
  shows "bus_inv (snd (Subscribe ty h s))"
proof -
  let ?n = "bus_nextID (bs_bus s)"
  have ok: "bus_ok (bs_bus s\<lparr>bus_nextID := Suc ?n\<rparr>) = bus_ok (bs_bus s)" by (rule bus_ok_cong) simp_all
  have new: "sub_id (Suc ?n) \<notin> sub_id ` {..?n}" by auto
  have sub: "sub_id ` {..?n} \<subseteq> sub_id ` {..Suc ?n}" "sub_id (Suc ?n) \<in> sub_id ` {..Suc ?n}" by auto
  show ?thesis
    using inv new sub by (auto simp: bus_inv_def Subscribe_def bus_post_def Let_def ok)
qed

lemma bus_step_inv:
  assumes inv: "bus_inv s" and st: "bus_step typeof l s = Some s'"
  shows "bus_inv s'"
proof (cases l)
  case (BSubscribe ty h)
  with st bus_subscribe_inv [OF inv] show ?thesis by auto
next
  case BRun
  with st obtain t ts where t: "bs_tasks s = t # ts" "s' = bus_exec t (s\<lparr>bs_tasks := ts\<rparr>)"
    by (auto split: list.splits)
  have "s\<lparr>bs_tasks := t # ts\<rparr> = s" using t(1) by (cases s) simp
  then have "bus_inv (s\<lparr>bs_tasks := t # ts\<rparr>)" using inv by simp
  from bus_exec_inv [OF this] t(2) show ?thesis by simp
next
  case BCloseFlag
  have "bus_ok (bs_bus s\<lparr>bus_closed := True\<rparr>) = bus_ok (bs_bus s)" by (rule bus_ok_cong) simp_all
  moreover have "s' = Close_flag s" using BCloseFlag st by simp
  ultimately show ?thesis using inv by (simp add: bus_inv_def Close_flag_def)
qed (use inv st in \<open>clarsimp simp: bus_inv_def Publish_def Unsubscribe_def bus_post_def Close_shutdown_def split: if_splits\<close>)+

interpretation buses: inv_system "\<lambda>s. s = bus_init" "lstep (bus_step typeof)" bus_inv for typeof
proof (unfold_locales, goal_cases)
  case (1 s)
  then show ?case by (simp add: bus_inv_def bus_init_def NewEventBus_def bus_ok_def subs_of_def)
next
  case (2 s t)
  then show ?case by (auto simp: lstep_def simp del: bus_step.simps intro: bus_step_inv)
qed

section \<open>The properties\<close>

definition ex_bus_labels :: "(nat, nat, nat) bus_label list" where
  "ex_bus_labels = [BSubscribe 0 7, BSubscribe 0 8, BSubscribe 0 9, BRun, BRun, BRun]"

definition ex_bus :: "(nat, nat, nat) bus_sys" where
  "ex_bus = the (run (bus_step (\<lambda>e. 0)) ex_bus_labels bus_init)"

lemma ex_bus_state: "bs_panics ex_bus = 0"
  "subs_of (bs_bus ex_bus) 0 = [\<lparr>sub_ident = ''sub-1'', sub_handler = 7\<rparr>, \<lparr>sub_ident = ''sub-2'', sub_handler = 8\<rparr>,
     \<lparr>sub_ident = ''sub-3'', sub_handler = 9\<rparr>]"
  by code_simp+

lemma ex_bus_reachable: "bus_reachable (\<lambda>e. 0) ex_bus"
proof -
  have "run (bus_step (\<lambda>e. 0)) ex_bus_labels (bus_init :: (nat, nat, nat) bus_sys) \<noteq> None" by code_simp
  then have r: "run (bus_step (\<lambda>e. 0)) ex_bus_labels bus_init = Some ex_bus"
    unfolding ex_bus_def by (metis option.exhaust_sel)
  have "bus_reachable (\<lambda>e. 0) (bus_init :: (nat, nat, nat) bus_sys)" by (rule reach_init) (rule refl)
  from run_reach [OF this r] show ?thesis .
qed



text \<open>
  The panic of \<^verbatim>\<open>Unsubscribe\<close> leaves a stale index behind, so that calling it again removes somebody
  else: three handlers subscribe to one type; the second and last is unsubscribed before the third comes, and
  once more afterwards; the third handler, which nobody unsubscribed, misses the event published then.
\<close>

theorem unsubscribe_twice_removes_other:
  "\<exists>s. run (bus_step (\<lambda>e. 0)) [BSubscribe 0 7, BSubscribe 0 8, BRun, BRun, BUnsubscribe ''sub-2'', BRun,
        BSubscribe 0 9, BRun, BUnsubscribe ''sub-2'', BRun, BPublish 5, BRun, BRun]
       (bus_init :: (nat, nat, nat) bus_sys) = Some s \<and>
     bs_delivered s = [(7, 5)] \<and> bs_tasks s = [] \<and> bs_panics s = 2"
proof -
  let ?r = "run (bus_step (\<lambda>e. 0)) [BSubscribe 0 7, BSubscribe 0 8, BRun, BRun, BUnsubscribe ''sub-2'', BRun,
        BSubscribe 0 9, BRun, BUnsubscribe ''sub-2'', BRun, BPublish 5, BRun, BRun]
       (bus_init :: (nat, nat, nat) bus_sys)"
  have "map_option (\<lambda>s. (bs_delivered s, bs_tasks s, bs_panics s)) ?r = Some ([(7, 5)], [], 2)" by code_simp
  then show ?thesis by (cases ?r) auto
qed

end
