(* ===== verification/Job_Store.thy ===== *)
theory Job_Store
  imports Prelude
begin

text \<open>
  Job entities, the interface \<^verbatim>\<open>JobStore\<close> with \<^verbatim>\<open>DurableJobStore\<close> as a locale, and its in-memory
  implementation, all of \<^verbatim>\<open>job/job_store.go\<close>. Pointers to entities are values: every operation of the
  store copies what it takes and what it returns (\<^verbatim>\<open>cloneJobEntity\<close>). Times are integers, 0 is the
  zero time; the readings of the clock are arguments.
\<close>

section \<open>Entities\<close>

type_synonym JobStatus = string

definition JobStatusPending :: JobStatus where "JobStatusPending = ''PENDING''"
definition JobStatusRunning :: JobStatus where "JobStatusRunning = ''RUNNING''"
definition JobStatusCompleted :: JobStatus where "JobStatusCompleted = ''COMPLETED''"
definition JobStatusFailed :: JobStatus where "JobStatusFailed = ''FAILED''"
definition JobStatusCanceled :: JobStatus where "JobStatusCanceled = ''CANCELED''"

lemmas JobStatus_defs = JobStatusPending_def JobStatusRunning_def JobStatusCompleted_def JobStatusFailed_def JobStatusCanceled_def

definition JobStatus_IsValid :: "JobStatus \<Rightarrow> bool" where
  "JobStatus_IsValid s \<longleftrightarrow>
     s \<in> {JobStatusPending, JobStatusRunning, JobStatusCompleted, JobStatusFailed, JobStatusCanceled}"

record JobEntity =
  je_ID :: string
  je_Type :: string
  je_ArgsData :: "8 word list"
  je_Status :: JobStatus
  je_Result :: string
  je_Priority :: int
  je_CreatedAt :: int
  je_UpdatedAt :: int

record JobFilter =
  jf_Status :: JobStatus
  jf_Type :: string
  jf_Limit :: int
  jf_Offset :: int

definition zero_filter :: JobFilter where
  "zero_filter = \<lparr>jf_Status = [], jf_Type = [], jf_Limit = 0, jf_Offset = 0\<rparr>"

text \<open>
  The errors of a database: of the SQLite driver with its result code, \<^verbatim>\<open>sql.ErrNoRows\<close>, and others.
\<close>

datatype db_error = SqliteError int | ErrNoRows | OtherDbError nat

text \<open>
  The errors a store returns. \<^verbatim>\<open>ErrJobNotFound\<close> is wrapped by some messages and not by others, which
  callers can tell apart with \<^verbatim>\<open>errors.Is\<close>.
\<close>

datatype store_error =
    EmptyID | ErrJobAlreadyExists | NotFoundMessage string | ErrJobNotFound string | DriverError db_error | CtxError

definition job_matches :: "JobFilter \<Rightarrow> JobEntity \<Rightarrow> bool" where
  "job_matches f j \<longleftrightarrow> (jf_Status f = [] \<or> je_Status j = jf_Status f) \<and> (jf_Type f = [] \<or> je_Type j = jf_Type f)"

text \<open>A page: skip \<open>Offset\<close> entries, then at most \<open>Limit\<close>, where 0 or less means no limit.\<close>

definition page :: "int \<Rightarrow> int \<Rightarrow> 'a list \<Rightarrow> 'a list" where
  "page limit offset xs = (let ys = drop (nat offset) xs in if limit > 0 then take (nat limit) ys else ys)"

lemma set_page_subset: "set (page limit offset xs) \<subseteq> set xs"
  by (auto simp: page_def Let_def dest: in_set_dropD in_set_takeD)

lemma length_page: "0 < limit \<Longrightarrow> int (length (page limit offset xs)) \<le> limit"
  by (auto simp: page_def Let_def)

lemma page_all [simp]: "page 0 0 xs = xs"
  by (simp add: page_def)

section \<open>The interface\<close>

text \<open>
  A store represents a map from identifiers to entities. \<open>'c\<close> stands for the readings of the clock,
  which \<open>stamp\<close> writes into an entity; \<open>'o\<close> for the order in which an implementation happens to
  enumerate its entries.
\<close>

locale job_store =
  fixes create save :: "'c \<Rightarrow> JobEntity \<Rightarrow> 's \<Rightarrow> store_error option \<times> 's"
    and update_status :: "'c \<Rightarrow> string \<Rightarrow> JobStatus \<Rightarrow> string \<Rightarrow> 's \<Rightarrow> store_error option \<times> 's"
    and get_job :: "string \<Rightarrow> 's \<Rightarrow> store_error + JobEntity"
    and list_jobs :: "'o \<Rightarrow> JobFilter \<Rightarrow> 's \<Rightarrow> store_error + JobEntity list"
    and recoverable :: "'o \<Rightarrow> 's \<Rightarrow> store_error + JobEntity list"
    and delete_job :: "string \<Rightarrow> 's \<Rightarrow> store_error option \<times> 's"
    and view :: "'s \<Rightarrow> string \<rightharpoonup> JobEntity"
    and invar :: "'s \<Rightarrow> bool"
    and order_ok :: "'o \<Rightarrow> 's \<Rightarrow> bool"
    and stamp :: "'c \<Rightarrow> JobEntity \<Rightarrow> JobEntity"
    and touched :: "'c \<Rightarrow> int"
  assumes keyed: "invar s \<Longrightarrow> view s i = Some j \<Longrightarrow> je_ID j = i"
    and stamp_law: "stamp c j = j\<lparr>je_CreatedAt := je_CreatedAt (stamp c j), je_UpdatedAt := touched c\<rparr>"
    and create_law: "invar s \<Longrightarrow> je_ID j \<noteq> [] \<Longrightarrow> create c j s = (e, s') \<Longrightarrow>
      (if view s (je_ID j) = None then e = None \<and> view s' = (view s)(je_ID j \<mapsto> stamp c j)
       else e = Some ErrJobAlreadyExists \<and> view s' = view s)"
    and save_law: "invar s \<Longrightarrow> je_ID j \<noteq> [] \<Longrightarrow> save c j s = (e, s') \<Longrightarrow>
      e = None \<and> view s' = (view s)(je_ID j \<mapsto> stamp c j)"
    and no_id: "je_ID j = [] \<Longrightarrow> create c j s = (Some EmptyID, s) \<and> save c j s = (Some EmptyID, s)"
    and update_law: "invar s \<Longrightarrow> update_status c i st res s = (e, s') \<Longrightarrow>
      (case view s i of
         None \<Rightarrow> e \<noteq> None \<and> view s' = view s
       | Some j \<Rightarrow> e = None \<and>
           view s' = (view s)(i \<mapsto> j\<lparr>je_Status := st, je_Result := res, je_UpdatedAt := touched c\<rparr>))"
    and get_law: "invar s \<Longrightarrow>
      get_job i s = (case view s i of None \<Rightarrow> Inl (ErrJobNotFound i) | Some j \<Rightarrow> Inr j)"
    and list_law: "invar s \<Longrightarrow> order_ok ord s \<Longrightarrow>
      \<exists>js. distinct (map je_ID js) \<and> set js = {j. \<exists>i. view s i = Some j \<and> job_matches f j} \<and>
        list_jobs ord f s = Inr (page (jf_Limit f) (jf_Offset f) js)"
    and recoverable_law: "invar s \<Longrightarrow> order_ok ord s \<Longrightarrow>
      recoverable ord s = list_jobs ord (zero_filter\<lparr>jf_Status := JobStatusPending\<rparr>) s"
    and delete_law: "invar s \<Longrightarrow> delete_job i s = (e, s') \<Longrightarrow> e = None \<and> view s' = (view s)(i := None)"
    and invars: "invar s \<Longrightarrow> invar (snd (create c j s)) \<and> invar (snd (save c j s)) \<and>
      invar (snd (update_status c i st res s)) \<and> invar (snd (delete_job i s))"
begin

lemma stamp_fields:
  "je_ID (stamp c j) = je_ID j" "je_Type (stamp c j) = je_Type j" "je_ArgsData (stamp c j) = je_ArgsData j"
  "je_Status (stamp c j) = je_Status j" "je_Result (stamp c j) = je_Result j" "je_Priority (stamp c j) = je_Priority j"
  by (subst stamp_law, simp)+

lemma get_after_create:
  assumes "invar s" "je_ID j \<noteq> []" "create c j s = (None, s')"
  shows "get_job (je_ID j) s' = Inr (stamp c j) \<and> get_job (je_ID j) s = Inl (ErrJobNotFound (je_ID j))"
proof -
  have "view s (je_ID j) = None" "view s' = (view s)(je_ID j \<mapsto> stamp c j)"
    using create_law [OF assms] by (auto split: if_splits)
  moreover have "invar s'" using invars [OF assms(1), of c j] assms(3) by simp
  ultimately show ?thesis using assms(1) by (simp add: get_law)
qed

lemma create_twice:
  assumes "invar s" "je_ID j \<noteq> []" "create c j s = (None, s')" "je_ID k = je_ID j"
  shows "fst (create d k s') = Some ErrJobAlreadyExists"
proof -
  have "invar s'" using invars [OF assms(1), of c j] assms(3) by simp
  moreover have "view s' (je_ID k) \<noteq> None" using create_law [OF assms(1-3)] assms(4) by (auto split: if_splits)
  ultimately show ?thesis using create_law [of s' k d] assms(2,4) by (cases "create d k s'") auto
qed

lemma get_after_update:
  assumes "invar s" "get_job i s = Inr j" "update_status c i st res s = (e, s')"
  shows "e = None \<and> get_job i s' = Inr (j\<lparr>je_Status := st, je_Result := res, je_UpdatedAt := touched c\<rparr>) \<and>
    (\<forall>k. k \<noteq> i \<longrightarrow> get_job k s' = get_job k s)"
proof -
  have "view s i = Some j" using assms(2) get_law [OF assms(1)] by (simp split: option.splits)
  then have u: "e = None" "view s' = (view s)(i \<mapsto> j\<lparr>je_Status := st, je_Result := res, je_UpdatedAt := touched c\<rparr>)"
    using update_law [OF assms(1,3)] by simp_all
  have "invar s'" using invars [OF assms(1)] assms(3) by (metis snd_conv)
  with u assms(1) show ?thesis by (simp add: get_law)
qed

lemma recoverable_exact:
  assumes "invar s" "order_ok ord s"
  shows "\<exists>js. recoverable ord s = Inr js \<and> distinct (map je_ID js) \<and>
    set js = {j. \<exists>i. get_job i s = Inr j \<and> je_Status j = JobStatusPending}"
proof -
  let ?f = "zero_filter\<lparr>jf_Status := JobStatusPending\<rparr>"
  obtain js where js: "distinct (map je_ID js)" "set js = {j. \<exists>i. view s i = Some j \<and> job_matches ?f j}"
    "list_jobs ord ?f s = Inr js"
    using list_law [OF assms, of ?f] by (auto simp: zero_filter_def)
  have "job_matches ?f j \<longleftrightarrow> je_Status j = JobStatusPending" for j
    by (simp add: job_matches_def zero_filter_def JobStatusPending_def)
  moreover have "get_job i s = Inr j \<longleftrightarrow> view s i = Some j" for i j
    using get_law [OF assms(1)] by (simp split: option.splits)
  ultimately show ?thesis using js recoverable_law [OF assms] by auto
qed

end

section \<open>MemoryJobStore\<close>

text \<open>
  The \<^verbatim>\<open>sync.Map\<close> is a finite map. \<^verbatim>\<open>Range\<close> visits the keys in an order of its own, which is an
  argument \<open>order\<close>: a list of the keys without repetition.
\<close>

type_synonym MemoryJobStore = "string \<rightharpoonup> JobEntity"

definition NewMemoryJobStore :: MemoryJobStore where
  "NewMemoryJobStore = Map.empty"

definition cloneJobEntity :: "JobEntity \<Rightarrow> JobEntity" where
  "cloneJobEntity job =
     \<lparr>je_ID = je_ID job, je_Type = je_Type job, je_ArgsData = [] @ je_ArgsData job, je_Status = je_Status job,
      je_Result = je_Result job, je_Priority = je_Priority job, je_CreatedAt = je_CreatedAt job, je_UpdatedAt = je_UpdatedAt job\<rparr>"

lemma cloneJobEntity_eq [simp]: "cloneJobEntity job = job"
  by (simp add: cloneJobEntity_def)

text \<open>The stamping of the caller's entity, with the two readings of the clock.\<close>

definition mem_stamp :: "int \<times> int \<Rightarrow> JobEntity \<Rightarrow> JobEntity" where
  "mem_stamp now job =
     (let job1 = (if je_CreatedAt job = 0 then job\<lparr>je_CreatedAt := fst now\<rparr> else job)
      in job1\<lparr>je_UpdatedAt := snd now\<rparr>)"

definition mem_CreateJob :: "int \<times> int \<Rightarrow> JobEntity \<Rightarrow> MemoryJobStore \<Rightarrow> store_error option \<times> MemoryJobStore" where
  "mem_CreateJob now job s =
     (if je_ID job = [] then (Some EmptyID, s)
      else
        (let jobCopy = cloneJobEntity (mem_stamp now job) in
         case s (je_ID job) of
           Some _ \<Rightarrow> (Some ErrJobAlreadyExists, s)
         | None \<Rightarrow> (None, s(je_ID job \<mapsto> jobCopy))))"

definition mem_SaveJob :: "int \<times> int \<Rightarrow> JobEntity \<Rightarrow> MemoryJobStore \<Rightarrow> store_error option \<times> MemoryJobStore" where
  "mem_SaveJob now job s =
     (if je_ID job = [] then (Some EmptyID, s)
      else (None, s(je_ID job \<mapsto> cloneJobEntity (mem_stamp now job))))"

definition mem_UpdateStatus ::
  "int \<Rightarrow> string \<Rightarrow> JobStatus \<Rightarrow> string \<Rightarrow> MemoryJobStore \<Rightarrow> store_error option \<times> MemoryJobStore" where
  "mem_UpdateStatus now i status result s =
     (case s i of
        None \<Rightarrow> (Some (NotFoundMessage i), s)
      | Some job \<Rightarrow>
          (None, s(i \<mapsto>
             \<lparr>je_ID = je_ID job, je_Type = je_Type job, je_ArgsData = [] @ je_ArgsData job, je_Status = status,
              je_Result = result, je_Priority = je_Priority job, je_CreatedAt = je_CreatedAt job, je_UpdatedAt = now\<rparr>)))"

definition mem_GetJob :: "string \<Rightarrow> MemoryJobStore \<Rightarrow> store_error + JobEntity" where
  "mem_GetJob i s = (case s i of None \<Rightarrow> Inl (ErrJobNotFound i) | Some job \<Rightarrow> Inr (cloneJobEntity job))"

text \<open>The function given to \<^verbatim>\<open>Range\<close>, with the counters and the result it captures; returning false ends the visit.\<close>

fun mem_range :: "JobFilter \<Rightarrow> MemoryJobStore \<Rightarrow> string list \<Rightarrow> int \<Rightarrow> int \<Rightarrow> JobEntity list \<Rightarrow> JobEntity list" where
  "mem_range f s [] cnt skipped jobs = jobs"
| "mem_range f s (k # ks) cnt skipped jobs =
     (case s k of
        None \<Rightarrow> mem_range f s ks cnt skipped jobs
      | Some job \<Rightarrow>
          if jf_Status f \<noteq> [] \<and> je_Status job \<noteq> jf_Status f then mem_range f s ks cnt skipped jobs
          else if jf_Type f \<noteq> [] \<and> je_Type job \<noteq> jf_Type f then mem_range f s ks cnt skipped jobs
          else if skipped < jf_Offset f then mem_range f s ks cnt (skipped + 1) jobs
          else if jf_Limit f > 0 \<and> cnt \<ge> jf_Limit f then jobs
          else mem_range f s ks (cnt + 1) skipped (jobs @ [cloneJobEntity job]))"

definition mem_ListJobs :: "string list \<Rightarrow> JobFilter \<Rightarrow> MemoryJobStore \<Rightarrow> store_error + JobEntity list" where
  "mem_ListJobs order f s = Inr (mem_range f s order 0 0 [])"

definition mem_GetRecoverableJobs :: "string list \<Rightarrow> MemoryJobStore \<Rightarrow> store_error + JobEntity list" where
  "mem_GetRecoverableJobs order s = mem_ListJobs order (zero_filter\<lparr>jf_Status := JobStatusPending\<rparr>) s"

definition mem_DeleteJob :: "string \<Rightarrow> MemoryJobStore \<Rightarrow> store_error option \<times> MemoryJobStore" where
  "mem_DeleteJob i s = (None, s(i := None))"

definition mem_Clear :: "MemoryJobStore \<Rightarrow> MemoryJobStore" where
  "mem_Clear s = Map.empty"

definition mem_Count :: "string list \<Rightarrow> MemoryJobStore \<Rightarrow> nat" where
  "mem_Count order s = foldl (\<lambda>cnt k. if s k = None then cnt else cnt + 1) 0 order"

section \<open>MemoryJobStore implements the interface\<close>

definition mem_invar :: "MemoryJobStore \<Rightarrow> bool" where
  "mem_invar s \<longleftrightarrow> (\<forall>i j. s i = Some j \<longrightarrow> je_ID j = i)"

definition range_order :: "string list \<Rightarrow> MemoryJobStore \<Rightarrow> bool" where
  "range_order order s \<longleftrightarrow> distinct order \<and> set order = dom s"

lemma mem_stamp_eq:
  "mem_stamp now j = j\<lparr>je_CreatedAt := (if je_CreatedAt j = 0 then fst now else je_CreatedAt j), je_UpdatedAt := snd now\<rparr>"
  by (simp add: mem_stamp_def Let_def)

text \<open>The loop skips, then takes: it computes a page of the matching entries in the order of the visit.\<close>

lemma mem_range_taking:
  "\<not> skipped < jf_Offset f \<Longrightarrow> mem_range f s ks cnt skipped jobs =
     jobs @ (let ys = filter (job_matches f) (List.map_filter s ks)
             in if jf_Limit f > 0 then take (nat (jf_Limit f - cnt)) ys else ys)"
proof (induction ks arbitrary: cnt jobs)
  case Nil
  then show ?case by (simp add: List.map_filter_def)
next
  case (Cons k ks)
  have step: "nat (jf_Limit f - cnt) = Suc (nat (jf_Limit f - (cnt + 1)))" if "cnt < jf_Limit f"
    using that by simp
  from Cons show ?case
    by (cases "s k") (auto simp: List.map_filter_def job_matches_def Let_def step)
qed

lemma mem_range_page:
  "skipped \<le> jf_Offset f \<Longrightarrow> 0 \<le> skipped \<Longrightarrow> mem_range f s ks 0 skipped [] =
     page (jf_Limit f) (jf_Offset f - skipped) (filter (job_matches f) (List.map_filter s ks))"
proof (induction ks arbitrary: skipped)
  case Nil
  then show ?case by (simp add: page_def List.map_filter_def)
next
  case (Cons k ks)
  show ?case
  proof (cases "skipped < jf_Offset f")
    case True
    then have n: "nat (jf_Offset f - skipped) = Suc (nat (jf_Offset f - (skipped + 1)))" by simp
    show ?thesis
      using True Cons.prems Cons.IH [of skipped] Cons.IH [of "skipped + 1"]
      by (cases "s k") (auto simp: List.map_filter_def job_matches_def page_def Let_def n)
  next
    case False
    then show ?thesis using Cons.prems by (simp add: mem_range_taking page_def Let_def del: mem_range.simps)
  qed
qed

lemma mem_ListJobs_page:
  "mem_ListJobs order f s =
     Inr (page (jf_Limit f) (jf_Offset f) (filter (job_matches f) (List.map_filter s order)))"
proof (cases "0 \<le> jf_Offset f")
  case True
  then show ?thesis using mem_range_page [of 0 f s order] by (simp add: mem_ListJobs_def)
next
  case False
  then show ?thesis using mem_range_taking [of 0 f s order 0 "[]"] by (simp add: mem_ListJobs_def page_def Let_def)
qed

lemma map_filter_ids:
  assumes "mem_invar s" "set ks \<subseteq> dom s"
  shows "map je_ID (List.map_filter s ks) = ks" "set (List.map_filter s ks) = {j. \<exists>i \<in> set ks. s i = Some j}"
  using assms
  by (induction ks) (force simp: List.map_filter_def mem_invar_def)+

interpretation mem: job_store mem_CreateJob mem_SaveJob "\<lambda>now. mem_UpdateStatus (snd now)" mem_GetJob mem_ListJobs
  mem_GetRecoverableJobs mem_DeleteJob "\<lambda>s. s" mem_invar range_order mem_stamp snd
proof (unfold_locales, goal_cases)
  case (1 s i j)
  then show ?case by (simp add: mem_invar_def)
next
  case (2 c j)
  then show ?case by (simp add: mem_stamp_eq)
next
  case (3 s j c e s')
  then show ?case by (auto simp: mem_CreateJob_def Let_def split: option.splits)
next
  case (4 s j c e s')
  then show ?case by (simp add: mem_SaveJob_def)
next
  case (5 j c s)
  then show ?case by (simp add: mem_CreateJob_def mem_SaveJob_def)
next
  case (6 s c i st res e s')
  then show ?case by (auto simp: mem_UpdateStatus_def split: option.splits)
next
  case (7 s i)
  then show ?case by (simp add: mem_GetJob_def split: option.split)
next
  case (8 s ord f)
  let ?js = "filter (job_matches f) (List.map_filter s ord)"
  have ids: "map je_ID (List.map_filter s ord) = ord" "set (List.map_filter s ord) = {j. \<exists>i \<in> set ord. s i = Some j}"
    using map_filter_ids [of s ord] 8 by (auto simp: range_order_def)
  have "distinct (map je_ID ?js)"
    using ids(1) 8(2) by (metis distinct_map_filter range_order_def)
  moreover have "set ?js = {j. \<exists>i. s i = Some j \<and> job_matches f j}"
    using ids(2) 8(2) by (auto simp: range_order_def)
  ultimately show ?case using mem_ListJobs_page by blast
next
  case (9 s ord)
  then show ?case by (simp add: mem_GetRecoverableJobs_def)
next
  case (10 s i e s')
  then show ?case by (simp add: mem_DeleteJob_def)
next
  case (11 s c j i st res)
  then show ?case
    by (auto simp: mem_invar_def mem_CreateJob_def mem_SaveJob_def mem_UpdateStatus_def mem_DeleteJob_def mem_stamp_eq Let_def
        split: option.splits)
qed

lemma mem_Count_dom:
  assumes "range_order order s"
  shows "mem_Count order s = card (dom s)"
proof -
  have "foldl (\<lambda>cnt k. if s k = None then cnt else cnt + 1) n ks = n + length (filter (\<lambda>k. s k \<noteq> None) ks)" for n ks
    by (induction ks arbitrary: n) auto
  moreover have "filter (\<lambda>k. s k \<noteq> None) order = order" using assms by (auto simp: range_order_def filter_id_conv)
  ultimately show ?thesis using assms distinct_card [of order] by (simp add: mem_Count_def range_order_def)
qed

section \<open>The properties\<close>

definition ex_job :: JobEntity where
  "ex_job = \<lparr>je_ID = ''j1'', je_Type = ''mail'', je_ArgsData = [1, 2], je_Status = JobStatusPending, je_Result = [],
     je_Priority = 2, je_CreatedAt = 0, je_UpdatedAt = 0\<rparr>"

definition ex_store :: MemoryJobStore where
  "ex_store = [''j2'' \<mapsto> ex_job\<lparr>je_ID := ''j2'', je_Status := JobStatusRunning\<rparr>, ''j3'' \<mapsto> ex_job\<lparr>je_ID := ''j3''\<rparr>]"

lemma ex_store_invar: "mem_invar ex_store"
  by (auto simp: mem_invar_def ex_store_def ex_job_def)

lemma ex_store_order: "range_order [''j3'', ''j2''] ex_store"
  by (auto simp: range_order_def ex_store_def)

text \<open>
  Storing and reading back. When \<^verbatim>\<open>CreateJob\<close> of the memory store succeeds, the identifier was
  free before, \<^verbatim>\<open>GetJob\<close> returns the entity with its time stamps and nothing else changed, no other
  identifier is affected, and a second \<^verbatim>\<open>CreateJob\<close> with the identifier fails with \<^verbatim>\<open>ErrJobAlreadyExists\<close>
  and leaves the store as it is.
\<close>

theorem memory_create_get_roundtrip:
  assumes "mem_invar s" "mem_CreateJob now j s = (None, s')"
  shows "mem_GetJob (je_ID j) s = Inl (ErrJobNotFound (je_ID j)) \<and>
    mem_GetJob (je_ID j) s' = Inr (j\<lparr>je_CreatedAt := (if je_CreatedAt j = 0 then fst now else je_CreatedAt j),
       je_UpdatedAt := snd now\<rparr>) \<and>
    (\<forall>k. k \<noteq> je_ID j \<longrightarrow> mem_GetJob k s' = mem_GetJob k s) \<and>
    (\<forall>now2 j2. je_ID j2 = je_ID j \<longrightarrow> mem_CreateJob now2 j2 s' = (Some ErrJobAlreadyExists, s'))"
proof -
  have ne: "je_ID j \<noteq> []" using assms(2) by (auto simp: mem_CreateJob_def)
  have "mem_GetJob k s' = mem_GetJob k s" if "k \<noteq> je_ID j" for k
    using mem.create_law [OF assms(1) ne assms(2)] that by (auto simp: mem_GetJob_def split: if_splits)
  moreover have "mem_CreateJob now2 j2 s' = (Some ErrJobAlreadyExists, s')" if "je_ID j2 = je_ID j" for now2 j2
    using mem.create_twice [OF assms(1) ne assms(2) that, of now2]
    by (auto simp: mem_CreateJob_def Let_def split: if_splits option.splits)
  ultimately show ?thesis using mem.get_after_create [OF assms(1) ne assms(2)] by (auto simp: mem_stamp_eq)
qed

text \<open>
  \<^verbatim>\<open>ListJobs\<close> of the memory store, whatever order the map is visited in: it returns a page of the
  matching jobs, each at most once; with \<^verbatim>\<open>Limit\<close> and \<^verbatim>\<open>Offset\<close> 0 exactly all of them, so
  \<^verbatim>\<open>GetRecoverableJobs\<close> returns exactly the pending jobs; and pages whose offsets differ by the limit
  continue each other.
\<close>

theorem memory_list_pages:
  assumes "mem_invar s" "range_order order s"
  shows "\<exists>js. distinct (map je_ID js) \<and> set js = {j. \<exists>i. mem_GetJob i s = Inr j \<and> job_matches f j} \<and>
    (\<forall>limit offset. mem_ListJobs order (f\<lparr>jf_Limit := limit, jf_Offset := offset\<rparr>) s =
       Inr (let rest = drop (nat offset) js in if limit > 0 then take (nat limit) rest else rest))"
proof -
  let ?js = "filter (job_matches f) (List.map_filter s order)"
  have m: "job_matches (f\<lparr>jf_Limit := limit, jf_Offset := offset\<rparr>) = job_matches f" for limit offset
    by (simp add: job_matches_def fun_eq_iff)
  have ids: "map je_ID (List.map_filter s order) = order" "set (List.map_filter s order) = {j. \<exists>i \<in> set order. s i = Some j}"
    using map_filter_ids [of s order] assms by (auto simp: range_order_def)
  have "distinct (map je_ID ?js)" using ids(1) assms(2) by (metis distinct_map_filter range_order_def)
  moreover have "set ?js = {j. \<exists>i. mem_GetJob i s = Inr j \<and> job_matches f j}"
    using ids(2) assms(2) by (auto simp: range_order_def mem_GetJob_def split: option.splits)
  moreover have "mem_ListJobs order (f\<lparr>jf_Limit := limit, jf_Offset := offset\<rparr>) s =
       Inr (let rest = drop (nat offset) ?js in if limit > 0 then take (nat limit) rest else rest)" for limit offset
    using mem_ListJobs_page [of order "f\<lparr>jf_Limit := limit, jf_Offset := offset\<rparr>" s]
    unfolding m by (simp add: page_def)
  ultimately show ?thesis by blast
qed

end
