(* ===== verification/Sqlite_Store.thy ===== *)
theory Sqlite_Store
  imports Job_Store
begin

unbundle bit_operations_syntax

text \<open>
  The SQLite store (\<^verbatim>\<open>job/sqlite/sqlite_job_store.go\<close>, and the same code in
  \<^verbatim>\<open>job/sqlite_job_store.go\<close>) over the statements of \<^verbatim>\<open>queries.sql.go\<close>. The table \<^verbatim>\<open>jobs\<close> is a list of
  rows and each statement is a function on it, by the meaning SQL gives it. What belongs to the
  engine and the driver is an argument: whether a call fails (\<open>fault\<close>), the result code of a
  primary key conflict (\<open>cc\<close>), the order in which a query visits the rows (\<open>scan\<close>), and the order
  of the stored times (\<open>tkey\<close>).
\<close>

section \<open>The statements\<close>

record Job =
  jr_ID :: string
  jr_Type :: string
  jr_ArgsData :: "8 word list"
  jr_Status :: string
  jr_Result :: string
  jr_Priority :: int
  jr_CreatedAt :: int
  jr_UpdatedAt :: int

definition q_InsertJob :: "int \<Rightarrow> db_error option \<Rightarrow> Job \<Rightarrow> Job list \<Rightarrow> db_error option \<times> Job list" where
  "q_InsertJob cc fault row tbl =
     (case fault of
        Some e \<Rightarrow> (Some e, tbl)
      | None \<Rightarrow> if jr_ID row \<in> set (map jr_ID tbl) then (Some (SqliteError cc), tbl) else (None, tbl @ [row]))"

definition q_UpsertJob :: "db_error option \<Rightarrow> Job \<Rightarrow> Job list \<Rightarrow> db_error option \<times> Job list" where
  "q_UpsertJob fault row tbl =
     (case fault of
        Some e \<Rightarrow> (Some e, tbl)
      | None \<Rightarrow> (None, filter (\<lambda>r. jr_ID r \<noteq> jr_ID row) tbl @ [row]))"

text \<open>\<^verbatim>\<open>UPDATE\<close> with the number of rows it affected.\<close>

definition q_UpdateJobStatus ::
  "db_error option \<Rightarrow> string \<Rightarrow> string \<Rightarrow> int \<Rightarrow> string \<Rightarrow> Job list \<Rightarrow> (db_error + nat) \<times> Job list" where
  "q_UpdateJobStatus fault status result updatedAt i tbl =
     (case fault of
        Some e \<Rightarrow> (Inl e, tbl)
      | None \<Rightarrow>
          (Inr (length (filter (\<lambda>r. jr_ID r = i) tbl)),
           map (\<lambda>r. if jr_ID r = i then r\<lparr>jr_Status := status, jr_Result := result, jr_UpdatedAt := updatedAt\<rparr> else r) tbl))"

definition q_GetJob :: "db_error option \<Rightarrow> string \<Rightarrow> Job list \<Rightarrow> db_error + Job" where
  "q_GetJob fault i tbl =
     (case fault of
        Some e \<Rightarrow> Inl e
      | None \<Rightarrow> (case filter (\<lambda>r. jr_ID r = i) tbl of [] \<Rightarrow> Inl ErrNoRows | r # _ \<Rightarrow> Inr r))"

definition q_DeleteJob :: "db_error option \<Rightarrow> string \<Rightarrow> Job list \<Rightarrow> db_error option \<times> Job list" where
  "q_DeleteJob fault i tbl =
     (case fault of Some e \<Rightarrow> (Some e, tbl) | None \<Rightarrow> (None, filter (\<lambda>r. jr_ID r \<noteq> i) tbl))"

text \<open>
  \<^verbatim>\<open>LIMIT CASE WHEN ? = 0 THEN -1 ELSE ? END OFFSET ?\<close>: a negative limit is none, a negative offset
  is 0. Rows come sorted by the time of creation; ties are in the order of the scan.
\<close>

definition case_limit :: "int \<Rightarrow> int \<Rightarrow> int" where
  "case_limit c1 c2 = (if c1 = 0 then - 1 else c2)"

definition limit_offset :: "int \<Rightarrow> int \<Rightarrow> 'a list \<Rightarrow> 'a list" where
  "limit_offset limit offset xs =
     (let ys = drop (nat offset) xs in if limit < 0 then ys else take (nat limit) ys)"

definition order_by_created :: "(int \<Rightarrow> int) \<Rightarrow> Job list \<Rightarrow> Job list" where
  "order_by_created tkey = sort_key (\<lambda>r. tkey (jr_CreatedAt r))"

definition q_rows :: "db_error option \<Rightarrow> Job list \<Rightarrow> db_error + Job list" where
  "q_rows fault rows = (case fault of Some e \<Rightarrow> Inl e | None \<Rightarrow> Inr rows)"

definition q_ListAllJobs :: "(int \<Rightarrow> int) \<Rightarrow> db_error option \<Rightarrow> int \<Rightarrow> int \<Rightarrow> int \<Rightarrow> Job list \<Rightarrow> db_error + Job list" where
  "q_ListAllJobs tkey fault c1 c2 offset scan =
     q_rows fault (limit_offset (case_limit c1 c2) offset (order_by_created tkey scan))"

definition q_ListJobsByStatus ::
  "(int \<Rightarrow> int) \<Rightarrow> db_error option \<Rightarrow> string \<Rightarrow> int \<Rightarrow> int \<Rightarrow> int \<Rightarrow> Job list \<Rightarrow> db_error + Job list" where
  "q_ListJobsByStatus tkey fault status c1 c2 offset scan =
     q_rows fault (limit_offset (case_limit c1 c2) offset
       (order_by_created tkey (filter (\<lambda>r. jr_Status r = status) scan)))"

definition q_ListJobsByType ::
  "(int \<Rightarrow> int) \<Rightarrow> db_error option \<Rightarrow> string \<Rightarrow> int \<Rightarrow> int \<Rightarrow> int \<Rightarrow> Job list \<Rightarrow> db_error + Job list" where
  "q_ListJobsByType tkey fault type c1 c2 offset scan =
     q_rows fault (limit_offset (case_limit c1 c2) offset
       (order_by_created tkey (filter (\<lambda>r. jr_Type r = type) scan)))"

definition q_ListJobsByStatusAndType ::
  "(int \<Rightarrow> int) \<Rightarrow> db_error option \<Rightarrow> string \<Rightarrow> string \<Rightarrow> int \<Rightarrow> int \<Rightarrow> int \<Rightarrow> Job list \<Rightarrow> db_error + Job list" where
  "q_ListJobsByStatusAndType tkey fault status type c1 c2 offset scan =
     q_rows fault (limit_offset (case_limit c1 c2) offset
       (order_by_created tkey (filter (\<lambda>r. jr_Status r = status \<and> jr_Type r = type) scan)))"

definition q_GetPendingJobs :: "(int \<Rightarrow> int) \<Rightarrow> db_error option \<Rightarrow> Job list \<Rightarrow> db_error + Job list" where
  "q_GetPendingJobs tkey fault scan =
     q_rows fault (order_by_created tkey (filter (\<lambda>r. jr_Status r = ''PENDING'') scan))"

section \<open>The store\<close>

definition rowToEntity :: "Job \<Rightarrow> JobEntity" where
  "rowToEntity r =
     \<lparr>je_ID = jr_ID r, je_Type = jr_Type r, je_ArgsData = jr_ArgsData r, je_Status = jr_Status r, je_Result = jr_Result r,
      je_Priority = jr_Priority r, je_CreatedAt = jr_CreatedAt r, je_UpdatedAt = jr_UpdatedAt r\<rparr>"

definition rowsToEntities :: "Job list \<Rightarrow> JobEntity list" where
  "rowsToEntities rows = map rowToEntity rows"

definition entity_row :: "JobEntity \<Rightarrow> Job" where
  "entity_row j =
     \<lparr>jr_ID = je_ID j, jr_Type = je_Type j, jr_ArgsData = je_ArgsData j, jr_Status = je_Status j, jr_Result = je_Result j,
      jr_Priority = je_Priority j, jr_CreatedAt = je_CreatedAt j, jr_UpdatedAt = je_UpdatedAt j\<rparr>"

definition SQLITE_CONSTRAINT :: int where
  "SQLITE_CONSTRAINT = 19"

definition isUniqueConstraintError :: "db_error option \<Rightarrow> bool" where
  "isUniqueConstraintError err =
     (case err of Some (SqliteError code) \<Rightarrow> code AND 0xFF = SQLITE_CONSTRAINT | _ \<Rightarrow> False)"

definition sql_stamp :: "int \<Rightarrow> JobEntity \<Rightarrow> JobEntity" where
  "sql_stamp now j =
     (let j1 = (if je_CreatedAt j = 0 then j\<lparr>je_CreatedAt := now\<rparr> else j) in j1\<lparr>je_UpdatedAt := now\<rparr>)"

text \<open>\<^verbatim>\<open>NewSQLiteJobStore\<close> creates the table when it is missing and keeps an existing one.\<close>

definition NewSQLiteJobStore :: "db_error option \<Rightarrow> Job list option \<Rightarrow> db_error + Job list" where
  "NewSQLiteJobStore fault db =
     (case fault of Some e \<Rightarrow> Inl e | None \<Rightarrow> (case db of None \<Rightarrow> Inr [] | Some tbl \<Rightarrow> Inr tbl))"

definition sql_CreateJob ::
  "int \<Rightarrow> db_error option \<Rightarrow> int \<Rightarrow> JobEntity \<Rightarrow> Job list \<Rightarrow> store_error option \<times> Job list" where
  "sql_CreateJob cc fault now j tbl =
     (if je_ID j = [] then (Some EmptyID, tbl)
      else
        (case q_InsertJob cc fault (entity_row (sql_stamp now j)) tbl of
           (None, tbl') \<Rightarrow> (None, tbl')
         | (Some e, tbl') \<Rightarrow>
             (Some (if isUniqueConstraintError (Some e) then ErrJobAlreadyExists else DriverError e), tbl')))"

definition sql_SaveJob :: "db_error option \<Rightarrow> int \<Rightarrow> JobEntity \<Rightarrow> Job list \<Rightarrow> store_error option \<times> Job list" where
  "sql_SaveJob fault now j tbl =
     (if je_ID j = [] then (Some EmptyID, tbl)
      else (case q_UpsertJob fault (entity_row (sql_stamp now j)) tbl of (e, tbl') \<Rightarrow> (map_option DriverError e, tbl')))"

definition sql_UpdateStatus ::
  "db_error option \<Rightarrow> int \<Rightarrow> string \<Rightarrow> JobStatus \<Rightarrow> string \<Rightarrow> Job list \<Rightarrow> store_error option \<times> Job list" where
  "sql_UpdateStatus fault now i status result tbl =
     (case q_UpdateJobStatus fault status result now i tbl of
        (Inl e, tbl') \<Rightarrow> (Some (DriverError e), tbl')
      | (Inr n, tbl') \<Rightarrow> (if n = 0 then Some (ErrJobNotFound i) else None, tbl'))"

definition sql_GetJob :: "db_error option \<Rightarrow> string \<Rightarrow> Job list \<Rightarrow> store_error + JobEntity" where
  "sql_GetJob fault i tbl =
     (case q_GetJob fault i tbl of
        Inl e \<Rightarrow> Inl (if e = ErrNoRows then ErrJobNotFound i else DriverError e)
      | Inr r \<Rightarrow> Inr (rowToEntity r))"

definition sql_entities :: "db_error + Job list \<Rightarrow> store_error + JobEntity list" where
  "sql_entities res = (case res of Inl e \<Rightarrow> Inl (DriverError e) | Inr rows \<Rightarrow> Inr (rowsToEntities rows))"

definition sql_ListJobs ::
  "(int \<Rightarrow> int) \<Rightarrow> db_error option \<Rightarrow> Job list \<Rightarrow> JobFilter \<Rightarrow> Job list \<Rightarrow> store_error + JobEntity list" where
  "sql_ListJobs tkey fault scan f tbl =
     (let limit = jf_Limit f; offset = jf_Offset f; hasStatus = (jf_Status f \<noteq> []); hasType = (jf_Type f \<noteq> []) in
      if hasStatus \<and> hasType then
        sql_entities (q_ListJobsByStatusAndType tkey fault (jf_Status f) (jf_Type f) limit limit offset scan)
      else if hasStatus then sql_entities (q_ListJobsByStatus tkey fault (jf_Status f) limit limit offset scan)
      else if hasType then sql_entities (q_ListJobsByType tkey fault (jf_Type f) limit limit offset scan)
      else sql_entities (q_ListAllJobs tkey fault limit limit offset scan))"

definition sql_GetRecoverableJobs ::
  "(int \<Rightarrow> int) \<Rightarrow> db_error option \<Rightarrow> Job list \<Rightarrow> Job list \<Rightarrow> store_error + JobEntity list" where
  "sql_GetRecoverableJobs tkey fault scan tbl = sql_entities (q_GetPendingJobs tkey fault scan)"

definition sql_DeleteJob :: "db_error option \<Rightarrow> string \<Rightarrow> Job list \<Rightarrow> store_error option \<times> Job list" where
  "sql_DeleteJob fault i tbl = (case q_DeleteJob fault i tbl of (e, tbl') \<Rightarrow> (map_option DriverError e, tbl'))"

section \<open>The store implements the interface\<close>

definition sql_view :: "Job list \<Rightarrow> string \<rightharpoonup> JobEntity" where
  "sql_view tbl = map_of (map (\<lambda>r. (jr_ID r, rowToEntity r)) tbl)"

definition sql_invar :: "Job list \<Rightarrow> bool" where
  "sql_invar tbl \<longleftrightarrow> distinct (map jr_ID tbl)"

definition scan_order :: "Job list \<Rightarrow> Job list \<Rightarrow> bool" where
  "scan_order scan tbl \<longleftrightarrow> mset scan = mset tbl"

lemma rowToEntity_row [simp]: "rowToEntity (entity_row j) = j"
  by (simp add: rowToEntity_def entity_row_def)

lemma rowToEntity_sel [simp]: "je_ID (rowToEntity r) = jr_ID r" "je_Status (rowToEntity r) = jr_Status r"
  "je_Type (rowToEntity r) = jr_Type r" "je_CreatedAt (rowToEntity r) = jr_CreatedAt r"
  by (simp_all add: rowToEntity_def)

lemma entity_row_ID [simp]: "jr_ID (entity_row j) = je_ID j"
  by (simp add: entity_row_def)

lemma sql_stamp_eq:
  "sql_stamp now j = j\<lparr>je_CreatedAt := (if je_CreatedAt j = 0 then now else je_CreatedAt j), je_UpdatedAt := now\<rparr>"
  by (simp add: sql_stamp_def Let_def)

lemma sql_view_simps [simp]:
  "sql_view [] = Map.empty" "sql_view (r # tbl) = (sql_view tbl)(jr_ID r \<mapsto> rowToEntity r)"
  by (simp_all add: sql_view_def)

lemma sql_view_append: "sql_view (tbl @ tbl') = sql_view tbl' ++ sql_view tbl"
  by (simp add: sql_view_def map_add_def)

lemma sql_view_None: "sql_view tbl i = None \<longleftrightarrow> i \<notin> set (map jr_ID tbl)"
  by (induction tbl) auto

lemma sql_view_delete: "sql_view (filter (\<lambda>r. jr_ID r \<noteq> i) tbl) = (sql_view tbl)(i := None)"
  by (induction tbl) auto

lemma sql_view_snoc:
  "jr_ID r \<notin> set (map jr_ID tbl) \<Longrightarrow> sql_view (tbl @ [r]) = (sql_view tbl)(jr_ID r \<mapsto> rowToEntity r)"
  using sql_view_None [of tbl "jr_ID r"]
  by (auto simp: sql_view_append map_add_def fun_eq_iff split: option.splits)

lemma sql_view_upsert:
  "jr_ID r = i \<Longrightarrow> sql_view (filter (\<lambda>r'. jr_ID r' \<noteq> i) tbl @ [r]) = (sql_view tbl)(i \<mapsto> rowToEntity r)"
  by (subst sql_view_snoc) (auto simp: sql_view_delete)

lemma sql_view_Some:
  assumes "sql_invar tbl"
  shows "sql_view tbl i = Some j \<longleftrightarrow> (\<exists>r \<in> set tbl. jr_ID r = i \<and> rowToEntity r = j)"
proof -
  have "distinct (map fst (map (\<lambda>r. (jr_ID r, rowToEntity r)) tbl))" using assms by (simp add: sql_invar_def comp_def)
  from map_of_eq_Some_iff [OF this] show ?thesis by (auto simp: sql_view_def)
qed

lemma sql_view_update:
  "sql_invar tbl \<Longrightarrow>
   sql_view (map (\<lambda>r. if jr_ID r = i then r\<lparr>jr_Status := st, jr_Result := res, jr_UpdatedAt := t\<rparr> else r) tbl) =
     (case sql_view tbl i of None \<Rightarrow> sql_view tbl
      | Some j \<Rightarrow> (sql_view tbl)(i \<mapsto> j\<lparr>je_Status := st, je_Result := res, je_UpdatedAt := t\<rparr>))"
proof (induction tbl)
  case (Cons r tbl)
  then have IH: "sql_view (map (\<lambda>r. if jr_ID r = i then r\<lparr>jr_Status := st, jr_Result := res, jr_UpdatedAt := t\<rparr> else r) tbl) =
     (case sql_view tbl i of None \<Rightarrow> sql_view tbl
      | Some j \<Rightarrow> (sql_view tbl)(i \<mapsto> j\<lparr>je_Status := st, je_Result := res, je_UpdatedAt := t\<rparr>))"
    and new: "sql_view tbl (jr_ID r) = None" by (auto simp: sql_invar_def sql_view_None)
  show ?case
  proof (cases "jr_ID r = i")
    case True
    with IH new show ?thesis by (simp add: rowToEntity_def)
  next
    case False
    with IH show ?thesis by (auto split: option.splits simp: fun_upd_twist)
  qed
qed simp

lemma update_keeps_ids:
  "map jr_ID (map (\<lambda>r. if jr_ID r = i then r\<lparr>jr_Status := st, jr_Result := res, jr_UpdatedAt := t\<rparr> else r) tbl) = map jr_ID tbl"
  by simp

lemma filter_id_row: "sql_invar tbl \<Longrightarrow>
  filter (\<lambda>r. jr_ID r = i) tbl = [] \<and> sql_view tbl i = None \<or>
  (\<exists>r. filter (\<lambda>r. jr_ID r = i) tbl = [r] \<and> sql_view tbl i = Some (rowToEntity r))"
proof (induction tbl)
  case (Cons r tbl)
  show ?case
  proof (cases "jr_ID r = i")
    case True
    with Cons.prems have "filter (\<lambda>r. jr_ID r = i) tbl = []" by (force simp: sql_invar_def filter_empty_conv image_iff)
    with True show ?thesis by simp
  next
    case False
    with Cons show ?thesis by (auto simp: sql_invar_def)
  qed
qed simp

lemma limit_offset_page: "limit_offset (case_limit limit limit) offset xs = page limit offset xs"
  by (auto simp: limit_offset_def case_limit_def page_def Let_def)

lemma map_page: "map g (page limit offset xs) = page limit offset (map g xs)"
  by (simp add: page_def Let_def take_map drop_map)

text \<open>The four statements of \<^verbatim>\<open>ListJobs\<close> are one query.\<close>

lemma sql_ListJobs_page:
  "sql_ListJobs tkey None scan f tbl = Inr (page (jf_Limit f) (jf_Offset f)
     (map rowToEntity (order_by_created tkey (filter (\<lambda>r. job_matches f (rowToEntity r)) scan))))"
  by (auto simp: sql_ListJobs_def Let_def q_ListJobsByStatusAndType_def q_ListJobsByStatus_def q_ListJobsByType_def
      q_ListAllJobs_def q_rows_def sql_entities_def rowsToEntities_def limit_offset_page map_page job_matches_def)

lemma order_by_created_mset [simp]: "mset (order_by_created tkey rows) = mset rows"
  by (simp add: order_by_created_def)

lemma order_by_created_set [simp]: "set (order_by_created tkey rows) = set rows"
  by (simp add: order_by_created_def)

lemma scanned_ids:
  assumes "sql_invar tbl" "scan_order scan tbl"
  shows "distinct (map je_ID (map rowToEntity (order_by_created tkey (filter P scan))))"
proof -
  have "distinct (map jr_ID scan)"
    using assms mset_eq_imp_distinct_iff [of "map jr_ID scan" "map jr_ID tbl"]
    by (simp add: scan_order_def sql_invar_def)
  then have "distinct (map jr_ID (filter P scan))" by (rule distinct_map_filter)
  then have "distinct (map jr_ID (order_by_created tkey (filter P scan)))"
    using mset_eq_imp_distinct_iff [of "map jr_ID (order_by_created tkey (filter P scan))" "map jr_ID (filter P scan)"]
    by simp
  then show ?thesis by (simp add: comp_def)
qed

locale sqlite_driver =
  fixes cc :: int and tkey :: "int \<Rightarrow> int"
  assumes conflict_code: "cc AND 0xFF = SQLITE_CONSTRAINT"

sublocale sqlite_driver \<subseteq> job_store "sql_CreateJob cc None" "sql_SaveJob None" "sql_UpdateStatus None" "sql_GetJob None"
  "sql_ListJobs tkey None" "sql_GetRecoverableJobs tkey None" "sql_DeleteJob None" sql_view sql_invar scan_order
  sql_stamp "\<lambda>now. now"
proof (unfold_locales, goal_cases)
  case (1 s i j)
  then show ?case by (auto simp: sql_view_Some)
next
  case (2 c j)
  then show ?case by (simp add: sql_stamp_eq)
next
  case (3 s j c e s')
  then show ?case
    using conflict_code
    by (auto simp: sql_CreateJob_def q_InsertJob_def sql_view_None sql_view_snoc isUniqueConstraintError_def sql_stamp_eq
        split: if_splits)
next
  case (4 s j c e s')
  then show ?case by (auto simp: sql_SaveJob_def q_UpsertJob_def sql_view_upsert sql_stamp_eq)
next
  case (5 j c s)
  then show ?case by (simp add: sql_CreateJob_def sql_SaveJob_def)
next
  case (6 s c i st res e s')
  then show ?case
    using filter_id_row [of s i]
    by (auto simp: sql_UpdateStatus_def q_UpdateJobStatus_def sql_view_update split: option.splits)
next
  case (7 s i)
  then show ?case using filter_id_row [of s i] by (auto simp: sql_GetJob_def q_GetJob_def)
next
  case (8 s ord f)
  let ?js = "map rowToEntity (order_by_created tkey (filter (\<lambda>r. job_matches f (rowToEntity r)) ord))"
  have "set ord = set s" using 8(2) by (metis scan_order_def set_mset_mset)
  then have "set ?js = {j. \<exists>i. sql_view s i = Some j \<and> job_matches f j}"
    by (auto simp: sql_view_Some [OF 8(1)])
  with scanned_ids [OF 8] sql_ListJobs_page show ?case by blast
next
  case (9 s ord)
  then show ?case
    by (simp add: sql_GetRecoverableJobs_def q_GetPendingJobs_def sql_ListJobs_def zero_filter_def JobStatusPending_def
        q_ListJobsByStatus_def q_rows_def sql_entities_def limit_offset_page)
next
  case (10 s i e s')
  then show ?case by (auto simp: sql_DeleteJob_def q_DeleteJob_def sql_view_delete)
next
  case (11 s c j i st res)
  have "sql_invar (snd (sql_UpdateStatus None c i st res s))"
    using 11 by (simp add: sql_UpdateStatus_def q_UpdateJobStatus_def sql_invar_def update_keeps_ids del: map_map)
  with 11 show ?case
    by (auto simp: sql_invar_def sql_CreateJob_def q_InsertJob_def sql_SaveJob_def q_UpsertJob_def
        sql_DeleteJob_def q_DeleteJob_def sql_stamp_eq distinct_map_filter)
qed

text \<open>SQLite's extended code for a primary key conflict is \<^verbatim>\<open>SQLITE_CONSTRAINT_PRIMARYKEY\<close>, 1555.\<close>

interpretation sql: sqlite_driver 1555 "\<lambda>t. t"
  by unfold_locales (simp add: SQLITE_CONSTRAINT_def)

section \<open>The two stores side by side\<close>

datatype store_op =
    SCreate int JobEntity | SSave int JobEntity | SUpdate int string JobStatus string | SGet string | SDelete string

datatype store_result = Done "store_error option" | Got "store_error + JobEntity"

fun mem_exec :: "store_op \<Rightarrow> MemoryJobStore \<Rightarrow> store_result \<times> MemoryJobStore" where
  "mem_exec (SCreate t j) s = (case mem_CreateJob (t, t) j s of (e, s') \<Rightarrow> (Done e, s'))"
| "mem_exec (SSave t j) s = (case mem_SaveJob (t, t) j s of (e, s') \<Rightarrow> (Done e, s'))"
| "mem_exec (SUpdate t i st res) s = (case mem_UpdateStatus t i st res s of (e, s') \<Rightarrow> (Done e, s'))"
| "mem_exec (SGet i) s = (Got (mem_GetJob i s), s)"
| "mem_exec (SDelete i) s = (case mem_DeleteJob i s of (e, s') \<Rightarrow> (Done e, s'))"

fun sql_exec :: "int \<Rightarrow> store_op \<Rightarrow> Job list \<Rightarrow> store_result \<times> Job list" where
  "sql_exec cc (SCreate t j) s = (case sql_CreateJob cc None t j s of (e, s') \<Rightarrow> (Done e, s'))"
| "sql_exec cc (SSave t j) s = (case sql_SaveJob None t j s of (e, s') \<Rightarrow> (Done e, s'))"
| "sql_exec cc (SUpdate t i st res) s = (case sql_UpdateStatus None t i st res s of (e, s') \<Rightarrow> (Done e, s'))"
| "sql_exec cc (SGet i) s = (Got (sql_GetJob None i s), s)"
| "sql_exec cc (SDelete i) s = (case sql_DeleteJob None i s of (e, s') \<Rightarrow> (Done e, s'))"

fun exec_all :: "('op \<Rightarrow> 's \<Rightarrow> 'r \<times> 's) \<Rightarrow> 'op list \<Rightarrow> 's \<Rightarrow> 'r list \<times> 's" where
  "exec_all f [] s = ([], s)"
| "exec_all f (op # ops) s = (case f op s of (r, s') \<Rightarrow> case exec_all f ops s' of (rs, s'') \<Rightarrow> (r # rs, s''))"

text \<open>The stores report a missing job of \<^verbatim>\<open>UpdateStatus\<close> with different errors; otherwise results are compared as they are.\<close>

definition same_result :: "store_result \<Rightarrow> store_result \<Rightarrow> bool" where
  "same_result r r' \<longleftrightarrow> r = r' \<or> (\<exists>i. r = Done (Some (NotFoundMessage i)) \<and> r' = Done (Some (ErrJobNotFound i)))"

definition same_store :: "MemoryJobStore \<Rightarrow> Job list \<Rightarrow> bool" where
  "same_store s tbl \<longleftrightarrow> sql_view tbl = s \<and> sql_invar tbl"

lemma same_store_invar: "same_store s tbl \<Longrightarrow> mem_invar s"
  by (auto simp: same_store_def mem_invar_def sql_view_Some)

context sqlite_driver
begin

lemma exec_same:
  assumes "same_store s tbl" "mem_exec op s = (r, s')" "sql_exec cc op tbl = (r', tbl')"
  shows "same_result r r' \<and> same_store s' tbl'"
proof -
  have st: "sql_view tbl = s" "sql_invar tbl" "mem_invar s"
    using assms(1) same_store_invar by (auto simp: same_store_def)
  have stamp: "sql_stamp t j = mem_stamp (t, t) j" for t j by (simp add: sql_stamp_eq mem_stamp_eq)
  show ?thesis
  proof (cases op)
    case (SCreate t j)
    obtain e s1 e' tbl1 where c: "mem_CreateJob (t, t) j s = (e, s1)" "sql_CreateJob cc None t j tbl = (e', tbl1)" by fastforce
    then show ?thesis
      using SCreate assms(2,3) st stamp no_id [of j t tbl] mem.no_id [of j "(t, t)" s]
        mem.create_law [OF st(3) _ c(1)] create_law [OF st(2) _ c(2)] invars [OF st(2), of t j]
      by (cases "je_ID j = []") (auto simp: same_result_def same_store_def split: if_splits)
  next
    case (SSave t j)
    obtain e s1 e' tbl1 where c: "mem_SaveJob (t, t) j s = (e, s1)" "sql_SaveJob None t j tbl = (e', tbl1)" by fastforce
    then show ?thesis
      using SSave assms(2,3) st stamp no_id [of j t tbl] mem.no_id [of j "(t, t)" s]
        mem.save_law [OF st(3) _ c(1)] save_law [OF st(2) _ c(2)] invars [OF st(2), of t j]
      by (cases "je_ID j = []") (auto simp: same_result_def same_store_def)
  next
    case (SUpdate t i status res)
    obtain e s1 e' tbl1 where c: "mem_UpdateStatus t i status res s = (e, s1)" "sql_UpdateStatus None t i status res tbl = (e', tbl1)"
      by fastforce
    have inv: "sql_invar tbl1" using invars [OF st(2)] c(2) by (metis snd_conv)
    have views: "sql_view tbl1 = s1"
      using mem.update_law [OF st(3), of "(t, t)" i status res e s1] update_law [OF st(2) c(2)] c(1) st(1)
      by (auto split: option.splits)
    have "same_result (Done e) (Done e')"
      using c filter_id_row [OF st(2), of i] st(1)
      by (auto simp: same_result_def mem_UpdateStatus_def sql_UpdateStatus_def q_UpdateJobStatus_def)
    with SUpdate assms(2,3) c inv views show ?thesis by (auto simp: same_store_def)
  next
    case (SGet i)
    then show ?thesis
      using assms st get_law [OF st(2), of i] mem.get_law [OF st(3), of i] by (auto simp: same_result_def)
  next
    case (SDelete i)
    obtain e s1 e' tbl1 where c: "mem_DeleteJob i s = (e, s1)" "sql_DeleteJob None i tbl = (e', tbl1)" by fastforce
    then show ?thesis
      using SDelete assms(2,3) st mem.delete_law [OF st(3) c(1)] delete_law [OF st(2) c(2)] invars [OF st(2)]
      by (auto simp: same_result_def same_store_def) (metis snd_conv)
  qed
qed

lemma exec_all_same:
  assumes "same_store s tbl" "exec_all mem_exec ops s = (rs, s')" "exec_all (sql_exec cc) ops tbl = (rs', tbl')"
  shows "list_all2 same_result rs rs' \<and> same_store s' tbl'"
  using assms
proof (induction ops arbitrary: s tbl rs rs')
  case (Cons op ops)
  obtain r s1 where m: "mem_exec op s = (r, s1)" by fastforce
  obtain r' tbl1 where q: "sql_exec cc op tbl = (r', tbl1)" by fastforce
  obtain rs1 rs1' where rest: "exec_all mem_exec ops s1 = (rs1, s')" "exec_all (sql_exec cc) ops tbl1 = (rs1', tbl')"
    "rs = r # rs1" "rs' = r' # rs1'"
    using Cons.prems(2,3) m q by (auto split: prod.splits)
  from exec_same [OF Cons.prems(1) m q] have "same_result r r'" "same_store s1 tbl1" by auto
  with Cons.IH [OF _ rest(1,2)] rest(3,4) show ?case by simp
qed simp

end

section \<open>The properties\<close>


definition ex_store_ops :: "store_op list" where
  "ex_store_ops = [SCreate 5 ex_job, SCreate 6 ex_job, SUpdate 7 ''j1'' JobStatusRunning [], SUpdate 8 ''j9'' JobStatusFailed [],
     SGet ''j1'', SDelete ''j1'', SGet ''j1'']"


text \<open>
  C35: \<^verbatim>\<open>ListJobs\<close> of the SQLite store, by whichever of its four statements: the jobs that match the filter,
  each once, sorted by creation time, cut to the page that \<^verbatim>\<open>Limit\<close> and \<^verbatim>\<open>Offset\<close> ask for, as the
  memory store cuts it. A database failure is passed on as it is.
\<close>

theorem sqlite_list_sorted_page:
  assumes "distinct (map jr_ID tbl)" "mset scan = mset tbl"
  shows "(\<exists>js. sorted (map (\<lambda>j. tkey (je_CreatedAt j)) js) \<and> distinct (map je_ID js) \<and>
      set js = {j. \<exists>i. sql_GetJob None i tbl = Inr j \<and> job_matches f j} \<and>
      sql_ListJobs tkey None scan f tbl = Inr (page (jf_Limit f) (jf_Offset f) js)) \<and>
    (\<forall>e. sql_ListJobs tkey (Some e) scan f tbl = Inl (DriverError e))"
proof -
  have s: "sql_invar tbl" "scan_order scan tbl" using assms by (simp_all add: sql_invar_def scan_order_def)
  let ?js = "map rowToEntity (order_by_created tkey (filter (\<lambda>r. job_matches f (rowToEntity r)) scan))"
  have sorted: "sorted (map (\<lambda>j. tkey (je_CreatedAt j)) ?js)" by (simp add: order_by_created_def comp_def)
  have "set scan = set tbl" using assms(2) by (metis set_mset_mset)
  moreover have "sql_GetJob None i tbl = Inr j \<longleftrightarrow> sql_view tbl i = Some j" for i j
    using sql.get_law [OF s(1), of i] by (simp split: option.splits)
  ultimately have "set ?js = {j. \<exists>i. sql_GetJob None i tbl = Inr j \<and> job_matches f j}"
    by (auto simp: sql_view_Some [OF s(1)])
  moreover have "sql_ListJobs tkey (Some e) scan f tbl = Inl (DriverError e)" for e
    by (simp add: sql_ListJobs_def Let_def q_ListJobsByStatusAndType_def q_ListJobsByStatus_def q_ListJobsByType_def
        q_ListAllJobs_def q_rows_def sql_entities_def)
  ultimately show ?thesis using sorted scanned_ids [OF s] sql_ListJobs_page by blast
qed

definition ex_rows :: "Job list" where
  "ex_rows = [entity_row (ex_job\<lparr>je_CreatedAt := 9\<rparr>), entity_row (ex_job\<lparr>je_ID := ''j2'', je_CreatedAt := 4\<rparr>)]"

theorem sqlite_list_sorted_page_witness:
  "\<exists>js. sorted (map je_CreatedAt js) \<and> set js = {j. \<exists>i. sql_GetJob None i ex_rows = Inr j \<and> job_matches zero_filter j} \<and>
     sql_ListJobs (\<lambda>t. t) None ex_rows zero_filter ex_rows = Inr js"
proof -
  have "distinct (map jr_ID ex_rows)" by (simp add: ex_rows_def ex_job_def entity_row_def)
  from sqlite_list_sorted_page [OF this refl, of "\<lambda>t. t" zero_filter] show ?thesis
    by (auto simp: zero_filter_def)
qed

end
