(* ===== verification/Job_Retry.thy ===== *)
theory Job_Retry
  imports Job_Store
begin

text \<open>
  The logger, the retry policy and the serializer of the job package (\<^verbatim>\<open>job/logger.go\<close>,
  \<^verbatim>\<open>job/job_serializer.go\<close>) and the retry loop of the job manager (\<^verbatim>\<open>retryIOOperation\<close> of
  \<^verbatim>\<open>job/job_manager.go\<close>). Durations are integers; the operations on \<^verbatim>\<open>float64\<close> that \<^verbatim>\<open>calculateDelay\<close>
  uses, the formatting of values and the JSON functions are arguments.
\<close>

section \<open>Logger\<close>

record 'v Field =
  fld_Key :: string
  fld_Value :: 'v

definition F :: "string \<Rightarrow> 'v \<Rightarrow> 'v Field" where
  "F k v = \<lparr>fld_Key = k, fld_Value = v\<rparr>"

text \<open>The loop over the fields; \<open>i\<close> is the index of the first one of the list.\<close>

fun log_fields :: "('v \<Rightarrow> string) \<Rightarrow> nat \<Rightarrow> 'v Field list \<Rightarrow> string \<Rightarrow> string" where
  "log_fields show_v i [] msg = msg"
| "log_fields show_v i (f # fs) msg =
     log_fields show_v (Suc i) fs
       ((if i > 0 then msg @ '', '' else msg) @ fld_Key f @ '': '' @ show_v (fld_Value f))"

definition DefaultLogger_log :: "('v \<Rightarrow> string) \<Rightarrow> string \<Rightarrow> string \<Rightarrow> 'v Field list \<Rightarrow> string" where
  "DefaultLogger_log show_v level msg fs =
     (let logMsg = ''['' @ level @ ''] '' @ msg in
      if length fs > 0 then log_fields show_v 0 fs (logMsg @ '' {'') @ ''}'' else logMsg)"

datatype log_level = Debug | Info | Warn | Error

fun level_name :: "log_level \<Rightarrow> string" where
  "level_name Debug = ''DEBUG''" | "level_name Info = ''INFO''" | "level_name Warn = ''WARN''" | "level_name Error = ''ERROR''"

lemma log_fields_eq:
  "log_fields show_v i fs msg =
     msg @ concat (map (\<lambda>f. '', '' @ fld_Key f @ '': '' @ show_v (fld_Value f)) fs)" if "i > 0"
  using that by (induction fs arbitrary: i msg) auto

text \<open>A line is the fields separated by commas, in braces when there are any.\<close>

lemma DefaultLogger_log_eq:
  "DefaultLogger_log show_v level msg (f # fs) =
     ''['' @ level @ ''] '' @ msg @ '' {'' @ fld_Key f @ '': '' @ show_v (fld_Value f) @
       concat (map (\<lambda>f. '', '' @ fld_Key f @ '': '' @ show_v (fld_Value f)) fs) @ ''}''"
  "DefaultLogger_log show_v level msg [] = ''['' @ level @ ''] '' @ msg"
  by (simp_all add: DefaultLogger_log_def log_fields_eq)

section \<open>Serializer\<close>

datatype serializer_error = MarshalFailed nat | TargetNil | DataEmpty | UnmarshalFailed nat

definition JSONSerializer_Serialize :: "('a \<Rightarrow> nat + string) \<Rightarrow> 'a option \<Rightarrow> serializer_error + string" where
  "JSONSerializer_Serialize marshal args =
     (case args of
        None \<Rightarrow> Inr ''null''
      | Some v \<Rightarrow> (case marshal v of Inl e \<Rightarrow> Inl (MarshalFailed e) | Inr data \<Rightarrow> Inr data))"

text \<open>The target is nil or a variable with its present value, which a failed call may have changed and is not read then.\<close>

definition JSONSerializer_Deserialize ::
  "(string \<Rightarrow> 'a \<Rightarrow> nat + 'a) \<Rightarrow> string \<Rightarrow> 'a option \<Rightarrow> serializer_error + 'a" where
  "JSONSerializer_Deserialize unmarshal data target =
     (case target of
        None \<Rightarrow> Inl TargetNil
      | Some v \<Rightarrow>
          if length data = 0 then Inl DataEmpty
          else (case unmarshal data v of Inl e \<Rightarrow> Inl (UnmarshalFailed e) | Inr w \<Rightarrow> Inr w))"

section \<open>Retry policy\<close>

record 'f RetryPolicy =
  rp_MaxRetries :: int
  rp_InitialDelay :: int
  rp_MaxDelay :: int
  rp_BackoffRatio :: 'f

text \<open>The operations on \<^verbatim>\<open>float64\<close>: conversion from an integer, product, comparison, truncation; and its constants.\<close>

record 'f float_ops =
  f_of_int :: "int \<Rightarrow> 'f"
  f_mul :: "'f \<Rightarrow> 'f \<Rightarrow> 'f"
  f_gt :: "'f \<Rightarrow> 'f \<Rightarrow> bool"
  f_trunc :: "'f \<Rightarrow> int"

definition Millisecond :: int where "Millisecond = 1000000"

definition Second :: int where "Second = 1000 * Millisecond"

definition DefaultRetryPolicy :: "'f float_ops \<Rightarrow> 'f RetryPolicy" where
  "DefaultRetryPolicy fl =
     \<lparr>rp_MaxRetries = 3, rp_InitialDelay = 100 * Millisecond, rp_MaxDelay = 5 * Second, rp_BackoffRatio = f_of_int fl 2\<rparr>"

definition NoRetry :: "'f float_ops \<Rightarrow> 'f RetryPolicy" where
  "NoRetry fl = \<lparr>rp_MaxRetries = 0, rp_InitialDelay = 0, rp_MaxDelay = 0, rp_BackoffRatio = f_of_int fl 1\<rparr>"

fun backoff :: "'f float_ops \<Rightarrow> 'f \<Rightarrow> nat \<Rightarrow> 'f \<Rightarrow> 'f" where
  "backoff fl ratio 0 delay = delay"
| "backoff fl ratio (Suc n) delay = backoff fl ratio n (f_mul fl delay ratio)"

definition calculateDelay :: "'f float_ops \<Rightarrow> 'f RetryPolicy \<Rightarrow> int \<Rightarrow> int" where
  "calculateDelay fl p attempt =
     (if rp_InitialDelay p = 0 then 0
      else
        (let delay = backoff fl (rp_BackoffRatio p) (nat attempt) (f_of_int fl (rp_InitialDelay p));
             delay' = (if f_gt fl delay (f_of_int fl (rp_MaxDelay p)) then f_of_int fl (rp_MaxDelay p) else delay)
         in f_trunc fl delay'))"

section \<open>The retry loop\<close>

text \<open>
  What the loop meets: whether the context is done when an attempt begins, what the operation does
  at each attempt, and whether the context is done before the wait is over.
\<close>

record 's retry_env =
  env_ctx :: "nat \<Rightarrow> store_error option"
  env_fn :: "nat \<Rightarrow> 's \<Rightarrow> store_error option \<times> 's"
  env_wait :: "nat \<Rightarrow> store_error option"

datatype retry_log = LogSucceeded nat | LogRetrying nat | LogWaiting int nat | LogGaveUp int | HandlerCalled "store_error option"

record 's retry_out =
  ro_err :: "store_error option"
  ro_state :: 's
  ro_calls :: nat
  ro_log :: "retry_log list"

function retry_loop ::
  "'f float_ops \<Rightarrow> 'f RetryPolicy \<Rightarrow> bool \<Rightarrow> 's retry_env \<Rightarrow> nat \<Rightarrow> store_error option \<Rightarrow> nat \<Rightarrow> retry_log list \<Rightarrow> 's \<Rightarrow> 's retry_out" where
  "retry_loop fl p has_handler env attempt lastErr calls log s =
     (if int attempt > rp_MaxRetries p then
        \<lparr>ro_err = lastErr, ro_state = s, ro_calls = calls,
         ro_log = log @ [LogGaveUp (rp_MaxRetries p + 1)] @ (if has_handler then [HandlerCalled lastErr] else [])\<rparr>
      else
        (case env_ctx env attempt of
           Some err \<Rightarrow> \<lparr>ro_err = Some err, ro_state = s, ro_calls = calls, ro_log = log\<rparr>
         | None \<Rightarrow>
             (case env_fn env attempt s of
                (None, s') \<Rightarrow>
                  \<lparr>ro_err = None, ro_state = s', ro_calls = Suc calls,
                   ro_log = log @ (if attempt > 0 then [LogSucceeded attempt] else [])\<rparr>
              | (Some err, s') \<Rightarrow>
                  if err = ErrJobAlreadyExists then
                    \<lparr>ro_err = Some err, ro_state = s', ro_calls = Suc calls, ro_log = log\<rparr>
                  else if int attempt < rp_MaxRetries p then
                    (let delay = calculateDelay fl p (int attempt);
                         log' = log @ [LogRetrying attempt, LogWaiting delay (Suc attempt)]
                     in if delay > 0 then
                          (case env_wait env attempt of
                             Some err' \<Rightarrow> \<lparr>ro_err = Some err', ro_state = s', ro_calls = Suc calls, ro_log = log'\<rparr>
                           | None \<Rightarrow> retry_loop fl p has_handler env (Suc attempt) (Some err) (Suc calls) log' s')
                        else retry_loop fl p has_handler env (Suc attempt) (Some err) (Suc calls) log' s')
                  else retry_loop fl p has_handler env (Suc attempt) (Some err) (Suc calls) (log @ [LogRetrying attempt]) s')))"
  by pat_completeness auto

termination
  by (relation "measure (\<lambda>(fl, p, h, env, attempt, e, c, l, s). nat (rp_MaxRetries p + 1 - int attempt))") auto

declare retry_loop.simps [simp del]

definition retryIOOperation :: "'f float_ops \<Rightarrow> 'f RetryPolicy \<Rightarrow> bool \<Rightarrow> 's retry_env \<Rightarrow> 's \<Rightarrow> 's retry_out" where
  "retryIOOperation fl p has_handler env s = retry_loop fl p has_handler env 0 None 0 [] s"

section \<open>What the loop does\<close>

text \<open>The state before attempt \<open>k\<close>, and whether attempt \<open>k\<close> ends the loop by itself.\<close>

fun retry_state :: "'s retry_env \<Rightarrow> nat \<Rightarrow> 's \<Rightarrow> 's" where
  "retry_state env 0 s = s"
| "retry_state env (Suc k) s = snd (env_fn env k (retry_state env k s))"

definition retry_ends :: "'s retry_env \<Rightarrow> 's \<Rightarrow> nat \<Rightarrow> bool" where
  "retry_ends env s k \<longleftrightarrow> fst (env_fn env k (retry_state env k s)) \<in> {None, Some ErrJobAlreadyExists}"

lemma retry_loop_calls:
  "ro_calls (retry_loop fl p h env attempt lastErr calls log s) \<le> calls + nat (rp_MaxRetries p + 1 - int attempt)"
proof (induction "nat (rp_MaxRetries p + 1 - int attempt)" arbitrary: attempt lastErr calls log s)
  case 0
  then have "int attempt > rp_MaxRetries p" by simp
  then show ?case by (subst retry_loop.simps) simp
next
  case (Suc m)
  then have b: "\<not> int attempt > rp_MaxRetries p" by simp
  have IH: "ro_calls (retry_loop fl p h env (Suc attempt) e' (Suc calls) log' s') \<le>
      calls + nat (rp_MaxRetries p + 1 - int attempt)" for e' log' s'
  proof -
    have "m = nat (rp_MaxRetries p + 1 - int (Suc attempt))" using Suc.hyps(2) by simp
    from Suc.hyps(1) [OF this, of e' "Suc calls" log' s'] Suc.hyps(2) show ?thesis by simp
  qed
  have pos: "calls + nat (rp_MaxRetries p + 1 - int attempt) \<ge> Suc calls" using Suc.hyps(2) by simp
  define B where "B = calls + nat (rp_MaxRetries p + 1 - int attempt)"
  note IH' = IH [folded B_def] and pos' = pos [folded B_def]
  obtain o1 s1 where fn: "env_fn env attempt s = (o1, s1)" by fastforce
  have "ro_calls (retry_loop fl p h env attempt lastErr calls log s) \<le> B"
  proof (cases "env_ctx env attempt = None \<and> o1 \<noteq> None \<and> o1 \<noteq> Some ErrJobAlreadyExists")
    case True
    then obtain err where err: "o1 = Some err" "err \<noteq> ErrJobAlreadyExists" "env_ctx env attempt = None" by auto
    show ?thesis
      using IH' pos' by (subst retry_loop.simps) (simp add: b fn err Let_def split: option.split)
  next
    case False
    then consider e where "env_ctx env attempt = Some e" | "env_ctx env attempt = None" "o1 = None"
      | "env_ctx env attempt = None" "o1 = Some ErrJobAlreadyExists" by auto
    then show ?thesis
      using pos' by cases (subst retry_loop.simps, simp add: b fn)+
  qed
  then show ?case by (simp add: B_def)
qed

text \<open>Without cancellation the loop goes on from attempt \<open>k\<close> as long as nothing ends it.\<close>

lemma retry_loop_run:
  assumes "\<And>k. env_ctx env k = None" "\<And>k. env_wait env k = None"
    and "int n \<le> rp_MaxRetries p" "k \<le> n" "\<And>j. j < n \<Longrightarrow> \<not> retry_ends env s j"
  shows "\<exists>lastErr log. retry_loop fl p h env k e0 k l0 (retry_state env k s) =
     retry_loop fl p h env n lastErr n log (retry_state env n s) \<and> (k = n \<longrightarrow> log = l0) \<and>
     (\<forall>c. HandlerCalled c \<in> set log \<longrightarrow> HandlerCalled c \<in> set l0)"
  using assms(4)
proof (induction "n - k" arbitrary: k e0 l0)
  case 0
  then show ?case by auto
next
  case (Suc m)
  then have k: "k < n" by simp
  obtain err s' where fn: "env_fn env k (retry_state env k s) = (Some err, s')" "err \<noteq> ErrJobAlreadyExists"
    using assms(5) [OF k] by (cases "env_fn env k (retry_state env k s)") (auto simp: retry_ends_def)
  have s': "s' = retry_state env (Suc k) s" using fn(1) by simp
  have bounds: "\<not> int k > rp_MaxRetries p" "int k < rp_MaxRetries p" using k assms(3) by auto
  have "retry_loop fl p h env k e0 k l0 (retry_state env k s) =
      retry_loop fl p h env (Suc k) (Some err) (Suc k)
        (l0 @ [LogRetrying k, LogWaiting (calculateDelay fl p (int k)) (Suc k)]) (retry_state env (Suc k) s)"
    unfolding s' [symmetric] by (subst retry_loop.simps) (simp add: bounds assms(1,2) fn Let_def)
  moreover have "m = n - Suc k" "Suc k \<le> n" using Suc.hyps(2) k by auto
  from Suc.hyps(1) [OF this] obtain lastErr log where
    "retry_loop fl p h env (Suc k) (Some err) (Suc k)
        (l0 @ [LogRetrying k, LogWaiting (calculateDelay fl p (int k)) (Suc k)]) (retry_state env (Suc k) s) =
      retry_loop fl p h env n lastErr n log (retry_state env n s)"
    "\<forall>c. HandlerCalled c \<in> set log \<longrightarrow>
       HandlerCalled c \<in> set (l0 @ [LogRetrying k, LogWaiting (calculateDelay fl p (int k)) (Suc k)])" by blast
  ultimately show ?case using k by (intro exI [of _ lastErr] exI [of _ log]) auto
qed

lemma retry_loop_nil:
  assumes "s = retry_state env attempt s0" "lastErr = None \<Longrightarrow> int attempt \<le> rp_MaxRetries p"
    and "ro_err (retry_loop fl p h env attempt lastErr calls log s) = None"
  shows "\<exists>k. fst (env_fn env k (retry_state env k s0)) = None \<and>
     ro_state (retry_loop fl p h env attempt lastErr calls log s) = retry_state env (Suc k) s0"
  using assms
proof (induction "nat (rp_MaxRetries p + 1 - int attempt)" arbitrary: attempt lastErr calls log s)
  case 0
  then have "int attempt > rp_MaxRetries p" by simp
  then have "ro_err (retry_loop fl p h env attempt lastErr calls log s) = lastErr" by (subst retry_loop.simps) simp
  with 0 show ?case by simp
next
  case (Suc m)
  then have b: "\<not> int attempt > rp_MaxRetries p" by simp
  have m: "m = nat (rp_MaxRetries p + 1 - int (Suc attempt))" using Suc.hyps(2) by simp
  obtain o1 s1 where fn: "env_fn env attempt s = (o1, s1)" by fastforce
  have s1: "s1 = retry_state env (Suc attempt) s0" using fn Suc.prems(1) by simp
  let ?r = "retry_loop fl p h env attempt lastErr calls log s"
  have ctx: "env_ctx env attempt = None"
    using Suc.prems(3) by (cases "env_ctx env attempt") (auto simp: retry_loop.simps [of fl p h env attempt] b)
  show ?case
  proof (cases o1)
    case None
    then have "ro_state ?r = s1" by (subst retry_loop.simps) (simp add: b fn ctx)
    moreover have "fst (env_fn env attempt (retry_state env attempt s0)) = None" using None fn Suc.prems(1) by auto
    ultimately show ?thesis using s1 by blast
  next
    case (Some err)
    have "err \<noteq> ErrJobAlreadyExists"
      using Suc.prems(3) Some by (auto simp: retry_loop.simps [of fl p h env attempt] b fn ctx)
    then obtain calls' log' where r: "?r = retry_loop fl p h env (Suc attempt) (Some err) calls' log' s1"
      using Suc.prems(3) Some
      by (auto simp: retry_loop.simps [of fl p h env attempt] b fn ctx Let_def split: if_splits option.splits)
    show ?thesis unfolding r by (rule Suc.hyps(1) [OF m s1]) (use Suc.prems(3) r in simp_all)
  qed
qed

text \<open>A property of the state that every attempt keeps holds at the end.\<close>

lemma retry_loop_keeps:
  assumes "P s" "\<And>k st. P st \<Longrightarrow> P (snd (env_fn env k st))"
  shows "P (ro_state (retry_loop fl p h env attempt lastErr calls log s))"
  using assms(1)
proof (induction "nat (rp_MaxRetries p + 1 - int attempt)" arbitrary: attempt lastErr calls log s)
  case 0
  then show ?case by (subst retry_loop.simps) simp
next
  case (Suc m)
  then have b: "\<not> int attempt > rp_MaxRetries p" by simp
  have m: "m = nat (rp_MaxRetries p + 1 - int (Suc attempt))" using Suc.hyps(2) by simp
  obtain o1 s1 where fn: "env_fn env attempt s = (o1, s1)" by fastforce
  with assms(2) [OF Suc.prems, of attempt] have s1: "P s1" by simp
  note IH = Suc.hyps(1) [OF m s1]
  show ?case
  proof (cases "env_ctx env attempt")
    case None
    show ?thesis
    proof (cases o1)
      case None
      with s1 \<open>env_ctx env attempt = None\<close> show ?thesis by (subst retry_loop.simps) (simp add: b fn)
    next
      case (Some err)
      with s1 IH \<open>env_ctx env attempt = None\<close> show ?thesis
        by (subst retry_loop.simps) (simp add: b fn Let_def split: option.split)
    qed
  next
    case (Some e)
    with Suc.prems show ?thesis by (subst retry_loop.simps) (simp add: b)
  qed
qed

lemma retryIOOperation_keeps:
  "P s \<Longrightarrow> (\<And>k st. P st \<Longrightarrow> P (snd (env_fn env k st))) \<Longrightarrow> P (ro_state (retryIOOperation fl p h env s))"
  unfolding retryIOOperation_def by (rule retry_loop_keeps)

section \<open>The properties\<close>

text \<open>Exact arithmetic on integers for the witnesses, and an operation that fails twice, counting its calls.\<close>

definition ex_float :: "int float_ops" where
  "ex_float = \<lparr>f_of_int = (\<lambda>n. n), f_mul = (\<lambda>x y. x * y), f_gt = (\<lambda>x y. x > y), f_trunc = (\<lambda>x. x)\<rparr>"

definition ex_retry_env :: "nat retry_env" where
  "ex_retry_env = \<lparr>env_ctx = (\<lambda>k. None),
     env_fn = (\<lambda>k n. (if k < 2 then Some (DriverError ErrNoRows) else None, Suc n)), env_wait = (\<lambda>k. None)\<rparr>"



text \<open>
  What the loop returns when the context is never done: the outcome of the first attempt that succeeds or
  finds the job already there, if there is one among the \<^verbatim>\<open>MaxRetries + 1\<close>, and the error handler
  is not called; otherwise the error of the last attempt, with which the error handler is called.
\<close>

theorem retry_outcome:
  assumes "0 \<le> rp_MaxRetries p" "\<And>k. env_ctx env k = None" "\<And>k. env_wait env k = None"
    and "out = retryIOOperation fl p has_handler env s" "M = nat (rp_MaxRetries p)"
  shows "(\<exists>k \<le> M. (\<forall>j < k. \<not> retry_ends env s j) \<and> retry_ends env s k \<and> ro_calls out = Suc k \<and>
        ro_err out = fst (env_fn env k (retry_state env k s)) \<and> ro_state out = retry_state env (Suc k) s \<and>
        (\<forall>e. HandlerCalled e \<notin> set (ro_log out))) \<or>
    (\<forall>k \<le> M. \<not> retry_ends env s k) \<and> ro_calls out = Suc M \<and>
        ro_err out = fst (env_fn env M (retry_state env M s)) \<and> ro_state out = retry_state env (Suc M) s \<and>
        (has_handler \<longrightarrow> HandlerCalled (ro_err out) \<in> set (ro_log out))"
proof (cases "\<exists>k \<le> M. retry_ends env s k")
  case True
  then obtain k where k: "k \<le> M" "retry_ends env s k" "\<And>j. j < k \<Longrightarrow> \<not> retry_ends env s j"
    by (metis exists_least_iff less_imp_le_nat order_trans not_less)
  have kM: "int k \<le> rp_MaxRetries p" using k(1) assms(1,5) by simp
  obtain e log where r: "out = retry_loop fl p has_handler env k e k log (retry_state env k s)"
    "\<forall>c. HandlerCalled c \<notin> set log"
    using retry_loop_run [of env k p 0 s fl has_handler None "[]", OF assms(2,3) kM _ k(3)] assms(4)
    by (auto simp: retryIOOperation_def)
  obtain o1 s1 where fn: "env_fn env k (retry_state env k s) = (o1, s1)" by fastforce
  then consider "o1 = None" | "o1 = Some ErrJobAlreadyExists" using k(2) by (auto simp: retry_ends_def)
  then have "ro_err out = o1 \<and> ro_state out = s1 \<and> ro_calls out = Suc k \<and> (\<forall>c. HandlerCalled c \<notin> set (ro_log out))"
  proof cases
    case 1
    then show ?thesis using r(2) kM unfolding r(1) by (subst (1 2 3 4) retry_loop.simps) (simp add: assms(2) fn)
  next
    case 2
    then show ?thesis using r(2) kM unfolding r(1) by (subst (1 2 3 4) retry_loop.simps) (simp add: assms(2) fn)
  qed
  with k fn show ?thesis by auto
next
  case False
  have M: "int M = rp_MaxRetries p" using assms(1,5) by simp
  obtain e log where r: "out = retry_loop fl p has_handler env M e M log (retry_state env M s)"
    using retry_loop_run [of env M p 0 s fl has_handler None "[]", OF assms(2,3)] assms(4) False M
    by (auto simp: retryIOOperation_def)
  obtain err s1 where fn: "env_fn env M (retry_state env M s) = (Some err, s1)" "err \<noteq> ErrJobAlreadyExists"
    using False by (cases "env_fn env M (retry_state env M s)") (auto simp: retry_ends_def)
  have "out = retry_loop fl p has_handler env (Suc M) (Some err) (Suc M) (log @ [LogRetrying M]) s1"
    unfolding r by (subst retry_loop.simps) (simp add: assms(2) fn M)
  also have "\<dots> = \<lparr>ro_err = Some err, ro_state = s1, ro_calls = Suc M, ro_log = log @ [LogRetrying M] @
      [LogGaveUp (rp_MaxRetries p + 1)] @ (if has_handler then [HandlerCalled (Some err)] else [])\<rparr>"
    by (subst retry_loop.simps) (simp add: M)
  finally show ?thesis using False fn by auto
qed

text \<open>
  A negative \<^verbatim>\<open>MaxRetries\<close>, which \<^verbatim>\<open>SetRetryPolicy\<close> accepts, makes the loop return nil without one
  call of the operation, after reporting to the error handler a failure whose error is nil.
\<close>

theorem negative_retries_skip_operation:
  assumes "rp_MaxRetries p < 0"
  shows "retryIOOperation fl p has_handler env s =
    \<lparr>ro_err = None, ro_state = s, ro_calls = 0,
     ro_log = [LogGaveUp (rp_MaxRetries p + 1)] @ (if has_handler then [HandlerCalled None] else [])\<rparr>"
  using assms unfolding retryIOOperation_def by (subst retry_loop.simps) simp

end
