(* ===== verification/Job_Manager.thy ===== *)
theory Job_Manager
  imports Job_Retry Core_Task
begin

text \<open>
  The job manager of \<^verbatim>\<open>job/job_manager.go\<close> with its three runners. The control and the I/O runner run
  one closure at a time in the order of posting, as the sequenced and the single-thread runner do;
  the execution runner starts its closures in any order and with any overlap. The system interleaves
  the goroutine of each runner with the callers of the public methods and the cancellation of
  contexts; closures are values of datatypes, one constructor for each closure the code builds. The
  store is the memory store, whose operations may also fail; its keys are kept beside it, so that the
  order of a \<^verbatim>\<open>Range\<close> can be any order of them.
\<close>

section \<open>Data\<close>

text \<open>A context is \<^verbatim>\<open>context.Background()\<close> (\<open>None\<close>) or one of a caller, named by a number.\<close>

type_synonym ctx = "nat option"

record activeJobInfo =
  ai_entity :: JobEntity
  ai_parent :: ctx
  ai_cancelled :: bool
  ai_dbSaved :: bool

datatype jm_error =
    JmClosed | JmCtx | JmSerialize serializer_error | JmActive string | JmNoHandler string | JmExists string
  | JmStore store_error | JmNotActive string | JmAlreadyClosed

type_synonym jm_result = "jm_error option"

record ('h, 'f) JobManager =
  jm_handlers :: "string \<rightharpoonup> 'h"
  jm_active :: "string \<rightharpoonup> nat"
  jm_infos :: "activeJobInfo list"
  jm_store :: MemoryJobStore
  jm_keys :: "string list"
  jm_retryPolicy :: "'f RetryPolicy"
  jm_errorHandler :: bool
  jm_closed :: bool
  jm_pendingFinalize :: int
  jm_shutdownRunners :: bool

definition NewJobManager :: "'f float_ops \<Rightarrow> MemoryJobStore \<Rightarrow> string list \<Rightarrow> ('h, 'f) JobManager" where
  "NewJobManager fl store keys =
     \<lparr>jm_handlers = Map.empty, jm_active = Map.empty, jm_infos = [], jm_store = store, jm_keys = keys,
      jm_retryPolicy = DefaultRetryPolicy fl, jm_errorHandler = False, jm_closed = False, jm_pendingFinalize = 0,
      jm_shutdownRunners = True\<rparr>"

definition SetRetryPolicy :: "'f RetryPolicy \<Rightarrow> ('h, 'f) JobManager \<Rightarrow> ('h, 'f) JobManager" where
  "SetRetryPolicy p m = m\<lparr>jm_retryPolicy := p\<rparr>"

definition SetErrorHandler :: "bool \<Rightarrow> ('h, 'f) JobManager \<Rightarrow> ('h, 'f) JobManager" where
  "SetErrorHandler h m = m\<lparr>jm_errorHandler := h\<rparr>"

definition SetShutdownRunners :: "bool \<Rightarrow> ('h, 'f) JobManager \<Rightarrow> ('h, 'f) JobManager" where
  "SetShutdownRunners own m = m\<lparr>jm_shutdownRunners := own\<rparr>"

text \<open>The adapter that \<^verbatim>\<open>RegisterHandler\<close> stores: it decodes the arguments and calls the typed handler.\<close>

definition handler_adapter ::
  "(string \<Rightarrow> 'a \<Rightarrow> nat + 'a) \<Rightarrow> 'a \<Rightarrow> ('a \<Rightarrow> 'e option) \<Rightarrow> string \<Rightarrow> (serializer_error + 'e) option" where
  "handler_adapter unmarshal zero handler rawArgs =
     (case JSONSerializer_Deserialize unmarshal rawArgs (Some zero) of
        Inl e \<Rightarrow> Some (Inl e)
      | Inr args \<Rightarrow> map_option Inr (handler args))"

section \<open>The closures and the goroutines\<close>

datatype 'h ctl_task =
    CtlRegister string 'h nat | CtlUnregister string nat | CtlSubmit nat ctx JobEntity TaskTraits int
  | CtlCancel string nat | CtlFinalize string JobStatus string | CtlRecover JobEntity nat | CtlCancelAll nat

datatype 'h io_task =
    IoPersist nat ctx JobEntity 'h TaskTraits int | IoUpdate "nat option" string JobStatus string
  | IoFinal string JobStatus string | IoRecovery nat ctx

record 'h exec_task =
  ex_entity :: JobEntity
  ex_info :: nat
  ex_handler :: 'h
  ex_traits :: TaskTraits
  ex_delay :: int

text \<open>
  The control goroutine: between closures, in the \<^verbatim>\<open>select\<close> of \<^verbatim>\<open>submitJobIO\<close>, and inside
  \<^verbatim>\<open>finalizeJobControl\<close> after the removal from \<^verbatim>\<open>activeJobs\<close> and after the increment of
  \<^verbatim>\<open>pendingFinalize\<close>.
\<close>

datatype ctl_at = CtlIdle | CtlWait nat nat ctx | CtlFin1 string JobStatus string nat | CtlFin2 string JobStatus string

text \<open>
  The I/O goroutine: between closures; in the closure of \<^verbatim>\<open>submitJobIO\<close> before and after persisting;
  in \<^verbatim>\<open>doRecoveryIO\<close> before the first query, marking interrupted jobs, before the next pending job and waiting for the control
  runner.
\<close>

datatype 'h io_at =
    IoIdle | IoPersisting nat ctx JobEntity 'h TaskTraits int | IoPersisted nat JobEntity 'h TaskTraits int
  | IoRecList nat ctx | IoRecMark nat ctx "JobEntity list" | IoRecNext nat ctx "JobEntity list" | IoRecWait nat ctx nat "JobEntity list"

text \<open>A closure of \<^verbatim>\<open>scheduleExecution\<close>.\<close>

datatype 'h exec_at =
    XCheck "'h exec_task" | XUpdate "'h exec_task" | XHandler "'h exec_task" | XDecide "'h exec_task" "string option"
  | XFinal string JobStatus string | XGone

text \<open>
  The callers: before posting to the control or the I/O runner, waiting for the result, in the
  phases of \<^verbatim>\<open>Shutdown\<close>, returned.
\<close>

datatype 'h caller_at =
    CallPost "'h ctl_task" ctx | CallPostIo ctx | CallWait ctx | CallWaitShut ctx | CallTick ctx | CallPending ctx
  | CallShutControl | CallShutIO | CallShutExec | CallRet jm_result

record ('h, 'f) jm_sys =
  sy_m :: "('h, 'f) JobManager"
  sy_ctl :: "'h ctl_task list"
  sy_ctl_open :: bool
  sy_ctl_at :: ctl_at
  sy_io :: "'h io_task list"
  sy_io_open :: bool
  sy_io_at :: "'h io_at"
  sy_exec :: "'h exec_task list"
  sy_exec_open :: bool
  sy_running :: "'h exec_at list"
  sy_callers :: "'h caller_at list"
  sy_results :: "nat \<rightharpoonup> jm_result"
  sy_io_results :: "nat \<rightharpoonup> jm_result"
  sy_done :: "nat list"
  sy_next :: nat
  sy_ctx_done :: "nat list"
  sy_submitted :: "nat \<rightharpoonup> string"
  sy_scheduled :: "string list"
  sy_executed :: "string list"
  sy_updates :: "(string \<times> JobStatus) list"
  sy_recoveries :: nat
  sy_early :: bool

definition jm_init :: "('h, 'f) JobManager \<Rightarrow> ('h, 'f) jm_sys" where
  "jm_init m =
     \<lparr>sy_m = m, sy_ctl = [], sy_ctl_open = True, sy_ctl_at = CtlIdle, sy_io = [], sy_io_open = True, sy_io_at = IoIdle,
      sy_exec = [], sy_exec_open = True, sy_running = [], sy_callers = [], sy_results = Map.empty, sy_io_results = Map.empty,
      sy_done = [], sy_next = 0, sy_ctx_done = [], sy_submitted = Map.empty, sy_scheduled = [], sy_executed = [],
      sy_updates = [], sy_recoveries = 0, sy_early = True\<rparr>"

definition ctx_done :: "('h, 'f) jm_sys \<Rightarrow> ctx \<Rightarrow> bool" where
  "ctx_done s c = (case c of None \<Rightarrow> False | Some n \<Rightarrow> n \<in> set (sy_ctx_done s))"

text \<open>\<^verbatim>\<open>jobCtx.Err() != nil\<close> for the context of an active job: cancelled itself, or its parent is done.\<close>

definition job_done :: "('h, 'f) jm_sys \<Rightarrow> nat \<Rightarrow> bool" where
  "job_done s k \<longleftrightarrow> ai_cancelled (jm_infos (sy_m s) ! k) \<or> ctx_done s (ai_parent (jm_infos (sy_m s) ! k))"

definition upd_m :: "(('h, 'f) JobManager \<Rightarrow> ('h, 'f) JobManager) \<Rightarrow> ('h, 'f) jm_sys \<Rightarrow> ('h, 'f) jm_sys" where
  "upd_m g s = s\<lparr>sy_m := g (sy_m s)\<rparr>"

definition post_ctl :: "'h ctl_task \<Rightarrow> ('h, 'f) jm_sys \<Rightarrow> ('h, 'f) jm_sys" where
  "post_ctl t s = (if sy_ctl_open s then s\<lparr>sy_ctl := sy_ctl s @ [t]\<rparr> else s)"

definition post_io :: "'h io_task \<Rightarrow> ('h, 'f) jm_sys \<Rightarrow> ('h, 'f) jm_sys" where
  "post_io t s = (if sy_io_open s then s\<lparr>sy_io := sy_io s @ [t]\<rparr> else s)"

definition send_result :: "nat \<Rightarrow> jm_result \<Rightarrow> ('h, 'f) jm_sys \<Rightarrow> ('h, 'f) jm_sys" where
  "send_result c r s = s\<lparr>sy_results := (sy_results s)(c \<mapsto> r)\<rparr>"

definition cancel_info :: "nat \<Rightarrow> ('h, 'f) JobManager \<Rightarrow> ('h, 'f) JobManager" where
  "cancel_info k m = m\<lparr>jm_infos := (jm_infos m)[k := (jm_infos m ! k)\<lparr>ai_cancelled := True\<rparr>]\<rparr>"

definition scheduleExecution :: "JobEntity \<Rightarrow> nat \<Rightarrow> 'h \<Rightarrow> TaskTraits \<Rightarrow> int \<Rightarrow> ('h, 'f) jm_sys \<Rightarrow> ('h, 'f) jm_sys" where
  "scheduleExecution e k h traits delay s =
     (let s1 = s\<lparr>sy_scheduled := sy_scheduled s @ [je_ID e]\<rparr> in
      if sy_exec_open s
      then s1\<lparr>sy_exec := sy_exec s @ [\<lparr>ex_entity = e, ex_info = k, ex_handler = h, ex_traits = traits, ex_delay = delay\<rparr>]\<rparr>
      else s1)"

section \<open>The control runner\<close>

definition submitJobControl :: "nat \<Rightarrow> ctx \<Rightarrow> JobEntity \<Rightarrow> TaskTraits \<Rightarrow> int \<Rightarrow> ('h, 'f) jm_sys \<Rightarrow> ('h, 'f) jm_sys" where
  "submitJobControl c ctx e traits delay s =
     (let m = sy_m s in
      case jm_active m (je_ID e) of
        Some _ \<Rightarrow> send_result c (Some (JmActive (je_ID e))) s
      | None \<Rightarrow>
          (case jm_handlers m (je_Type e) of
             None \<Rightarrow> send_result c (Some (JmNoHandler (je_Type e))) s
           | Some h \<Rightarrow>
               (let k = length (jm_infos m);
                    info = \<lparr>ai_entity = e, ai_parent = ctx, ai_cancelled = False, ai_dbSaved = False\<rparr>;
                    m' = m\<lparr>jm_infos := jm_infos m @ [info], jm_active := (jm_active m)(je_ID e \<mapsto> k)\<rparr>
                in post_io (IoPersist k ctx e h traits delay) (s\<lparr>sy_m := m', sy_ctl_at := CtlWait k c ctx\<rparr>))))"

definition cancelJobControl :: "string \<Rightarrow> ('h, 'f) JobManager \<Rightarrow> jm_result \<times> ('h, 'f) JobManager" where
  "cancelJobControl i m =
     (case jm_active m i of None \<Rightarrow> (Some (JmNotActive i), m) | Some k \<Rightarrow> (None, cancel_info k m))"

text \<open>\<^verbatim>\<open>finalizeJobControl\<close> up to \<^verbatim>\<open>LoadAndDelete\<close>; the rest are the points \<open>CtlFin1\<close> and \<open>CtlFin2\<close>.\<close>

definition finalizeJobControl :: "string \<Rightarrow> JobStatus \<Rightarrow> string \<Rightarrow> ('h, 'f) jm_sys \<Rightarrow> ('h, 'f) jm_sys" where
  "finalizeJobControl i status msg s =
     (case jm_active (sy_m s) i of
        None \<Rightarrow> s
      | Some k \<Rightarrow> (upd_m (\<lambda>m. m\<lparr>jm_active := (jm_active m)(i := None)\<rparr>) s)\<lparr>sy_ctl_at := CtlFin1 i status msg k\<rparr>)"

text \<open>The closure that \<^verbatim>\<open>doRecoveryIO\<close> posts for a pending job, which closes its channel at the end.\<close>

definition recover_closure :: "JobEntity \<Rightarrow> nat \<Rightarrow> ('h, 'f) jm_sys \<Rightarrow> ('h, 'f) jm_sys" where
  "recover_closure job n s =
     (let m = sy_m s; s1 = s\<lparr>sy_done := n # sy_done s\<rparr> in
      case jm_handlers m (je_Type job) of
        None \<Rightarrow> post_io (IoUpdate None (je_ID job) JobStatusFailed ''Missing handler during recovery'') s1
      | Some h \<Rightarrow>
          (let k = length (jm_infos m);
               info = \<lparr>ai_entity = job, ai_parent = None, ai_cancelled = False, ai_dbSaved = True\<rparr>
           in scheduleExecution job k h \<lparr>Priority = je_Priority job\<rparr> 0
                (s1\<lparr>sy_m := m\<lparr>jm_infos := jm_infos m @ [info], jm_active := (jm_active m)(je_ID job \<mapsto> k)\<rparr>\<rparr>)))"

text \<open>\<^verbatim>\<open>Shutdown\<close> cancels every active job; the jobs are found by their keys.\<close>

definition cancel_all :: "('h, 'f) JobManager \<Rightarrow> ('h, 'f) JobManager" where
  "cancel_all m = m\<lparr>jm_infos := map (\<lambda>k. if jm_active m (je_ID (ai_entity (jm_infos m ! k))) = Some k
      then (jm_infos m ! k)\<lparr>ai_cancelled := True\<rparr> else jm_infos m ! k) [0..<length (jm_infos m)]\<rparr>"

fun ctl_exec :: "'h ctl_task \<Rightarrow> ('h, 'f) jm_sys \<Rightarrow> ('h, 'f) jm_sys" where
  "ctl_exec (CtlRegister ty h c) s =
     send_result c None (upd_m (\<lambda>m. m\<lparr>jm_handlers := (jm_handlers m)(ty \<mapsto> h)\<rparr>) s)"
| "ctl_exec (CtlUnregister ty c) s =
     send_result c None (upd_m (\<lambda>m. m\<lparr>jm_handlers := (jm_handlers m)(ty := None)\<rparr>) s)"
| "ctl_exec (CtlSubmit c ctx e traits delay) s = submitJobControl c ctx e traits delay s"
| "ctl_exec (CtlCancel i c) s =
     (case cancelJobControl i (sy_m s) of (r, m) \<Rightarrow> send_result c r (s\<lparr>sy_m := m\<rparr>))"
| "ctl_exec (CtlFinalize i status msg) s = finalizeJobControl i status msg s"
| "ctl_exec (CtlRecover job n) s = recover_closure job n s"
| "ctl_exec (CtlCancelAll c) s = send_result c None (upd_m cancel_all s)"

definition ctl_step :: "('h, 'f) jm_sys \<Rightarrow> ('h, 'f) jm_sys option" where
  "ctl_step s =
     (case sy_ctl_at s of
        CtlIdle \<Rightarrow> (case sy_ctl s of [] \<Rightarrow> None | t # ts \<Rightarrow> Some (ctl_exec t (s\<lparr>sy_ctl := ts\<rparr>)))
      | CtlWait k c ctx \<Rightarrow>
          (case sy_io_results s k of
             None \<Rightarrow> None
           | Some r \<Rightarrow> Some (send_result c r (s\<lparr>sy_ctl_at := CtlIdle\<rparr>)))
      | CtlFin1 i status msg k \<Rightarrow>
          Some ((upd_m (\<lambda>m. (cancel_info k m)\<lparr>jm_pendingFinalize := jm_pendingFinalize m + 1\<rparr>) s)
                 \<lparr>sy_ctl_at := CtlFin2 i status msg\<rparr>)
      | CtlFin2 i status msg \<Rightarrow> Some (post_io (IoFinal i status msg) (s\<lparr>sy_ctl_at := CtlIdle\<rparr>)))"

text \<open>The other branch of the \<^verbatim>\<open>select\<close> in \<^verbatim>\<open>submitJobIO\<close>.\<close>

definition ctl_ctx_step :: "('h, 'f) jm_sys \<Rightarrow> ('h, 'f) jm_sys option" where
  "ctl_ctx_step s =
     (case sy_ctl_at s of
        CtlWait k c ctx \<Rightarrow>
          if ctx_done s ctx then Some (send_result c (Some JmCtx) (s\<lparr>sy_ctl_at := CtlIdle\<rparr>)) else None
      | _ \<Rightarrow> None)"

section \<open>The I/O runner\<close>

text \<open>
  The course of the attempts of one retried operation: the store works, the store fails, or the
  context is found done at the attempt or in the wait before it (never for \<^verbatim>\<open>Background\<close>). Attempts
  beyond the list work.
\<close>

datatype attempt = AttemptOk | AttemptFault nat | AttemptCtx

definition attempt_at :: "attempt list \<Rightarrow> nat \<Rightarrow> attempt" where
  "attempt_at plan k = (if k < length plan then plan ! k else AttemptOk)"

definition store_env ::
  "attempt list \<Rightarrow> bool \<Rightarrow> (MemoryJobStore \<Rightarrow> store_error option \<times> MemoryJobStore) \<Rightarrow> MemoryJobStore retry_env" where
  "store_env plan cancellable fn =
     \<lparr>env_ctx = (\<lambda>k. if cancellable \<and> attempt_at plan k = AttemptCtx then Some CtxError else None),
      env_fn = (\<lambda>k st. case attempt_at plan k of AttemptFault e \<Rightarrow> (Some (DriverError (OtherDbError e)), st) | _ \<Rightarrow> fn st),
      env_wait = (\<lambda>k. if cancellable \<and> attempt_at plan (Suc k) = AttemptCtx then Some CtxError else None)\<rparr>"

definition retried ::
  "'f float_ops \<Rightarrow> attempt list \<Rightarrow> bool \<Rightarrow> (MemoryJobStore \<Rightarrow> store_error option \<times> MemoryJobStore) \<Rightarrow>
     ('h, 'f) JobManager \<Rightarrow> store_error option \<times> MemoryJobStore" where
  "retried fl plan cancellable fn m =
     (let out = retryIOOperation fl (jm_retryPolicy m) (jm_errorHandler m) (store_env plan cancellable fn) (jm_store m)
      in (ro_err out, ro_state out))"

text \<open>\<^verbatim>\<open>persistNewJobIO\<close>, for a store with \<^verbatim>\<open>CreateJob\<close>, and the older way with \<^verbatim>\<open>GetJob\<close> and \<^verbatim>\<open>SaveJob\<close>.\<close>

definition persistNewJobIO ::
  "'f float_ops \<Rightarrow> attempt list \<Rightarrow> int \<times> int \<Rightarrow> bool \<Rightarrow> bool \<Rightarrow> JobEntity \<Rightarrow> ('h, 'f) JobManager \<Rightarrow>
     store_error option \<times> MemoryJobStore" where
  "persistNewJobIO fl plan now durable cancellable e m =
     (if durable then retried fl plan cancellable (mem_CreateJob now e) m
      else
        (case mem_GetJob (je_ID e) (jm_store m) of
           Inr existing \<Rightarrow>
             if je_Status existing = JobStatusPending \<or> je_Status existing = JobStatusRunning
             then (Some ErrJobAlreadyExists, jm_store m)
             else retried fl plan cancellable (mem_SaveJob now e) m
         | Inl _ \<Rightarrow> retried fl plan cancellable (mem_SaveJob now e) m))"

definition set_store :: "string \<Rightarrow> MemoryJobStore \<Rightarrow> ('h, 'f) JobManager \<Rightarrow> ('h, 'f) JobManager" where
  "set_store i st m =
     m\<lparr>jm_store := st, jm_keys := (if st i \<noteq> None \<and> jm_store m i = None then jm_keys m @ [i] else jm_keys m)\<rparr>"

text \<open>The three ways in which the closure of \<^verbatim>\<open>submitJobIO\<close> gives up: it forgets the job and sends the error.\<close>

definition submit_fails :: "nat \<Rightarrow> JobEntity \<Rightarrow> jm_error \<Rightarrow> ('h, 'f) jm_sys \<Rightarrow> ('h, 'f) jm_sys" where
  "submit_fails k e err s =
     (let s1 = upd_m (\<lambda>m. cancel_info k (m\<lparr>jm_active := (jm_active m)(je_ID e := None)\<rparr>)) s
      in s1\<lparr>sy_io_results := (sy_io_results s)(k \<mapsto> Some err), sy_io_at := IoIdle\<rparr>)"

text \<open>\<^verbatim>\<open>updateStatusIO\<close> and the closure of \<^verbatim>\<open>finalizeJobControl\<close>: a retried \<^verbatim>\<open>UpdateStatus\<close> whose error is dropped.\<close>

definition update_io ::
  "'f float_ops \<Rightarrow> attempt list \<Rightarrow> int \<Rightarrow> bool \<Rightarrow> string \<Rightarrow> JobStatus \<Rightarrow> string \<Rightarrow> ('h, 'f) jm_sys \<Rightarrow> ('h, 'f) jm_sys" where
  "update_io fl plan now cancellable i status msg s =
     (case retried fl plan cancellable (mem_UpdateStatus now i status msg) (sy_m s) of
        (e, st) \<Rightarrow> (upd_m (set_store i st) s)\<lparr>sy_updates := sy_updates s @ [(i, status)]\<rparr>)"

definition io_begin ::
  "'f float_ops \<Rightarrow> attempt list \<Rightarrow> int \<times> int \<Rightarrow> 'h io_task \<Rightarrow> ('h, 'f) jm_sys \<Rightarrow> ('h, 'f) jm_sys" where
  "io_begin fl plan now t s =
     (case t of
        IoPersist k ctx e h traits delay \<Rightarrow>
          if job_done s k then submit_fails k e JmCtx s else s\<lparr>sy_io_at := IoPersisting k ctx e h traits delay\<rparr>
      | IoUpdate ref i status msg \<Rightarrow> update_io fl plan (snd now) (ref \<noteq> None) i status msg s
      | IoFinal i status msg \<Rightarrow>
          upd_m (\<lambda>m. m\<lparr>jm_pendingFinalize := jm_pendingFinalize m - 1\<rparr>) (update_io fl plan (snd now) False i status msg s)
      | IoRecovery c ctx \<Rightarrow> s\<lparr>sy_io_at := IoRecList c ctx\<rparr>)"

definition recovery_ends :: "nat \<Rightarrow> jm_result \<Rightarrow> ('h, 'f) jm_sys \<Rightarrow> ('h, 'f) jm_sys" where
  "recovery_ends c r s = send_result c r (s\<lparr>sy_io_at := IoIdle\<rparr>)"

definition jobs_of :: "store_error + JobEntity list \<Rightarrow> JobEntity list" where
  "jobs_of r = (case r of Inl _ \<Rightarrow> [] | Inr js \<Rightarrow> js)"

definition query_error :: "attempt \<Rightarrow> store_error" where
  "query_error a = (case a of AttemptFault e \<Rightarrow> DriverError (OtherDbError e) | _ \<Rightarrow> CtxError)"

text \<open>
  One step of the I/O goroutine; \<open>order\<close> is the order of a \<^verbatim>\<open>Range\<close> over the store. A query of the
  recovery fails when its first attempt is not one that works.
\<close>

definition io_step ::
  "'f float_ops \<Rightarrow> bool \<Rightarrow> attempt list \<Rightarrow> int \<times> int \<Rightarrow> string list \<Rightarrow> ('h, 'f) jm_sys \<Rightarrow> ('h, 'f) jm_sys option" where
  "io_step fl durable plan now order s =
     (let m = sy_m s; ordered = (distinct order \<and> set order = set (jm_keys m)) in
      case sy_io_at s of
        IoIdle \<Rightarrow> (case sy_io s of [] \<Rightarrow> None | t # ts \<Rightarrow> Some (io_begin fl plan now t (s\<lparr>sy_io := ts\<rparr>)))
      | IoPersisting k ctx e h traits delay \<Rightarrow>
          (case persistNewJobIO fl plan now durable (ctx \<noteq> None) e m of
             (None, st) \<Rightarrow> Some ((upd_m (set_store (je_ID e) st) s)\<lparr>sy_io_at := IoPersisted k e h traits delay\<rparr>)
           | (Some err, st) \<Rightarrow>
               Some (submit_fails k e (if err = ErrJobAlreadyExists then JmExists (je_ID e) else JmStore err)
                  (upd_m (set_store (je_ID e) st) s)))
      | IoPersisted k e h traits delay \<Rightarrow>
          if job_done s k then Some (submit_fails k e JmCtx s)
          else
            (let s1 = upd_m (\<lambda>m. m\<lparr>jm_infos := (jm_infos m)[k := (jm_infos m ! k)\<lparr>ai_dbSaved := True\<rparr>]\<rparr>) s
             in Some ((scheduleExecution e k h traits delay s1)
                  \<lparr>sy_io_results := (sy_io_results s)(k \<mapsto> None), sy_io_at := IoIdle\<rparr>))
      | IoRecList c ctx \<Rightarrow>
          if \<not> ordered then None
          else (case attempt_at plan 0 of
                  AttemptOk \<Rightarrow>
                    Some (s\<lparr>sy_io_at := IoRecMark c ctx
                       (jobs_of (mem_ListJobs order (zero_filter\<lparr>jf_Status := JobStatusRunning\<rparr>) (jm_store m)))\<rparr>)
                | failed \<Rightarrow> Some (recovery_ends c (Some (JmStore (query_error failed))) s))
      | IoRecMark c ctx (job # jobs) \<Rightarrow>
          Some ((update_io fl plan (snd now) (ctx \<noteq> None) (je_ID job) JobStatusFailed ''Interrupted by restart'' s)
                 \<lparr>sy_io_at := IoRecMark c ctx jobs\<rparr>)
      | IoRecMark c ctx [] \<Rightarrow>
          if \<not> ordered then None
          else (case attempt_at plan 0 of
                  AttemptOk \<Rightarrow>
                    Some (s\<lparr>sy_io_at := IoRecNext c ctx (jobs_of (mem_GetRecoverableJobs order (jm_store m))),
                       sy_recoveries := Suc (sy_recoveries s), sy_early := (sy_early s \<and> sy_scheduled s = [])\<rparr>)
                | failed \<Rightarrow> Some (recovery_ends c (Some (JmStore (query_error failed))) s))
      | IoRecNext c ctx (job # jobs) \<Rightarrow>
          Some (post_ctl (CtlRecover job (sy_next s)) (s\<lparr>sy_next := Suc (sy_next s), sy_io_at := IoRecWait c ctx (sy_next s) jobs\<rparr>))
      | IoRecNext c ctx [] \<Rightarrow> Some (recovery_ends c None s)
      | IoRecWait c ctx n jobs \<Rightarrow>
          if n \<in> set (sy_done s) then Some (s\<lparr>sy_io_at := IoRecNext c ctx jobs\<rparr>) else None)"

definition io_ctx_step :: "('h, 'f) jm_sys \<Rightarrow> ('h, 'f) jm_sys option" where
  "io_ctx_step s =
     (case sy_io_at s of
        IoRecWait c ctx n jobs \<Rightarrow> if ctx_done s ctx then Some (recovery_ends c (Some JmCtx) s) else None
      | _ \<Rightarrow> None)"

section \<open>The execution runner\<close>

datatype handler_outcome = HandlerOk | HandlerErr string | HandlerPanic string

fun exec_step :: "handler_outcome \<Rightarrow> 'h exec_at \<Rightarrow> ('h, 'f) jm_sys \<Rightarrow> ('h exec_at \<times> ('h, 'f) jm_sys) option" where
  "exec_step out (XCheck t) s =
     Some (if job_done s (ex_info t) then XFinal (je_ID (ex_entity t)) JobStatusCanceled ''Canceled before execution''
           else XUpdate t, s)"
| "exec_step out (XUpdate t) s =
     Some (XHandler t, post_io (IoUpdate (Some (ex_info t)) (je_ID (ex_entity t)) JobStatusRunning []) s)"
| "exec_step out (XHandler t) s =
     Some (XDecide t (case out of HandlerOk \<Rightarrow> None | HandlerErr msg \<Rightarrow> Some msg | HandlerPanic r \<Rightarrow> Some (''panic: '' @ r)),
           s\<lparr>sy_executed := sy_executed s @ [je_ID (ex_entity t)]\<rparr>)"
| "exec_step out (XDecide t err) s =
     Some (case err of
             None \<Rightarrow> XFinal (je_ID (ex_entity t)) JobStatusCompleted []
           | Some msg \<Rightarrow>
               if job_done s (ex_info t) then XFinal (je_ID (ex_entity t)) JobStatusCanceled ''Job canceled''
               else XFinal (je_ID (ex_entity t)) JobStatusFailed msg, s)"
| "exec_step out (XFinal i status msg) s = Some (XGone, post_ctl (CtlFinalize i status msg) s)"
| "exec_step out XGone s = None"

section \<open>The callers\<close>

definition GetActiveJobCount :: "('h, 'f) JobManager \<Rightarrow> nat" where
  "GetActiveJobCount m =
     length (filter (\<lambda>k. jm_active m (je_ID (ai_entity (jm_infos m ! k))) = Some k) [0..<length (jm_infos m)])"

definition GetActiveJobs :: "('h, 'f) JobManager \<Rightarrow> JobEntity list" where
  "GetActiveJobs m =
     map (\<lambda>k. ai_entity (jm_infos m ! k))
       (filter (\<lambda>k. jm_active m (je_ID (ai_entity (jm_infos m ! k))) = Some k) [0..<length (jm_infos m)])"

definition add_caller :: "'h caller_at \<Rightarrow> ('h, 'f) jm_sys \<Rightarrow> ('h, 'f) jm_sys" where
  "add_caller pc s = s\<lparr>sy_callers := sy_callers s @ [pc]\<rparr>"

text \<open>\<^verbatim>\<open>SubmitDelayedJob\<close> up to its post; \<open>ser\<close> is what the serializer returned.\<close>

definition SubmitDelayedJob ::
  "int \<Rightarrow> ctx \<Rightarrow> string \<Rightarrow> string \<Rightarrow> serializer_error + 8 word list \<Rightarrow> int \<Rightarrow> TaskTraits \<Rightarrow> ('h, 'f) jm_sys \<Rightarrow> ('h, 'f) jm_sys" where
  "SubmitDelayedJob now ctx i jobType ser delay traits s =
     (if jm_closed (sy_m s) then add_caller (CallRet (Some JmClosed)) s
      else if ctx_done s ctx then add_caller (CallRet (Some JmCtx)) s
      else
        (case ser of
           Inl e \<Rightarrow> add_caller (CallRet (Some (JmSerialize e))) s
         | Inr args \<Rightarrow>
             (let entity = \<lparr>je_ID = i, je_Type = jobType, je_ArgsData = args, je_Status = JobStatusPending, je_Result = [],
                  je_Priority = Priority traits, je_CreatedAt = now, je_UpdatedAt = 0\<rparr>;
                  c = length (sy_callers s)
              in add_caller (CallPost (CtlSubmit c ctx entity traits delay) ctx)
                   (s\<lparr>sy_submitted := (sy_submitted s)(c \<mapsto> i)\<rparr>))))"

definition SubmitJob ::
  "int \<Rightarrow> ctx \<Rightarrow> string \<Rightarrow> string \<Rightarrow> serializer_error + 8 word list \<Rightarrow> TaskTraits \<Rightarrow> ('h, 'f) jm_sys \<Rightarrow> ('h, 'f) jm_sys" where
  "SubmitJob now ctx i jobType ser traits s = SubmitDelayedJob now ctx i jobType ser 0 traits s"

definition closed_or_post :: "(nat \<Rightarrow> 'h ctl_task) \<Rightarrow> ctx \<Rightarrow> ('h, 'f) jm_sys \<Rightarrow> ('h, 'f) jm_sys" where
  "closed_or_post t ctx s =
     (if jm_closed (sy_m s) then add_caller (CallRet (Some JmClosed)) s
      else add_caller (CallPost (t (length (sy_callers s))) ctx) s)"

definition RegisterHandler :: "ctx \<Rightarrow> string \<Rightarrow> 'h \<Rightarrow> ('h, 'f) jm_sys \<Rightarrow> ('h, 'f) jm_sys" where
  "RegisterHandler ctx ty h = closed_or_post (CtlRegister ty h) ctx"

definition UnregisterHandler :: "ctx \<Rightarrow> string \<Rightarrow> ('h, 'f) jm_sys \<Rightarrow> ('h, 'f) jm_sys" where
  "UnregisterHandler ctx ty = closed_or_post (CtlUnregister ty) ctx"

definition CancelJob :: "ctx \<Rightarrow> string \<Rightarrow> ('h, 'f) jm_sys \<Rightarrow> ('h, 'f) jm_sys" where
  "CancelJob ctx i = closed_or_post (CtlCancel i) ctx"

definition Start :: "ctx \<Rightarrow> ('h, 'f) jm_sys \<Rightarrow> ('h, 'f) jm_sys" where
  "Start ctx s = add_caller (CallPostIo ctx) s"

definition jm_Shutdown :: "ctx \<Rightarrow> ('h, 'f) jm_sys \<Rightarrow> ('h, 'f) jm_sys" where
  "jm_Shutdown ctx s =
     (if jm_closed (sy_m s) then add_caller (CallRet (Some JmAlreadyClosed)) s
      else add_caller (CallPost (CtlCancelAll (length (sy_callers s))) ctx) (upd_m (\<lambda>m. m\<lparr>jm_closed := True\<rparr>) s))"

definition waits_shutdown :: "'h ctl_task \<Rightarrow> bool" where
  "waits_shutdown t = (case t of CtlCancelAll _ \<Rightarrow> True | _ \<Rightarrow> False)"

text \<open>One step of caller \<open>c\<close>; its number is the name of its result channel. The loop of \<^verbatim>\<open>Shutdown\<close> reads the two counts one after the other.\<close>

fun caller_step :: "nat \<Rightarrow> 'h caller_at \<Rightarrow> ('h, 'f) jm_sys \<Rightarrow> ('h caller_at \<times> ('h, 'f) jm_sys) option" where
  "caller_step c (CallPost t ctx) s = Some (if waits_shutdown t then CallWaitShut ctx else CallWait ctx, post_ctl t s)"
| "caller_step c (CallPostIo ctx) s = Some (CallWait ctx, post_io (IoRecovery c ctx) s)"
| "caller_step c (CallWait ctx) s = map_option (\<lambda>r. (CallRet r, s)) (sy_results s c)"
| "caller_step c (CallWaitShut ctx) s = map_option (\<lambda>r. (CallTick ctx, s)) (sy_results s c)"
| "caller_step c (CallTick ctx) s = Some (if GetActiveJobCount (sy_m s) = 0 then CallPending ctx else CallTick ctx, s)"
| "caller_step c (CallPending ctx) s =
     Some (if jm_pendingFinalize (sy_m s) = 0
           then (if jm_shutdownRunners (sy_m s) then CallShutControl else CallRet None) else CallTick ctx, s)"
| "caller_step c CallShutControl s = Some (CallShutIO, s\<lparr>sy_ctl_open := False, sy_ctl := []\<rparr>)"
| "caller_step c CallShutIO s = Some (CallShutExec, s\<lparr>sy_io_open := False, sy_io := []\<rparr>)"
| "caller_step c CallShutExec s = Some (CallRet None, s\<lparr>sy_exec_open := False, sy_exec := []\<rparr>)"
| "caller_step c (CallRet r) s = None"

text \<open>A caller that waits returns when its context is done.\<close>

fun caller_ctx :: "'h caller_at \<Rightarrow> ctx option" where
  "caller_ctx (CallWait ctx) = Some ctx" | "caller_ctx (CallWaitShut ctx) = Some ctx" | "caller_ctx (CallTick ctx) = Some ctx"
| "caller_ctx _ = None"

section \<open>The system\<close>

datatype 'h jm_label =
    LSubmit int ctx string string "serializer_error + 8 word list" int TaskTraits
  | LRegister ctx string 'h | LUnregister ctx string | LCancel ctx string | LStart ctx | LShutdown ctx
  | LCaller nat | LCallerCtx nat | LCtl | LCtlCtx | LIo "attempt list" "int \<times> int" "string list" | LIoCtx
  | LExecStart nat | LExec nat handler_outcome | LCtxDone nat

definition set_running :: "nat \<Rightarrow> 'h exec_at \<times> ('h, 'f) jm_sys \<Rightarrow> ('h, 'f) jm_sys" where
  "set_running i r = (case r of (pc, s) \<Rightarrow> s\<lparr>sy_running := (sy_running s)[i := pc]\<rparr>)"

definition set_caller :: "nat \<Rightarrow> 'h caller_at \<times> ('h, 'f) jm_sys \<Rightarrow> ('h, 'f) jm_sys" where
  "set_caller c r = (case r of (pc, s) \<Rightarrow> s\<lparr>sy_callers := (sy_callers s)[c := pc]\<rparr>)"

fun jm_step :: "'f float_ops \<Rightarrow> bool \<Rightarrow> 'h jm_label \<Rightarrow> ('h, 'f) jm_sys \<Rightarrow> ('h, 'f) jm_sys option" where
  "jm_step fl durable (LSubmit now ctx i ty ser delay traits) s = Some (SubmitDelayedJob now ctx i ty ser delay traits s)"
| "jm_step fl durable (LRegister ctx ty h) s = Some (RegisterHandler ctx ty h s)"
| "jm_step fl durable (LUnregister ctx ty) s = Some (UnregisterHandler ctx ty s)"
| "jm_step fl durable (LCancel ctx i) s = Some (CancelJob ctx i s)"
| "jm_step fl durable (LStart ctx) s = Some (Start ctx s)"
| "jm_step fl durable (LShutdown ctx) s = Some (jm_Shutdown ctx s)"
| "jm_step fl durable (LCaller c) s =
     (if c < length (sy_callers s) then map_option (set_caller c) (caller_step c (sy_callers s ! c) s) else None)"
| "jm_step fl durable (LCallerCtx c) s =
     (if c < length (sy_callers s) \<and> (case caller_ctx (sy_callers s ! c) of None \<Rightarrow> False | Some ctx \<Rightarrow> ctx_done s ctx)
      then Some (set_caller c (CallRet (Some JmCtx), s)) else None)"
| "jm_step fl durable LCtl s = ctl_step s"
| "jm_step fl durable LCtlCtx s = ctl_ctx_step s"
| "jm_step fl durable (LIo plan now order) s = io_step fl durable plan now order s"
| "jm_step fl durable LIoCtx s = io_ctx_step s"
| "jm_step fl durable (LExecStart i) s =
     (if i < length (sy_exec s)
      then Some (s\<lparr>sy_exec := take i (sy_exec s) @ drop (Suc i) (sy_exec s),
                   sy_running := sy_running s @ [XCheck (sy_exec s ! i)]\<rparr>)
      else None)"
| "jm_step fl durable (LExec i out) s =
     (if i < length (sy_running s) then map_option (set_running i) (exec_step out (sy_running s ! i) s) else None)"
| "jm_step fl durable (LCtxDone n) s = Some (s\<lparr>sy_ctx_done := n # sy_ctx_done s\<rparr>)"

text \<open>
  A manager that starts: new, configured, over a store with given contents.
\<close>

definition fresh_manager :: "('h, 'f) JobManager \<Rightarrow> bool" where
  "fresh_manager m \<longleftrightarrow> jm_handlers m = Map.empty \<and> jm_active m = Map.empty \<and> jm_infos m = [] \<and> \<not> jm_closed m \<and>
     jm_pendingFinalize m = 0 \<and> mem_invar (jm_store m) \<and> range_order (jm_keys m) (jm_store m) \<and>
     0 \<le> rp_MaxRetries (jm_retryPolicy m)"

abbreviation jm_reachable :: "'f float_ops \<Rightarrow> bool \<Rightarrow> ('h, 'f) jm_sys \<Rightarrow> bool" where
  "jm_reachable fl durable \<equiv> reach (\<lambda>s. \<exists>m. fresh_manager m \<and> s = jm_init m) (lstep (jm_step fl durable))"

end
