(* ===== verification/Job_Manager_Inv.thy ===== *)
theory Job_Manager_Inv
  imports Job_Manager
begin

text \<open>
  The invariants of the job manager: consistency of its maps, acknowledgement of a submission only
  after it is in the store, and execution of a job at most once; and the behaviours that its
  recovery and its shutdown allow.
\<close>

section \<open>The retried store operations\<close>

lemma retried_keeps:
  assumes "P (jm_store m)" "\<And>st. P st \<Longrightarrow> P (snd (fn st))" "retried fl plan canc fn m = (e, st)"
  shows "P st"
proof -
  have "P (ro_state (retryIOOperation fl (jm_retryPolicy m) (jm_errorHandler m) (store_env plan canc fn) (jm_store m)))"
    by (rule retryIOOperation_keeps [where P = P]) (use assms in \<open>auto simp: store_env_def split: attempt.split\<close>)
  with assms(3) show ?thesis by (simp add: retried_def Let_def)
qed

lemma update_status_keeps:
  "dom (snd (mem_UpdateStatus now i status msg st)) = dom st"
  "mem_invar st \<Longrightarrow> mem_invar (snd (mem_UpdateStatus now i status msg st))"
  by (auto simp: mem_UpdateStatus_def mem_invar_def split: option.splits)

lemma retried_update:
  assumes "mem_invar (jm_store m)" "retried fl plan canc (mem_UpdateStatus now i status msg) m = (e, st)"
  shows "dom st = dom (jm_store m)" "mem_invar st"
  using retried_keeps [of "\<lambda>st. dom st = dom (jm_store m) \<and> mem_invar st", OF _ _ assms(2)] assms(1)
  by (auto simp: update_status_keeps)

definition created :: "int \<times> int \<Rightarrow> JobEntity \<Rightarrow> MemoryJobStore \<Rightarrow> MemoryJobStore \<Rightarrow> bool" where
  "created now e st0 st \<longleftrightarrow> je_ID e \<noteq> [] \<and> st0 (je_ID e) = None \<and> st = st0(je_ID e \<mapsto> mem_stamp now e)"

lemma create_cases:
  assumes "st = st0 \<or> created now e st0 st"
  shows "snd (mem_CreateJob now e st) = st0 \<or> created now e st0 (snd (mem_CreateJob now e st))"
    and "fst (mem_CreateJob now e st) = None \<longleftrightarrow> st = st0 \<and> je_ID e \<noteq> [] \<and> st0 (je_ID e) = None"
  using assms by (auto simp: mem_CreateJob_def created_def Let_def split: option.splits)

lemma retried_create:
  assumes pol: "0 \<le> rp_MaxRetries (jm_retryPolicy m)" and r: "retried fl plan canc (mem_CreateJob now e) m = (err, st)"
  shows "st = jm_store m \<or> created now e (jm_store m) st" and "err = None \<Longrightarrow> created now e (jm_store m) st"
proof -
  let ?env = "store_env plan canc (mem_CreateJob now e)" and ?st0 = "jm_store m"
  show "st = ?st0 \<or> created now e ?st0 st"
    using retried_keeps [of "\<lambda>st. st = ?st0 \<or> created now e ?st0 st", OF _ _ r] create_cases(1) by blast
  have inv: "retry_state ?env k ?st0 = ?st0 \<or> created now e ?st0 (retry_state ?env k ?st0)" for k
  proof (induction k)
    case (Suc k)
    with create_cases(1) [OF Suc] show ?case by (simp add: store_env_def split: attempt.split)
  qed simp
  assume "err = None"
  with r have "ro_err (retryIOOperation fl (jm_retryPolicy m) (jm_errorHandler m) ?env ?st0) = None"
    by (simp add: retried_def Let_def)
  from retry_loop_nil [of ?st0 ?env 0 ?st0 None "jm_retryPolicy m" fl "jm_errorHandler m" 0 "[]"] this pol
  obtain k where k: "fst (env_fn ?env k (retry_state ?env k ?st0)) = None" "st = retry_state ?env (Suc k) ?st0"
    using r by (auto simp: retryIOOperation_def retried_def Let_def)
  then have fn: "env_fn ?env k (retry_state ?env k ?st0) = mem_CreateJob now e (retry_state ?env k ?st0)"
    by (auto simp: store_env_def split: attempt.splits)
  with k(1) create_cases(2) [OF inv [of k]]
  have "retry_state ?env k ?st0 = ?st0" "je_ID e \<noteq> []" "?st0 (je_ID e) = None" by auto
  with k(2) fn show "created now e ?st0 st" by (simp add: mem_CreateJob_def created_def Let_def)
qed

section \<open>Consistency of the maps\<close>

definition inv_active :: "('h, 'f) JobManager \<Rightarrow> bool" where
  "inv_active m \<longleftrightarrow> (\<forall>i k. jm_active m i = Some k \<longrightarrow> k < length (jm_infos m) \<and> je_ID (ai_entity (jm_infos m ! k)) = i)"

definition inv_store :: "('h, 'f) JobManager \<Rightarrow> bool" where
  "inv_store m \<longleftrightarrow> mem_invar (jm_store m) \<and> range_order (jm_keys m) (jm_store m) \<and> 0 \<le> rp_MaxRetries (jm_retryPolicy m)"

abbreviation entity_of :: "('h, 'f) JobManager \<Rightarrow> nat \<Rightarrow> JobEntity" where
  "entity_of m k \<equiv> ai_entity (jm_infos m ! k)"

text \<open>
  What a change of the manager keeps: the infos it has, with their entities, and the stored jobs.
\<close>

definition extends :: "('h, 'f) JobManager \<Rightarrow> ('h, 'f) JobManager \<Rightarrow> bool" where
  "extends m m' \<longleftrightarrow> length (jm_infos m) \<le> length (jm_infos m') \<and>
     (\<forall>k < length (jm_infos m). entity_of m' k = entity_of m k) \<and> dom (jm_store m) \<subseteq> dom (jm_store m')"

lemma extends_refl [simp]: "extends m m"
  by (simp add: extends_def)

lemma extends_same: "jm_infos m' = jm_infos m \<Longrightarrow> jm_store m' = jm_store m \<Longrightarrow> extends m m'"
  by (simp add: extends_def)

lemma extends_trans: "extends m1 m2 \<Longrightarrow> extends m2 m3 \<Longrightarrow> extends m1 m3"
  unfolding extends_def by (metis order_trans order.strict_trans2)

lemma entity_update:
  "ai_entity (xs[k := (xs ! k)\<lparr>ai_cancelled := b\<rparr>] ! j) = ai_entity (xs ! j)"
  "ai_entity (xs[k := (xs ! k)\<lparr>ai_dbSaved := b\<rparr>] ! j) = ai_entity (xs ! j)"
  by (cases "k < length xs", auto simp: nth_list_update list_update_beyond)+

lemma extends_infos_update:
  "jm_infos m' = (jm_infos m)[k := (jm_infos m ! k)\<lparr>ai_cancelled := b\<rparr>] \<Longrightarrow> jm_store m' = jm_store m \<Longrightarrow> extends m m'"
  "jm_infos m' = (jm_infos m)[k := (jm_infos m ! k)\<lparr>ai_dbSaved := b\<rparr>] \<Longrightarrow> jm_store m' = jm_store m \<Longrightarrow> extends m m'"
  by (simp_all add: extends_def entity_update)

lemma extends_append: "jm_infos m' = jm_infos m @ xs \<Longrightarrow> jm_store m' = jm_store m \<Longrightarrow> extends m m'"
  by (auto simp: extends_def nth_append)

lemma extends_cancel_all: "extends m (cancel_all m)"
  by (auto simp: extends_def cancel_all_def)

lemma set_store_simps [simp]:
  "jm_infos (set_store i st m) = jm_infos m" "jm_store (set_store i st m) = st" "jm_active (set_store i st m) = jm_active m"
  "jm_handlers (set_store i st m) = jm_handlers m" "jm_retryPolicy (set_store i st m) = jm_retryPolicy m"
  by (simp_all add: set_store_def)

lemma extends_set_store: "dom (jm_store m) \<subseteq> dom st \<Longrightarrow> extends m (set_store i st m)"
  by (simp add: extends_def)

lemma inv_store_set:
  assumes "inv_store m" "mem_invar st" "dom st = dom (jm_store m) \<or> jm_store m i = None \<and> dom st = insert i (dom (jm_store m))"
  shows "inv_store (set_store i st m)"
  using assms by (auto simp: inv_store_def range_order_def set_store_def)

lemma created_inv:
  assumes "created now e st0 st" "mem_invar st0"
  shows "mem_invar st" "dom st = insert (je_ID e) (dom st0)" "st0 (je_ID e) = None"
  using assms by (auto simp: created_def mem_invar_def mem_stamp_eq)

lemma inv_active_cong:
  "jm_active m' = jm_active m \<Longrightarrow> extends m m' \<Longrightarrow> inv_active m \<Longrightarrow> inv_active m'"
  unfolding inv_active_def extends_def by (metis order.strict_trans2)

lemma inv_active_delete:
  "jm_active m' = (jm_active m)(i := None) \<Longrightarrow> extends m m' \<Longrightarrow> inv_active m \<Longrightarrow> inv_active m'"
  unfolding inv_active_def extends_def by (metis fun_upd_apply option.distinct(1) order.strict_trans2)

lemma inv_active_add:
  assumes "inv_active m" "jm_infos m' = jm_infos m @ [info]" "i = je_ID (ai_entity info)"
    and "jm_active m' = (jm_active m)(i \<mapsto> length (jm_infos m))"
  shows "inv_active m'"
  using assms unfolding inv_active_def by (auto simp: nth_append less_SucI)

text \<open>The count of \<^verbatim>\<open>GetActiveJobCount\<close> is the number of entries of \<^verbatim>\<open>activeJobs\<close>.\<close>

lemma GetActiveJobCount_card:
  assumes "inv_active m"
  shows "GetActiveJobCount m = card (dom (jm_active m))"
proof -
  let ?ks = "filter (\<lambda>k. jm_active m (je_ID (entity_of m k)) = Some k) [0..<length (jm_infos m)]"
  have inj: "inj_on (\<lambda>k. je_ID (entity_of m k)) (set ?ks)" by (rule inj_onI) auto
  have "dom (jm_active m) = (\<lambda>k. je_ID (entity_of m k)) ` set ?ks"
  proof (intro equalityI subsetI)
    fix i assume "i \<in> dom (jm_active m)"
    then obtain k where "jm_active m i = Some k" by auto
    moreover from this have "k < length (jm_infos m)" "je_ID (entity_of m k) = i" using assms by (auto simp: inv_active_def)
    ultimately show "i \<in> (\<lambda>k. je_ID (entity_of m k)) ` set ?ks" by (intro image_eqI [of _ _ k]) auto
  qed auto
  then have "card (dom (jm_active m)) = card (set ?ks)" using card_image [OF inj] by simp
  also have "\<dots> = length ?ks" by (rule distinct_card) simp
  finally show ?thesis by (simp add: GetActiveJobCount_def)
qed

section \<open>Channels\<close>

text \<open>
  Names: a result channel is the number of its caller, and a submission's channel is used by nobody
  else; an info named in a closure exists and belongs to the entity of the closure.
\<close>

fun ctl_task_ok :: "(nat \<rightharpoonup> string) \<Rightarrow> nat \<Rightarrow> 'h ctl_task \<Rightarrow> bool" where
  "ctl_task_ok sub n (CtlSubmit c ctx e traits delay) \<longleftrightarrow> c < n \<and> sub c = Some (je_ID e)"
| "ctl_task_ok sub n (CtlRegister ty h c) \<longleftrightarrow> c < n \<and> sub c = None"
| "ctl_task_ok sub n (CtlUnregister ty c) \<longleftrightarrow> c < n \<and> sub c = None"
| "ctl_task_ok sub n (CtlCancel i c) \<longleftrightarrow> c < n \<and> sub c = None"
| "ctl_task_ok sub n (CtlCancelAll c) \<longleftrightarrow> c < n \<and> sub c = None"
| "ctl_task_ok sub n (CtlFinalize i status msg) \<longleftrightarrow> True"
| "ctl_task_ok sub n (CtlRecover job k) \<longleftrightarrow> True"

definition from_caller :: "'h ctl_task \<Rightarrow> bool" where
  "from_caller t = (case t of CtlFinalize _ _ _ \<Rightarrow> False | CtlRecover _ _ \<Rightarrow> False | _ \<Rightarrow> True)"

fun caller_ok :: "(nat \<rightharpoonup> string) \<Rightarrow> nat \<Rightarrow> nat \<Rightarrow> 'h caller_at \<Rightarrow> bool" where
  "caller_ok sub n c (CallPost t ctx) \<longleftrightarrow> ctl_task_ok sub n t \<and> (waits_shutdown t \<longrightarrow> sub c = None) \<and> from_caller t"
| "caller_ok sub n c (CallWait ctx) \<longleftrightarrow> True"
| "caller_ok sub n c (CallRet r) \<longleftrightarrow> True"
| "caller_ok sub n c _ \<longleftrightarrow> sub c = None"

fun io_task_ok :: "('h, 'f) JobManager \<Rightarrow> (nat \<rightharpoonup> string) \<Rightarrow> nat \<Rightarrow> 'h io_task \<Rightarrow> bool" where
  "io_task_ok m sub n (IoPersist k ctx e h traits delay) \<longleftrightarrow> k < length (jm_infos m) \<and> entity_of m k = e"
| "io_task_ok m sub n (IoRecovery c ctx) \<longleftrightarrow> c < n \<and> sub c = None"
| "io_task_ok m sub n _ \<longleftrightarrow> True"

fun io_at_ok :: "('h, 'f) JobManager \<Rightarrow> (nat \<rightharpoonup> string) \<Rightarrow> nat \<Rightarrow> 'h io_at \<Rightarrow> bool" where
  "io_at_ok m sub n (IoPersisting k ctx e h traits delay) \<longleftrightarrow> k < length (jm_infos m) \<and> entity_of m k = e"
| "io_at_ok m sub n (IoPersisted k e h traits delay) \<longleftrightarrow>
     k < length (jm_infos m) \<and> entity_of m k = e \<and> je_ID e \<in> dom (jm_store m)"
| "io_at_ok m sub n (IoRecList c ctx) \<longleftrightarrow> c < n \<and> sub c = None"
| "io_at_ok m sub n (IoRecMark c ctx jobs) \<longleftrightarrow> c < n \<and> sub c = None"
| "io_at_ok m sub n (IoRecNext c ctx jobs) \<longleftrightarrow> c < n \<and> sub c = None"
| "io_at_ok m sub n (IoRecWait c ctx k jobs) \<longleftrightarrow> c < n \<and> sub c = None"
| "io_at_ok m sub n IoIdle \<longleftrightarrow> True"

fun ctl_at_ok :: "('h, 'f) JobManager \<Rightarrow> (nat \<rightharpoonup> string) \<Rightarrow> ctl_at \<Rightarrow> bool" where
  "ctl_at_ok m sub (CtlWait k c ctx) \<longleftrightarrow> k < length (jm_infos m) \<and> sub c = Some (je_ID (entity_of m k))"
| "ctl_at_ok m sub _ \<longleftrightarrow> True"

definition inv_names :: "('h, 'f) jm_sys \<Rightarrow> bool" where
  "inv_names s \<longleftrightarrow>
     (\<forall>t \<in> set (sy_ctl s). ctl_task_ok (sy_submitted s) (length (sy_callers s)) t) \<and>
     (\<forall>c < length (sy_callers s). caller_ok (sy_submitted s) (length (sy_callers s)) c (sy_callers s ! c)) \<and>
     (\<forall>t \<in> set (sy_io s). io_task_ok (sy_m s) (sy_submitted s) (length (sy_callers s)) t) \<and>
     io_at_ok (sy_m s) (sy_submitted s) (length (sy_callers s)) (sy_io_at s) \<and>
     ctl_at_ok (sy_m s) (sy_submitted s) (sy_ctl_at s) \<and>
     dom (sy_submitted s) \<subseteq> {..<length (sy_callers s)} \<and> dom (sy_io_results s) \<subseteq> {..<length (jm_infos (sy_m s))} \<and>
     dom (sy_results s) \<subseteq> {..<length (sy_callers s)}"

definition inv_ack :: "('h, 'f) jm_sys \<Rightarrow> bool" where
  "inv_ack s \<longleftrightarrow>
     (\<forall>c i. sy_submitted s c = Some i \<longrightarrow> sy_results s c = Some None \<longrightarrow> i \<in> dom (jm_store (sy_m s))) \<and>
     (\<forall>c i. sy_submitted s c = Some i \<longrightarrow> sy_callers s ! c = CallRet None \<longrightarrow> i \<in> dom (jm_store (sy_m s))) \<and>
     (\<forall>k. sy_io_results s k = Some None \<longrightarrow> je_ID (entity_of (sy_m s) k) \<in> dom (jm_store (sy_m s)))"

definition jm_inv :: "('h, 'f) jm_sys \<Rightarrow> bool" where
  "jm_inv s \<longleftrightarrow> inv_active (sy_m s) \<and> inv_store (sy_m s) \<and> inv_names s \<and> inv_ack s"

section \<open>Frame rules\<close>

definition sub_ext :: "(nat \<rightharpoonup> string) \<Rightarrow> nat \<Rightarrow> (nat \<rightharpoonup> string) \<Rightarrow> nat \<Rightarrow> bool" where
  "sub_ext sub n sub' n' \<longleftrightarrow> n \<le> n' \<and> (\<forall>c < n. sub' c = sub c)"

lemma sub_ext_refl [simp]: "sub_ext sub n sub n"
  by (simp add: sub_ext_def)

lemma sub_ext_callers: "n \<le> n' \<Longrightarrow> sub_ext sub n sub n'"
  by (simp add: sub_ext_def)

lemma ctl_task_ok_mono: "sub_ext sub n sub' n' \<Longrightarrow> ctl_task_ok sub n t \<Longrightarrow> ctl_task_ok sub' n' t"
  by (cases t) (auto simp: sub_ext_def)

lemma caller_ok_mono: "sub_ext sub n sub' n' \<Longrightarrow> c < n \<Longrightarrow> caller_ok sub n c pc \<Longrightarrow> caller_ok sub' n' c pc"
  by (cases pc) (auto simp: sub_ext_def intro: ctl_task_ok_mono [unfolded sub_ext_def])

lemma io_task_ok_mono:
  "sub_ext sub n sub' n' \<Longrightarrow> extends m m' \<Longrightarrow> io_task_ok m sub n t \<Longrightarrow> io_task_ok m' sub' n' t"
  by (cases t) (auto simp: sub_ext_def extends_def)

lemma io_at_ok_mono:
  "sub_ext sub n sub' n' \<Longrightarrow> extends m m' \<Longrightarrow> io_at_ok m sub n pc \<Longrightarrow> io_at_ok m' sub' n' pc"
  by (cases pc) (auto simp: sub_ext_def extends_def)

lemma ctl_at_ok_mono:
  "sub_ext sub n sub' n' \<Longrightarrow> extends m m' \<Longrightarrow> dom sub \<subseteq> {..<n} \<Longrightarrow> ctl_at_ok m sub pc \<Longrightarrow> ctl_at_ok m' sub' pc"
  by (cases pc) (auto simp: sub_ext_def extends_def dom_def subset_iff)

abbreviation n_callers :: "('h, 'f) jm_sys \<Rightarrow> nat" where
  "n_callers s \<equiv> length (sy_callers s)"

lemma inv_names_frame:
  assumes "inv_names s" "extends (sy_m s) (sy_m s')" "sub_ext (sy_submitted s) (n_callers s) (sy_submitted s') (n_callers s')"
    and "\<And>t. t \<in> set (sy_ctl s') \<Longrightarrow> t \<in> set (sy_ctl s) \<or> ctl_task_ok (sy_submitted s') (n_callers s') t"
    and "\<And>c. c < n_callers s' \<Longrightarrow> c < n_callers s \<and> sy_callers s' ! c = sy_callers s ! c \<or>
           caller_ok (sy_submitted s') (n_callers s') c (sy_callers s' ! c)"
    and "\<And>t. t \<in> set (sy_io s') \<Longrightarrow> t \<in> set (sy_io s) \<or> io_task_ok (sy_m s') (sy_submitted s') (n_callers s') t"
    and "sy_io_at s' = sy_io_at s \<or> io_at_ok (sy_m s') (sy_submitted s') (n_callers s') (sy_io_at s')"
    and "sy_ctl_at s' = sy_ctl_at s \<or> ctl_at_ok (sy_m s') (sy_submitted s') (sy_ctl_at s')"
    and "dom (sy_submitted s') \<subseteq> {..<n_callers s'}" "dom (sy_io_results s') \<subseteq> {..<length (jm_infos (sy_m s'))}"
    and "dom (sy_results s') \<subseteq> {..<n_callers s'}"
  shows "inv_names s'"
proof -
  note inv = assms(1) [unfolded inv_names_def]
  show ?thesis
    unfolding inv_names_def
  proof (intro conjI)
    show "\<forall>t \<in> set (sy_ctl s'). ctl_task_ok (sy_submitted s') (n_callers s') t"
      using inv assms(4) ctl_task_ok_mono [OF assms(3)] by blast
    show "\<forall>c < n_callers s'. caller_ok (sy_submitted s') (n_callers s') c (sy_callers s' ! c)"
      using inv assms(5) caller_ok_mono [OF assms(3)] by metis
    show "\<forall>t \<in> set (sy_io s'). io_task_ok (sy_m s') (sy_submitted s') (n_callers s') t"
      using inv assms(6) io_task_ok_mono [OF assms(3,2)] by blast
    show "io_at_ok (sy_m s') (sy_submitted s') (n_callers s') (sy_io_at s')"
      using inv assms(7) io_at_ok_mono [OF assms(3,2)] by metis
    show "ctl_at_ok (sy_m s') (sy_submitted s') (sy_ctl_at s')"
      using inv assms(8) ctl_at_ok_mono [OF assms(3,2)] by metis
  qed (use assms(9-11) in auto)
qed

lemma inv_ack_frame:
  assumes "inv_ack s" "extends (sy_m s) (sy_m s')" "dom (sy_io_results s) \<subseteq> {..<length (jm_infos (sy_m s))}"
    and "\<And>c i. sy_submitted s' c = Some i \<Longrightarrow> sy_results s' c = Some None \<Longrightarrow>
           sy_submitted s c = Some i \<and> sy_results s c = Some None \<or> i \<in> dom (jm_store (sy_m s'))"
    and "\<And>c i. sy_submitted s' c = Some i \<Longrightarrow> sy_callers s' ! c = CallRet None \<Longrightarrow>
           sy_submitted s c = Some i \<and> sy_callers s ! c = CallRet None \<or> i \<in> dom (jm_store (sy_m s'))"
    and "\<And>k. sy_io_results s' k = Some None \<Longrightarrow>
           sy_io_results s k = Some None \<or> je_ID (entity_of (sy_m s') k) \<in> dom (jm_store (sy_m s'))"
  shows "inv_ack s'"
proof -
  have dom: "dom (jm_store (sy_m s)) \<subseteq> dom (jm_store (sy_m s'))" using assms(2) by (simp add: extends_def)
  have ent: "entity_of (sy_m s') k = entity_of (sy_m s) k" if "sy_io_results s k = Some None" for k
    using that assms(2,3) by (auto simp: extends_def dom_def subset_iff)
  note inv = assms(1) [unfolded inv_ack_def]
  show ?thesis
    unfolding inv_ack_def
  proof (intro conjI allI impI)
    show "i \<in> dom (jm_store (sy_m s'))" if "sy_submitted s' c = Some i" "sy_results s' c = Some None" for c i
      using assms(4) [OF that] inv dom by blast
    show "i \<in> dom (jm_store (sy_m s'))" if "sy_submitted s' c = Some i" "sy_callers s' ! c = CallRet None" for c i
      using assms(5) [OF that] inv dom by blast
    show "je_ID (entity_of (sy_m s') k) \<in> dom (jm_store (sy_m s'))" if k: "sy_io_results s' k = Some None" for k
      using assms(6) [OF k]
    proof
      assume "sy_io_results s k = Some None"
      with inv ent dom show ?thesis by (metis subsetD)
    qed
  qed
qed

text \<open>A step that changes neither the manager nor the names.\<close>

lemma jm_inv_frame:
  assumes "jm_inv s" "extends (sy_m s) (sy_m s')" "inv_active (sy_m s')" "inv_store (sy_m s')" "inv_names s'"
    and "sy_submitted s' = sy_submitted s"
    and "\<And>c i. sy_submitted s c = Some i \<Longrightarrow> sy_results s' c = Some None \<Longrightarrow>
           sy_results s c = Some None \<or> i \<in> dom (jm_store (sy_m s'))"
    and "\<And>c i. sy_submitted s c = Some i \<Longrightarrow> sy_callers s' ! c = CallRet None \<Longrightarrow>
           sy_callers s ! c = CallRet None \<or> i \<in> dom (jm_store (sy_m s'))"
    and "\<And>k. sy_io_results s' k = Some None \<Longrightarrow>
           sy_io_results s k = Some None \<or> je_ID (entity_of (sy_m s') k) \<in> dom (jm_store (sy_m s'))"
  shows "jm_inv s'"
proof -
  have "inv_ack s" "dom (sy_io_results s) \<subseteq> {..<length (jm_infos (sy_m s))}"
    using assms(1) by (auto simp: jm_inv_def inv_names_def)
  then have "inv_ack s'"
    by (rule inv_ack_frame [OF _ assms(2)]) (use assms(6-9) in auto)
  with assms(3-5) show ?thesis by (simp add: jm_inv_def)
qed

section \<open>Every step keeps the invariant\<close>

lemmas posts = post_ctl_def post_io_def send_result_def upd_m_def add_caller_def

lemma post_io_simps [simp]:
  "sy_m (post_io t s) = sy_m s" "sy_ctl_at (post_io t s) = sy_ctl_at s" "sy_io_at (post_io t s) = sy_io_at s" "sy_callers (post_io t s) = sy_callers s"
  "sy_results (post_io t s) = sy_results s" "sy_submitted (post_io t s) = sy_submitted s" "sy_io_results (post_io t s) = sy_io_results s" "sy_exec (post_io t s) = sy_exec s"
  "sy_running (post_io t s) = sy_running s" "sy_scheduled (post_io t s) = sy_scheduled s" "sy_executed (post_io t s) = sy_executed s" "sy_updates (post_io t s) = sy_updates s"
  "sy_recoveries (post_io t s) = sy_recoveries s" "sy_early (post_io t s) = sy_early s" "sy_done (post_io t s) = sy_done s" "sy_ctx_done (post_io t s) = sy_ctx_done s"
  "sy_next (post_io t s) = sy_next s" "sy_ctl_open (post_io t s) = sy_ctl_open s" "sy_io_open (post_io t s) = sy_io_open s" "sy_ctl (post_io t s) = sy_ctl s"
  "sy_io (post_io t s) = (if sy_io_open s then sy_io s @ [t] else sy_io s)"
  by (simp_all add: post_io_def)

lemma post_ctl_simps [simp]:
  "sy_m (post_ctl t s) = sy_m s" "sy_ctl_at (post_ctl t s) = sy_ctl_at s" "sy_io_at (post_ctl t s) = sy_io_at s" "sy_callers (post_ctl t s) = sy_callers s"
  "sy_results (post_ctl t s) = sy_results s" "sy_submitted (post_ctl t s) = sy_submitted s" "sy_io_results (post_ctl t s) = sy_io_results s" "sy_exec (post_ctl t s) = sy_exec s"
  "sy_running (post_ctl t s) = sy_running s" "sy_scheduled (post_ctl t s) = sy_scheduled s" "sy_executed (post_ctl t s) = sy_executed s" "sy_updates (post_ctl t s) = sy_updates s"
  "sy_recoveries (post_ctl t s) = sy_recoveries s" "sy_early (post_ctl t s) = sy_early s" "sy_done (post_ctl t s) = sy_done s" "sy_ctx_done (post_ctl t s) = sy_ctx_done s"
  "sy_next (post_ctl t s) = sy_next s" "sy_ctl_open (post_ctl t s) = sy_ctl_open s" "sy_io_open (post_ctl t s) = sy_io_open s" "sy_io (post_ctl t s) = sy_io s"
  "sy_ctl (post_ctl t s) = (if sy_ctl_open s then sy_ctl s @ [t] else sy_ctl s)"
  by (simp_all add: post_ctl_def)

lemma jm_inv_parts:
  assumes "jm_inv s"
  shows "inv_active (sy_m s)" "inv_store (sy_m s)" "inv_names s" "dom (sy_submitted s) \<subseteq> {..<n_callers s}"
    "dom (sy_io_results s) \<subseteq> {..<length (jm_infos (sy_m s))}" "dom (sy_results s) \<subseteq> {..<n_callers s}"
  using assms by (auto simp: jm_inv_def inv_names_def)

lemma jm_init_inv: "fresh_manager m \<Longrightarrow> jm_inv (jm_init m)"
  by (simp add: jm_inv_def inv_active_def inv_store_def inv_names_def inv_ack_def jm_init_def fresh_manager_def)

text \<open>The calls: a new caller, with a name of its own if it submits.\<close>

lemma new_caller_inv:
  assumes inv: "jm_inv s" and m: "extends (sy_m s) m" "jm_active m = jm_active (sy_m s)" "inv_store m" "jm_infos m = jm_infos (sy_m s)"
    and sub: "sub_ext (sy_submitted s) (n_callers s) sub (Suc (n_callers s))" "dom sub \<subseteq> {..<Suc (n_callers s)}"
    and pc: "caller_ok sub (Suc (n_callers s)) (n_callers s) pc" "pc = CallRet None \<Longrightarrow> sub (n_callers s) = None"
  shows "jm_inv (s\<lparr>sy_m := m, sy_submitted := sub, sy_callers := sy_callers s @ [pc]\<rparr>)" (is "jm_inv ?s")
proof -
  note p = jm_inv_parts [OF inv]
  have fresh: "sy_results s (n_callers s) = None" using p(6) by (auto simp: dom_def subset_iff)
  have names: "inv_names ?s"
    by (rule inv_names_frame [OF p(3)]) (use m sub pc p(5,6) in \<open>auto simp: nth_append less_Suc_eq\<close>)
  have old: "sy_submitted s c = Some i" if "sub c = Some i" "c \<noteq> n_callers s" for c i
    using that sub by (auto simp: sub_ext_def less_Suc_eq dom_def subset_iff)
  have "inv_ack ?s"
  proof (rule inv_ack_frame [of s])
    show "inv_ack s" using inv by (simp add: jm_inv_def)
    show "dom (sy_io_results s) \<subseteq> {..<length (jm_infos (sy_m s))}" by (rule p(5))
    fix c i
    assume c: "sy_submitted ?s c = Some i"
    have lt: "c < Suc (n_callers s)" using c sub(2) by (auto simp: dom_def subset_iff)
    show "sy_submitted s c = Some i \<and> sy_results s c = Some None \<or> i \<in> dom (jm_store (sy_m ?s))"
      if "sy_results ?s c = Some None" using that c old fresh by (cases "c = n_callers s") auto
    show "sy_submitted s c = Some i \<and> sy_callers s ! c = CallRet None \<or> i \<in> dom (jm_store (sy_m ?s))"
      if "sy_callers ?s ! c = CallRet None" using that c old pc(2) lt by (cases "c = n_callers s") (auto simp: nth_append)
  qed (use m in auto)
  then show ?thesis using names m inv_active_cong [OF _ _ p(1), of m] by (simp add: jm_inv_def)
qed

lemma add_caller_inv:
  assumes inv: "jm_inv s" and pc: "caller_ok (sy_submitted s) (Suc (n_callers s)) (n_callers s) pc"
  shows "jm_inv (add_caller pc s)"
proof -
  note p = jm_inv_parts [OF inv]
  have "sy_submitted s (n_callers s) = None" using p(4) by (auto simp: dom_def subset_iff)
  moreover have "dom (sy_submitted s) \<subseteq> {..<Suc (n_callers s)}" using p(4) by auto
  ultimately have "jm_inv (s\<lparr>sy_m := sy_m s, sy_submitted := sy_submitted s, sy_callers := sy_callers s @ [pc]\<rparr>)"
    using p pc by (intro new_caller_inv [OF inv]) (auto intro: sub_ext_callers)
  then show ?thesis by (simp add: add_caller_def)
qed

lemma fresh_name: "jm_inv s \<Longrightarrow> sy_submitted s (n_callers s) = None"
  using jm_inv_parts(4) [of s] by (auto simp: dom_def subset_iff)

lemma closed_or_post_inv:
  "jm_inv s \<Longrightarrow> ctl_task_ok (sy_submitted s) (Suc (n_callers s)) (t (n_callers s)) \<Longrightarrow> from_caller (t (n_callers s)) \<Longrightarrow>
     jm_inv (closed_or_post t ctx s)"
  by (auto simp: closed_or_post_def fresh_name intro!: add_caller_inv)

lemma SubmitDelayedJob_inv:
  assumes inv: "jm_inv s"
  shows "jm_inv (SubmitDelayedJob now ctx i ty ser delay traits s)"
proof (cases "jm_closed (sy_m s) \<or> ctx_done s ctx \<or> (\<exists>e. ser = Inl e)")
  case True
  then show ?thesis using inv by (auto simp: SubmitDelayedJob_def intro!: add_caller_inv)
next
  case False
  then obtain args where args: "ser = Inr args" by (cases ser) auto
  note p = jm_inv_parts [OF inv]
  let ?e = "\<lparr>je_ID = i, je_Type = ty, je_ArgsData = args, je_Status = JobStatusPending, je_Result = [],
                  je_Priority = Priority traits, je_CreatedAt = now, je_UpdatedAt = 0\<rparr>"
  let ?pc = "CallPost (CtlSubmit (n_callers s) ctx ?e traits delay) ctx"
  let ?sub = "(sy_submitted s)(n_callers s \<mapsto> i)"
  have "jm_inv (s\<lparr>sy_m := sy_m s, sy_submitted := ?sub, sy_callers := sy_callers s @ [?pc]\<rparr>)"
    using p by (intro new_caller_inv [OF inv]) (auto simp: sub_ext_def waits_shutdown_def from_caller_def)
  then show ?thesis using False args by (simp add: SubmitDelayedJob_def Let_def add_caller_def)
qed

lemma jm_Shutdown_inv:
  assumes inv: "jm_inv s"
  shows "jm_inv (jm_Shutdown ctx s)"
proof (cases "jm_closed (sy_m s)")
  case True
  then show ?thesis using inv by (auto simp: jm_Shutdown_def intro!: add_caller_inv)
next
  case False
  note p = jm_inv_parts [OF inv]
  let ?pc = "CallPost (CtlCancelAll (n_callers s)) ctx"
  have "jm_inv (s\<lparr>sy_m := (sy_m s)\<lparr>jm_closed := True\<rparr>, sy_submitted := sy_submitted s, sy_callers := sy_callers s @ [?pc]\<rparr>)"
    using p fresh_name [OF inv]
    by (intro new_caller_inv [OF inv]) (auto simp: inv_store_def from_caller_def intro: sub_ext_callers extends_same)
  then show ?thesis using False by (simp add: jm_Shutdown_def add_caller_def upd_m_def)
qed

text \<open>A step of a caller changes its place, and at most the queues.\<close>

lemma caller_moves_inv:
  assumes inv: "jm_inv s" and c: "c < n_callers s"
    and pc: "caller_ok (sy_submitted s) (n_callers s) c pc" "pc = CallRet None \<Longrightarrow> sy_submitted s c = None \<or> sy_results s c = Some None"
    and ctl: "set (sy_ctl s') \<subseteq> set (sy_ctl s) \<union> {t. ctl_task_ok (sy_submitted s) (n_callers s) t}"
    and io: "set (sy_io s') \<subseteq> set (sy_io s) \<union> {t. io_task_ok (sy_m s) (sy_submitted s) (n_callers s) t}"
    and eq: "sy_m s' = sy_m s" "sy_submitted s' = sy_submitted s" "sy_results s' = sy_results s"
      "sy_io_results s' = sy_io_results s" "sy_io_at s' = sy_io_at s" "sy_ctl_at s' = sy_ctl_at s"
      "sy_callers s' = (sy_callers s)[c := pc]"
  shows "jm_inv s'"
proof -
  note p = jm_inv_parts [OF inv]
  have ack: "sy_submitted s c = Some i \<Longrightarrow> sy_results s c = Some None \<Longrightarrow> i \<in> dom (jm_store (sy_m s))" for i
    using inv by (auto simp: jm_inv_def inv_ack_def)
  have names: "inv_names s'"
    by (rule inv_names_frame [OF p(3)]) (use c ctl io pc(1) p(4-6) in \<open>auto simp: nth_list_update eq\<close>)
  show ?thesis
    by (rule jm_inv_frame [OF inv _ _ _ names])
      (use p pc(2) ack c in \<open>auto simp: nth_list_update eq split: if_splits\<close>)
qed

lemma caller_step_inv:
  assumes inv: "jm_inv s" and c: "c < n_callers s" and st: "caller_step c (sy_callers s ! c) s = Some (pc, s')"
  shows "jm_inv (set_caller c (pc, s'))"
proof -
  have ok: "caller_ok (sy_submitted s) (n_callers s) c (sy_callers s ! c)"
    using inv c by (simp add: jm_inv_def inv_names_def)
  have sub: "caller_ok (sy_submitted s) (n_callers s) c pc" "sy_submitted s' = sy_submitted s" "sy_results s' = sy_results s"
    "sy_m s' = sy_m s" "sy_io_results s' = sy_io_results s" "sy_io_at s' = sy_io_at s" "sy_ctl_at s' = sy_ctl_at s"
    "sy_callers s' = sy_callers s"
    using st ok by (cases "sy_callers s ! c"; auto simp: posts split: if_splits)+
  have ret: "sy_results s c = Some None \<or> (\<exists>ctx. sy_callers s ! c = CallPending ctx) \<or> sy_callers s ! c = CallShutExec"
    if "pc = CallRet None" using st that by (cases "sy_callers s ! c") (auto split: if_splits)
  have ctl: "set (sy_ctl s') \<subseteq> set (sy_ctl s) \<union> {t. ctl_task_ok (sy_submitted s) (n_callers s) t}"
    using st ok by (cases "sy_callers s ! c") (auto simp: posts split: if_splits)
  have io: "set (sy_io s') \<subseteq> set (sy_io s) \<union> {t. io_task_ok (sy_m s) (sy_submitted s) (n_callers s) t}"
    using st ok c by (cases "sy_callers s ! c") (auto simp: posts split: if_splits)
  show ?thesis
    by (rule caller_moves_inv [OF inv c sub(1)]) (use ok ret ctl io sub in \<open>auto simp: set_caller_def\<close>)
qed

text \<open>A step of a runner leaves the callers where they are.\<close>

lemma runner_moves_inv:
  assumes inv: "jm_inv s" and m: "extends (sy_m s) (sy_m s')" "inv_active (sy_m s')" "inv_store (sy_m s')"
    and eq: "sy_submitted s' = sy_submitted s" "sy_callers s' = sy_callers s"
    and ctl: "set (sy_ctl s') \<subseteq> set (sy_ctl s) \<union> {t. ctl_task_ok (sy_submitted s) (n_callers s) t}"
    and io: "set (sy_io s') \<subseteq> set (sy_io s) \<union> {t. io_task_ok (sy_m s') (sy_submitted s) (n_callers s) t}"
    and io_at: "sy_io_at s' = sy_io_at s \<or> io_at_ok (sy_m s') (sy_submitted s) (n_callers s) (sy_io_at s')"
    and ctl_at: "sy_ctl_at s' = sy_ctl_at s \<or> ctl_at_ok (sy_m s') (sy_submitted s) (sy_ctl_at s')"
    and res: "\<And>c r. sy_results s' c = Some r \<Longrightarrow> sy_results s c = Some r \<or> c < n_callers s \<and>
        (r = None \<longrightarrow> (\<forall>i. sy_submitted s c = Some i \<longrightarrow> i \<in> dom (jm_store (sy_m s'))))"
    and io_res: "\<And>k r. sy_io_results s' k = Some r \<Longrightarrow> sy_io_results s k = Some r \<or> k < length (jm_infos (sy_m s')) \<and>
        (r = None \<longrightarrow> je_ID (entity_of (sy_m s') k) \<in> dom (jm_store (sy_m s')))"
  shows "jm_inv s'"
proof -
  note p = jm_inv_parts [OF inv]
  have r: "c < n_callers s" if "sy_results s' c = Some r" for c r
    using res [OF that] p(6) by (auto simp: dom_def subset_iff)
  have len: "length (jm_infos (sy_m s)) \<le> length (jm_infos (sy_m s'))" using m(1) by (simp add: extends_def)
  have k: "k < length (jm_infos (sy_m s'))" if "sy_io_results s' k = Some r" for k r
    using io_res [OF that] p(5) len by (auto simp: dom_def subset_iff)
  have names: "inv_names s'"
    by (rule inv_names_frame [OF p(3) m(1)]) (use ctl io io_at ctl_at p(4) r k in \<open>auto simp: eq\<close>)
  show ?thesis
  proof (rule jm_inv_frame [OF inv m names eq(1)])
    show "sy_results s c = Some None \<or> i \<in> dom (jm_store (sy_m s'))"
      if "sy_submitted s c = Some i" "sy_results s' c = Some None" for c i using res [OF that(2)] that(1) by auto
    show "sy_io_results s k = Some None \<or> je_ID (entity_of (sy_m s') k) \<in> dom (jm_store (sy_m s'))"
      if "sy_io_results s' k = Some None" for k using io_res [OF that] by auto
  qed (auto simp: eq)
qed

lemma inv_store_cong:
  "jm_store m' = jm_store m \<Longrightarrow> jm_keys m' = jm_keys m \<Longrightarrow> jm_retryPolicy m' = jm_retryPolicy m \<Longrightarrow> inv_store m \<Longrightarrow> inv_store m'"
  by (simp add: inv_store_def)

lemma cancel_info_simps [simp]:
  "jm_store (cancel_info k m) = jm_store m" "jm_keys (cancel_info k m) = jm_keys m" "jm_active (cancel_info k m) = jm_active m"
  "jm_retryPolicy (cancel_info k m) = jm_retryPolicy m" "length (jm_infos (cancel_info k m)) = length (jm_infos m)"
  "entity_of (cancel_info k m) j = entity_of m j" "jm_handlers (cancel_info k m) = jm_handlers m"
  by (simp_all add: cancel_info_def entity_update)

lemma extends_cancel_info: "extends m (cancel_info k m)"
  by (simp add: extends_def)

lemma cancel_all_simps [simp]:
  "jm_store (cancel_all m) = jm_store m" "jm_keys (cancel_all m) = jm_keys m" "jm_active (cancel_all m) = jm_active m"
  "jm_retryPolicy (cancel_all m) = jm_retryPolicy m"
  by (simp_all add: cancel_all_def)

lemma inv_keeps:
  assumes "inv_active m" "inv_store m" "extends m m'" "jm_active m' = jm_active m" "jm_store m' = jm_store m" "jm_keys m' = jm_keys m"
    "jm_retryPolicy m' = jm_retryPolicy m"
  shows "inv_active m'" "inv_store m'"
  using inv_active_cong [OF assms(4,3,1)] inv_store_cong [OF assms(5-7,2)] by auto

lemma ctl_task_head:
  assumes "jm_inv s" "sy_ctl s = t # ts"
  shows "ctl_task_ok (sy_submitted s) (n_callers s) t"
  using assms by (simp add: jm_inv_def inv_names_def)

lemma jm_inv_drop:
  assumes "jm_inv s" "set ts \<subseteq> set (sy_ctl s)" "set us \<subseteq> set (sy_io s)"
  shows "jm_inv (s\<lparr>sy_ctl := ts\<rparr>)" "jm_inv (s\<lparr>sy_io := us\<rparr>)"
proof -
  note p = jm_inv_parts [OF assms(1)]
  show "jm_inv (s\<lparr>sy_ctl := ts\<rparr>)" by (rule runner_moves_inv [OF assms(1)]) (use assms(2) p in auto)
  show "jm_inv (s\<lparr>sy_io := us\<rparr>)" by (rule runner_moves_inv [OF assms(1)]) (use assms(3) p in auto)
qed

lemma submitJobControl_inv:
  assumes inv: "jm_inv s" and c: "c < n_callers s" "sy_submitted s c = Some (je_ID e)"
  shows "jm_inv (submitJobControl c ctx e traits delay s)"
proof (cases "jm_active (sy_m s) (je_ID e) = None \<and> jm_handlers (sy_m s) (je_Type e) \<noteq> None")
  case False
  note p = jm_inv_parts [OF inv]
  have "jm_inv (send_result c (Some err) s)" for err
    by (rule runner_moves_inv [OF inv]) (use c p in \<open>auto simp: posts split: if_splits\<close>)
  with False show ?thesis by (auto simp: submitJobControl_def Let_def split: option.splits)
next
  case True
  then obtain h where h: "jm_handlers (sy_m s) (je_Type e) = Some h" by auto
  note p = jm_inv_parts [OF inv]
  let ?k = "length (jm_infos (sy_m s))"
  let ?m = "(sy_m s)\<lparr>jm_infos := jm_infos (sy_m s) @ [\<lparr>ai_entity = e, ai_parent = ctx, ai_cancelled = False, ai_dbSaved = False\<rparr>],
      jm_active := (jm_active (sy_m s))(je_ID e \<mapsto> ?k)\<rparr>"
  have m: "extends (sy_m s) ?m" "inv_active ?m" "inv_store ?m"
    using p by (auto intro: extends_append inv_store_cong inv_active_add)
  have eq: "submitJobControl c ctx e traits delay s =
      post_io (IoPersist ?k ctx e h traits delay) (s\<lparr>sy_m := ?m, sy_ctl_at := CtlWait ?k c ctx\<rparr>)"
    using True h by (simp add: submitJobControl_def Let_def)
  show ?thesis unfolding eq
    by (rule runner_moves_inv [OF inv]) (use c m p in \<open>auto\<close>)
qed

text \<open>Changes of the manager that keep its infos, its jobs and its active map.\<close>

lemma send_with_m_inv:
  assumes inv: "jm_inv s" and m: "extends (sy_m s) m" "inv_active m" "inv_store m"
    and c: "c < n_callers s" "r = None \<Longrightarrow> sy_submitted s c = None"
  shows "jm_inv (send_result c r (s\<lparr>sy_m := m\<rparr>))"
  by (rule runner_moves_inv [OF inv]) (use m c in \<open>auto simp: posts split: if_splits\<close>)

lemma finalizeJobControl_inv:
  assumes inv: "jm_inv s"
  shows "jm_inv (finalizeJobControl i status msg s)"
proof (cases "jm_active (sy_m s) i")
  case None
  then show ?thesis using inv by (simp add: finalizeJobControl_def)
next
  case (Some k)
  note p = jm_inv_parts [OF inv]
  let ?m = "(sy_m s)\<lparr>jm_active := (jm_active (sy_m s))(i := None)\<rparr>"
  have m: "extends (sy_m s) ?m" "inv_active ?m" "inv_store ?m"
    using p inv_active_delete [of ?m "sy_m s" i, OF _ extends_same] by (auto intro: extends_same inv_store_cong)
  show ?thesis
    by (rule runner_moves_inv [OF inv]) (use Some m p in \<open>auto simp: finalizeJobControl_def upd_m_def\<close>)
qed

lemma scheduleExecution_simps [simp]:
  "sy_m (scheduleExecution e k h traits delay s) = sy_m s" "sy_ctl (scheduleExecution e k h traits delay s) = sy_ctl s"
  "sy_io (scheduleExecution e k h traits delay s) = sy_io s" "sy_ctl_at (scheduleExecution e k h traits delay s) = sy_ctl_at s"
  "sy_io_at (scheduleExecution e k h traits delay s) = sy_io_at s" "sy_callers (scheduleExecution e k h traits delay s) = sy_callers s"
  "sy_results (scheduleExecution e k h traits delay s) = sy_results s" "sy_submitted (scheduleExecution e k h traits delay s) = sy_submitted s"
  "sy_io_results (scheduleExecution e k h traits delay s) = sy_io_results s"
  "sy_scheduled (scheduleExecution e k h traits delay s) = sy_scheduled s @ [je_ID e]"
  "sy_recoveries (scheduleExecution e k h traits delay s) = sy_recoveries s" "sy_early (scheduleExecution e k h traits delay s) = sy_early s"
  "sy_executed (scheduleExecution e k h traits delay s) = sy_executed s" "sy_running (scheduleExecution e k h traits delay s) = sy_running s"
  "sy_updates (scheduleExecution e k h traits delay s) = sy_updates s"
  by (simp_all add: scheduleExecution_def Let_def)

lemma recover_closure_inv:
  assumes inv: "jm_inv s"
  shows "jm_inv (recover_closure job n s)"
proof (cases "jm_handlers (sy_m s) (je_Type job)")
  case None
  then show ?thesis
    by (intro runner_moves_inv [OF inv]) (use jm_inv_parts [OF inv] in \<open>auto simp: recover_closure_def Let_def\<close>)
next
  case (Some h)
  note p = jm_inv_parts [OF inv]
  let ?k = "length (jm_infos (sy_m s))"
  let ?m = "(sy_m s)\<lparr>jm_infos := jm_infos (sy_m s) @ [\<lparr>ai_entity = job, ai_parent = None, ai_cancelled = False, ai_dbSaved = True\<rparr>],
      jm_active := (jm_active (sy_m s))(je_ID job \<mapsto> ?k)\<rparr>"
  have m: "extends (sy_m s) ?m" "inv_active ?m" "inv_store ?m"
    using p by (auto intro: extends_append inv_store_cong inv_active_add)
  show ?thesis
    by (rule runner_moves_inv [OF inv]) (use Some m p in \<open>auto simp: recover_closure_def Let_def\<close>)
qed

lemma ctl_exec_inv:
  assumes inv: "jm_inv s" and ok: "ctl_task_ok (sy_submitted s) (n_callers s) t"
  shows "jm_inv (ctl_exec t s)"
proof -
  note p = jm_inv_parts [OF inv]
  have same: "jm_inv (send_result c r (s\<lparr>sy_m := m\<rparr>))"
    if "extends (sy_m s) m" "jm_active m = jm_active (sy_m s)" "jm_store m = jm_store (sy_m s)" "jm_keys m = jm_keys (sy_m s)"
      "jm_retryPolicy m = jm_retryPolicy (sy_m s)" "c < n_callers s" "sy_submitted s c = None" for c r m
    using inv_keeps [OF p(1,2) that(1-5)] that by (intro send_with_m_inv [OF inv]) auto
  show ?thesis
  proof (cases t)
    case (CtlRegister ty h c)
    then show ?thesis using ok same [of "(sy_m s)\<lparr>jm_handlers := (jm_handlers (sy_m s))(ty \<mapsto> h)\<rparr>" c None]
      by (simp add: upd_m_def extends_same)
  next
    case (CtlUnregister ty c)
    then show ?thesis using ok same [of "(sy_m s)\<lparr>jm_handlers := (jm_handlers (sy_m s))(ty := None)\<rparr>" c None]
      by (simp add: upd_m_def extends_same)
  next
    case (CtlSubmit c ctx e traits delay)
    then show ?thesis using ok submitJobControl_inv [OF inv] by simp
  next
    case (CtlCancel i c)
    then show ?thesis using ok same [of "sy_m s" c] same [of "cancel_info k (sy_m s)" c for k]
      by (auto simp: cancelJobControl_def extends_cancel_info split: option.splits)
  next
    case (CtlFinalize i status msg)
    then show ?thesis using finalizeJobControl_inv [OF inv] by simp
  next
    case (CtlRecover job n)
    then show ?thesis using recover_closure_inv [OF inv] by simp
  next
    case (CtlCancelAll c)
    then show ?thesis using ok same [of "cancel_all (sy_m s)" c None] by (simp add: upd_m_def extends_cancel_all)
  qed
qed

lemma ctl_step_inv:
  assumes inv: "jm_inv s" and st: "ctl_step s = Some s'"
  shows "jm_inv s'"
proof (cases "sy_ctl_at s")
  case CtlIdle
  with st obtain t ts where t: "sy_ctl s = t # ts" "s' = ctl_exec t (s\<lparr>sy_ctl := ts\<rparr>)"
    by (auto simp: ctl_step_def split: list.splits)
  have "jm_inv (s\<lparr>sy_ctl := ts\<rparr>)" by (rule jm_inv_drop [OF inv]) (use t in auto)
  from ctl_exec_inv [OF this, of t] ctl_task_head [OF inv t(1)] t(2) show ?thesis by simp
next
  case (CtlWait k c ctx)
  with st obtain r where r: "sy_io_results s k = Some r" "s' = send_result c r (s\<lparr>sy_ctl_at := CtlIdle\<rparr>)"
    by (auto simp: ctl_step_def split: option.splits)
  note p = jm_inv_parts [OF inv]
  have wait: "sy_submitted s c = Some (je_ID (entity_of (sy_m s) k))"
    using p(3) CtlWait by (simp add: inv_names_def)
  then have "c < n_callers s" using p(4) by (auto simp: dom_def subset_iff)
  moreover have "r = None \<longrightarrow> je_ID (entity_of (sy_m s) k) \<in> dom (jm_store (sy_m s))"
    using inv r(1) by (simp add: jm_inv_def inv_ack_def)
  ultimately show ?thesis unfolding r(2)
    by (intro runner_moves_inv [OF inv]) (use wait p in \<open>auto simp: send_result_def split: if_splits\<close>)
next
  case (CtlFin1 i status msg k)
  let ?m = "(cancel_info k (sy_m s))\<lparr>jm_pendingFinalize := jm_pendingFinalize (sy_m s) + 1\<rparr>"
  note p = jm_inv_parts [OF inv]
  have "extends (sy_m s) ?m" by (auto simp: extends_def)
  with inv_keeps [OF p(1,2) this] CtlFin1 st show ?thesis
    by (intro runner_moves_inv [OF inv]) (use p in \<open>auto simp: ctl_step_def upd_m_def\<close>)
next
  case (CtlFin2 i status msg)
  with st show ?thesis
    by (intro runner_moves_inv [OF inv]) (use jm_inv_parts [OF inv] in \<open>auto simp: ctl_step_def split: if_splits\<close>)
qed

lemma ctl_ctx_step_inv:
  assumes inv: "jm_inv s" and st: "ctl_ctx_step s = Some s'"
  shows "jm_inv s'"
proof -
  obtain k c ctx where at: "sy_ctl_at s = CtlWait k c ctx" "s' = send_result c (Some JmCtx) (s\<lparr>sy_ctl_at := CtlIdle\<rparr>)"
    using st by (auto simp: ctl_ctx_step_def split: ctl_at.splits if_splits)
  note p = jm_inv_parts [OF inv]
  have "sy_submitted s c \<noteq> None" using p(3) at(1) by (simp add: inv_names_def)
  then have "c < n_callers s" using p(4) by (auto simp: dom_def subset_iff)
  then show ?thesis unfolding at(2)
    by (intro runner_moves_inv [OF inv]) (use p in \<open>auto simp: send_result_def split: if_splits\<close>)
qed

lemma submit_fails_inv:
  assumes inv: "jm_inv s" and k: "k < length (jm_infos (sy_m s))"
  shows "jm_inv (submit_fails k e err s)"
proof -
  note p = jm_inv_parts [OF inv]
  let ?m = "cancel_info k ((sy_m s)\<lparr>jm_active := (jm_active (sy_m s))(je_ID e := None)\<rparr>)"
  have ext: "extends (sy_m s) ?m" by (simp add: extends_def)
  have m: "inv_active ?m" "inv_store ?m"
    using inv_active_delete [OF _ ext p(1), of "je_ID e"] p(2) by (auto intro: inv_store_cong)
  show ?thesis
    by (rule runner_moves_inv [OF inv])
      (use ext m p k in \<open>auto simp: submit_fails_def upd_m_def Let_def split: if_splits\<close>)
qed

lemma set_store_inv:
  assumes inv: "jm_inv s" and st: "inv_store (set_store i st (sy_m s))" "dom (jm_store (sy_m s)) \<subseteq> dom st"
  shows "jm_inv (upd_m (set_store i st) s)"
proof -
  note p = jm_inv_parts [OF inv]
  have ext: "extends (sy_m s) (set_store i st (sy_m s))" using st(2) by (rule extends_set_store)
  have "inv_active (set_store i st (sy_m s))" using inv_active_cong [OF _ ext p(1)] by simp
  then show ?thesis by (intro runner_moves_inv [OF inv]) (use ext st p in \<open>auto simp: upd_m_def\<close>)
qed

text \<open>A change of the places of the I/O goroutine and of ghost fields only.\<close>

lemma io_at_inv:
  assumes inv: "jm_inv s" and at: "io_at_ok (sy_m s) (sy_submitted s) (n_callers s) pc"
    and eq: "sy_m s' = sy_m s" "sy_submitted s' = sy_submitted s" "sy_callers s' = sy_callers s" "sy_io s' = sy_io s"
      "sy_ctl s' = sy_ctl s" "sy_ctl_at s' = sy_ctl_at s" "sy_results s' = sy_results s" "sy_io_results s' = sy_io_results s"
      "sy_io_at s' = pc"
  shows "jm_inv s'"
  by (rule runner_moves_inv [OF inv]) (use at jm_inv_parts [OF inv] in \<open>auto simp: eq\<close>)

lemma set_io_at_inv:
  "jm_inv s \<Longrightarrow> io_at_ok (sy_m s) (sy_submitted s) (n_callers s) pc \<Longrightarrow> jm_inv (s\<lparr>sy_io_at := pc\<rparr>)"
  by (rule io_at_inv) auto

lemma ghost_inv:
  assumes inv: "jm_inv s"
    and eq: "sy_m s' = sy_m s" "sy_submitted s' = sy_submitted s" "sy_callers s' = sy_callers s" "sy_io s' = sy_io s"
      "sy_ctl s' = sy_ctl s" "sy_ctl_at s' = sy_ctl_at s" "sy_results s' = sy_results s" "sy_io_results s' = sy_io_results s"
      "sy_io_at s' = sy_io_at s"
  shows "jm_inv s'"
  by (rule runner_moves_inv [OF inv]) (use jm_inv_parts [OF inv] in \<open>auto simp: eq\<close>)

lemma update_io_simps [simp]:
  "sy_ctl (update_io fl plan now canc i status msg s) = sy_ctl s" "sy_io (update_io fl plan now canc i status msg s) = sy_io s"
  "sy_ctl_at (update_io fl plan now canc i status msg s) = sy_ctl_at s" "sy_io_at (update_io fl plan now canc i status msg s) = sy_io_at s"
  "sy_callers (update_io fl plan now canc i status msg s) = sy_callers s"
  "sy_submitted (update_io fl plan now canc i status msg s) = sy_submitted s"
  "sy_results (update_io fl plan now canc i status msg s) = sy_results s"
  "sy_io_results (update_io fl plan now canc i status msg s) = sy_io_results s"
  "sy_scheduled (update_io fl plan now canc i status msg s) = sy_scheduled s"
  "sy_executed (update_io fl plan now canc i status msg s) = sy_executed s"
  "sy_exec (update_io fl plan now canc i status msg s) = sy_exec s" "sy_running (update_io fl plan now canc i status msg s) = sy_running s"
  "sy_recoveries (update_io fl plan now canc i status msg s) = sy_recoveries s" "sy_early (update_io fl plan now canc i status msg s) = sy_early s"
  "jm_infos (sy_m (update_io fl plan now canc i status msg s)) = jm_infos (sy_m s)"
  "jm_active (sy_m (update_io fl plan now canc i status msg s)) = jm_active (sy_m s)"
  by (simp_all add: update_io_def upd_m_def split: prod.split)

lemma update_io_inv:
  assumes inv: "jm_inv s"
  shows "jm_inv (update_io fl plan now canc i status msg s)"
    and "dom (jm_store (sy_m (update_io fl plan now canc i status msg s))) = dom (jm_store (sy_m s))"
proof -
  note p = jm_inv_parts [OF inv]
  obtain e st where r: "retried fl plan canc (mem_UpdateStatus now i status msg) (sy_m s) = (e, st)" by fastforce
  have st: "dom st = dom (jm_store (sy_m s))" "mem_invar st" using retried_update [OF _ r] p(2) by (auto simp: inv_store_def)
  then have "jm_inv (upd_m (set_store i st) s)"
    using p by (intro set_store_inv [OF inv] inv_store_set) auto
  then show "jm_inv (update_io fl plan now canc i status msg s)"
    by (rule ghost_inv) (auto simp: update_io_def r)
  show "dom (jm_store (sy_m (update_io fl plan now canc i status msg s))) = dom (jm_store (sy_m s))"
    using st by (simp add: update_io_def r upd_m_def)
qed

lemma send_io_inv:
  assumes inv: "jm_inv s" and c: "c < n_callers s" "sy_submitted s c = None"
  shows "jm_inv (recovery_ends c r s)"
  by (rule runner_moves_inv [OF inv])
    (use c jm_inv_parts [OF inv] in \<open>auto simp: recovery_ends_def send_result_def split: if_splits\<close>)

lemma io_begin_inv:
  assumes inv: "jm_inv s" and ok: "io_task_ok (sy_m s) (sy_submitted s) (n_callers s) t"
  shows "jm_inv (io_begin fl plan now t s)"
proof (cases t)
  case (IoPersist k ctx e h traits delay)
  then show ?thesis
    using ok submit_fails_inv [OF inv, of k] by (auto simp: io_begin_def intro!: set_io_at_inv [OF inv])
next
  case (IoUpdate ref i status msg)
  then show ?thesis using update_io_inv(1) [OF inv] by (simp add: io_begin_def)
next
  case (IoFinal i status msg)
  let ?s = "update_io fl plan (snd now) False i status msg s"
  have inv': "jm_inv ?s" by (rule update_io_inv(1) [OF inv])
  note p = jm_inv_parts [OF this]
  let ?m = "(sy_m ?s)\<lparr>jm_pendingFinalize := jm_pendingFinalize (sy_m ?s) - 1\<rparr>"
  have ext: "extends (sy_m ?s) ?m" by (rule extends_same) simp_all
  show ?thesis
    using inv_keeps [OF p(1,2) ext] ext
    by (intro runner_moves_inv [OF inv']) (auto simp: io_begin_def IoFinal upd_m_def)
next
  case (IoRecovery c ctx)
  then show ?thesis using ok by (auto simp: io_begin_def intro!: set_io_at_inv [OF inv])
qed

lemma persist_inv:
  assumes inv: "jm_inv s" and k: "k < length (jm_infos (sy_m s))" "entity_of (sy_m s) k = e"
    and r: "persistNewJobIO fl plan now True canc e (sy_m s) = (err, st)"
  shows "jm_inv (upd_m (set_store (je_ID e) st) s)" "err = None \<Longrightarrow> je_ID e \<in> dom st"
proof -
  note p = jm_inv_parts [OF inv]
  have pol: "0 \<le> rp_MaxRetries (jm_retryPolicy (sy_m s))" "mem_invar (jm_store (sy_m s))" using p(2) by (auto simp: inv_store_def)
  have c: "retried fl plan canc (mem_CreateJob now e) (sy_m s) = (err, st)" using r by (simp add: persistNewJobIO_def)
  note created = retried_create [OF pol(1) c]
  have "inv_store (set_store (je_ID e) st (sy_m s)) \<and> dom (jm_store (sy_m s)) \<subseteq> dom st"
    using created(1)
  proof
    assume "st = jm_store (sy_m s)"
    then show ?thesis using inv_store_set [OF p(2)] pol(2) by auto
  next
    assume "created now e (jm_store (sy_m s)) st"
    from created_inv [OF this pol(2)] show ?thesis using inv_store_set [OF p(2)] by auto
  qed
  then show "jm_inv (upd_m (set_store (je_ID e) st) s)" by (intro set_store_inv [OF inv]) auto
  show "je_ID e \<in> dom st" if "err = None" using created(2) [OF that] by (auto simp: created_def)
qed

lemma io_persisting_inv:
  assumes inv: "jm_inv s" and at: "sy_io_at s = IoPersisting k ctx e h traits delay" and st: "io_step fl True plan now order s = Some s'"
  shows "jm_inv s'"
proof -
  have k: "k < length (jm_infos (sy_m s))" "entity_of (sy_m s) k = e"
    using inv at by (simp_all add: jm_inv_def inv_names_def)
  obtain err st1 where r: "persistNewJobIO fl plan now True (ctx \<noteq> None) e (sy_m s) = (err, st1)" by fastforce
  note keep = persist_inv [OF inv k r]
  show ?thesis
  proof (cases err)
    case None
    then have s': "s' = (upd_m (set_store (je_ID e) st1) s)\<lparr>sy_io_at := IoPersisted k e h traits delay\<rparr>"
      using st at r by (simp add: io_step_def Let_def)
    show ?thesis unfolding s'
      by (rule set_io_at_inv [OF keep(1)]) (use None k keep(2) in \<open>auto simp: upd_m_def\<close>)
  next
    case (Some e1)
    then have s': "\<exists>e2. s' = submit_fails k e e2 (upd_m (set_store (je_ID e) st1) s)"
      using st at r by (auto simp: io_step_def Let_def)
    then show ?thesis using submit_fails_inv [OF keep(1), of k] k(1) by (auto simp: upd_m_def)
  qed
qed

lemma io_persisted_inv:
  assumes inv: "jm_inv s" and at: "sy_io_at s = IoPersisted k e h traits delay" and st: "io_step fl durable plan now order s = Some s'"
  shows "jm_inv s'"
proof -
  have k: "k < length (jm_infos (sy_m s))" "entity_of (sy_m s) k = e" "je_ID e \<in> dom (jm_store (sy_m s))"
    using inv at by (simp_all add: jm_inv_def inv_names_def)
  note p = jm_inv_parts [OF inv]
  show ?thesis
  proof (cases "job_done s k")
    case True
    then have "s' = submit_fails k e JmCtx s" using st at by (simp add: io_step_def Let_def)
    then show ?thesis using submit_fails_inv [OF inv k(1)] by simp
  next
    case False
    let ?m = "(sy_m s)\<lparr>jm_infos := (jm_infos (sy_m s))[k := (jm_infos (sy_m s) ! k)\<lparr>ai_dbSaved := True\<rparr>]\<rparr>"
    have ext: "extends (sy_m s) ?m" by (rule extends_infos_update(2)) simp_all
    have s': "s' = (scheduleExecution e k h traits delay (s\<lparr>sy_m := ?m\<rparr>))
        \<lparr>sy_io_results := (sy_io_results s)(k \<mapsto> None), sy_io_at := IoIdle\<rparr>"
      using False st at by (simp add: io_step_def Let_def upd_m_def)
    show ?thesis unfolding s'
      by (rule runner_moves_inv [OF inv])
        (use ext inv_keeps [OF p(1,2) ext] p k in \<open>auto simp: entity_update split: if_splits\<close>)
  qed
qed

lemma io_recovery_inv:
  assumes inv: "jm_inv s" and st: "io_step fl durable plan now order s = Some s'"
    and at: "\<And>k ctx e h traits delay. sy_io_at s \<noteq> IoPersisting k ctx e h traits delay"
      "\<And>k e h traits delay. sy_io_at s \<noteq> IoPersisted k e h traits delay" "sy_io_at s \<noteq> IoIdle"
  shows "jm_inv s'"
proof -
  have ok: "io_at_ok (sy_m s) (sy_submitted s) (n_callers s) (sy_io_at s)"
    using inv by (simp add: jm_inv_def inv_names_def)
  show ?thesis
  proof (cases "sy_io_at s")
    case (IoRecList c ctx)
    with st ok show ?thesis
      by (auto simp: io_step_def Let_def split: if_splits attempt.splits intro!: set_io_at_inv [OF inv] send_io_inv [OF inv])
  next
    case (IoRecMark c ctx jobs)
    show ?thesis
    proof (cases jobs)
      case Nil
      have "jm_inv (s\<lparr>sy_io_at := IoRecNext c ctx js, sy_recoveries := n, sy_early := b\<rparr>)" for js n b
        by (rule io_at_inv [OF inv, where pc = "IoRecNext c ctx js"]) (use ok IoRecMark in auto)
      with st ok IoRecMark Nil show ?thesis
        by (auto simp: io_step_def Let_def split: if_splits attempt.splits intro!: send_io_inv [OF inv])
    next
      case (Cons job js)
      let ?s = "update_io fl plan (snd now) (ctx \<noteq> None) (je_ID job) JobStatusFailed ''Interrupted by restart'' s"
      have "jm_inv (?s\<lparr>sy_io_at := IoRecMark c ctx js\<rparr>)"
        by (rule set_io_at_inv [OF update_io_inv(1) [OF inv]]) (use ok IoRecMark in auto)
      with st IoRecMark Cons show ?thesis by (auto simp: io_step_def Let_def)
    qed
  next
    case (IoRecNext c ctx jobs)
    show ?thesis
    proof (cases jobs)
      case Nil
      with st ok IoRecNext show ?thesis by (auto simp: io_step_def Let_def intro!: send_io_inv [OF inv])
    next
      case (Cons job js)
      with st ok IoRecNext show ?thesis
        by (intro runner_moves_inv [OF inv])
          (use jm_inv_parts [OF inv] in \<open>auto simp: io_step_def Let_def split: if_splits\<close>)
    qed
  next
    case (IoRecWait c ctx n jobs)
    with st ok show ?thesis
      by (auto simp: io_step_def Let_def split: if_splits intro!: set_io_at_inv [OF inv])
  qed (use at in auto)
qed

lemma io_step_inv:
  assumes inv: "jm_inv s" and st: "io_step fl True plan now order s = Some s'"
  shows "jm_inv s'"
proof (cases "sy_io_at s")
  case IoIdle
  with st obtain t ts where t: "sy_io s = t # ts" "s' = io_begin fl plan now t (s\<lparr>sy_io := ts\<rparr>)"
    by (auto simp: io_step_def Let_def split: list.splits)
  have "jm_inv (s\<lparr>sy_io := ts\<rparr>)" by (rule jm_inv_drop [OF inv, where ts = "[]"]) (use t in auto)
  moreover have "io_task_ok (sy_m s) (sy_submitted s) (n_callers s) t"
    using inv t(1) by (simp add: jm_inv_def inv_names_def)
  ultimately show ?thesis using io_begin_inv [of "s\<lparr>sy_io := ts\<rparr>" t] t(2) by simp
next
  case (IoPersisting k ctx e h traits delay)
  then show ?thesis by (rule io_persisting_inv [OF inv _ st])
next
  case (IoPersisted k e h traits delay)
  then show ?thesis by (rule io_persisted_inv [OF inv _ st])
qed (rule io_recovery_inv [OF inv st]; simp)+

lemma io_ctx_step_inv:
  assumes inv: "jm_inv s" and st: "io_ctx_step s = Some s'"
  shows "jm_inv s'"
proof -
  obtain c ctx n jobs where at: "sy_io_at s = IoRecWait c ctx n jobs" "s' = recovery_ends c (Some JmCtx) s"
    using st by (auto simp: io_ctx_step_def split: io_at.splits if_splits)
  moreover have "c < n_callers s" "sy_submitted s c = None"
    using inv at(1) by (simp_all add: jm_inv_def inv_names_def)
  ultimately show ?thesis using send_io_inv [OF inv] by simp
qed

lemma exec_step_inv:
  assumes inv: "jm_inv s" and st: "exec_step out pc s = Some (pc', s')"
  shows "jm_inv (set_running i (pc', s'))"
proof -
  have "jm_inv s'"
    by (rule runner_moves_inv [OF inv])
      (use st jm_inv_parts [OF inv] in \<open>cases pc; auto split: if_splits\<close>)+
  then show ?thesis by (rule ghost_inv) (simp_all add: set_running_def)
qed

lemma jm_step_inv:
  assumes inv: "jm_inv s" and st: "jm_step fl True l s = Some s'"
  shows "jm_inv s'"
proof (cases l)
  case (LCaller c)
  with st obtain pc s1 where "c < n_callers s" "caller_step c (sy_callers s ! c) s = Some (pc, s1)" "s' = set_caller c (pc, s1)"
    by (auto split: if_splits)
  then show ?thesis using caller_step_inv [OF inv] by simp
next
  case (LCallerCtx c)
  with st have "c < n_callers s" "s' = set_caller c (CallRet (Some JmCtx), s)" by (auto split: if_splits)
  then show ?thesis by (intro caller_moves_inv [OF inv, of c "CallRet (Some JmCtx)"]) (auto simp: set_caller_def)
next
  case (LExec i out)
  with st obtain pc' s1 where "exec_step out (sy_running s ! i) s = Some (pc', s1)" "s' = set_running i (pc', s1)"
    by (auto split: if_splits)
  then show ?thesis using exec_step_inv [OF inv] by simp
next
  case (LExecStart i)
  with st show ?thesis by (auto split: if_splits intro: ghost_inv [OF inv])
next
  case (LCtxDone n)
  with st show ?thesis by (auto intro: ghost_inv [OF inv])
qed (use st fresh_name [OF inv] in \<open>auto simp: RegisterHandler_def UnregisterHandler_def CancelJob_def Start_def from_caller_def
    intro!: closed_or_post_inv [OF inv] add_caller_inv [OF inv] SubmitDelayedJob_inv [OF inv] jm_Shutdown_inv [OF inv]
    intro: ctl_step_inv [OF inv] ctl_ctx_step_inv [OF inv] io_step_inv [OF inv] io_ctx_step_inv [OF inv]\<close>)

interpretation jobs: inv_system "\<lambda>s. \<exists>m. fresh_manager m \<and> s = jm_init m" "lstep (jm_step fl True)" jm_inv for fl
proof (unfold_locales, goal_cases)
  case (1 s)
  then show ?case by (auto intro: jm_init_inv)
next
  case (2 s t)
  then show ?case by (auto simp: lstep_def simp del: jm_step.simps intro: jm_step_inv)
qed

section \<open>At most one execution\<close>

fun ctl_recov :: "'h ctl_task \<Rightarrow> string list" where
  "ctl_recov (CtlRecover job n) = [je_ID job]" | "ctl_recov _ = []"

fun io_recov :: "'h io_at \<Rightarrow> string list" where
  "io_recov (IoRecNext c ctx jobs) = map je_ID jobs" | "io_recov (IoRecWait c ctx n jobs) = map je_ID jobs" | "io_recov _ = []"

text \<open>The jobs that a recovery is going to schedule.\<close>

definition recov_ids :: "('h, 'f) jm_sys \<Rightarrow> string list" where
  "recov_ids s = concat (map ctl_recov (sy_ctl s)) @ io_recov (sy_io_at s)"

fun persisted_id :: "'h io_at \<Rightarrow> string option" where
  "persisted_id (IoPersisted k e h traits delay) = Some (je_ID e)" | "persisted_id _ = None"

fun x_ids :: "'h exec_at \<Rightarrow> string list" where
  "x_ids (XCheck t) = [je_ID (ex_entity t)]" | "x_ids (XUpdate t) = [je_ID (ex_entity t)]"
| "x_ids (XHandler t) = [je_ID (ex_entity t)]" | "x_ids _ = []"

definition inv_once :: "('h, 'f) jm_sys \<Rightarrow> bool" where
  "inv_once s \<longleftrightarrow> (sy_recoveries s = 0 \<longrightarrow> recov_ids s = []) \<and>
     (sy_recoveries s \<le> 1 \<and> sy_early s \<longrightarrow>
        distinct (sy_scheduled s @ recov_ids s) \<and> set (sy_scheduled s @ recov_ids s) \<subseteq> dom (jm_store (sy_m s)) \<and>
        (\<forall>i. persisted_id (sy_io_at s) = Some i \<longrightarrow> i \<notin> set (sy_scheduled s @ recov_ids s)))"

definition inv_exec :: "('h, 'f) jm_sys \<Rightarrow> bool" where
  "inv_exec s \<longleftrightarrow> mset (sy_executed s) + mset (map (\<lambda>t. je_ID (ex_entity t)) (sy_exec s)) + held x_ids (sy_running s) \<subseteq>#
     mset (sy_scheduled s)"

text \<open>Steps that schedule nothing and at most drop jobs to recover.\<close>

lemma inv_once_frame:
  assumes "inv_once s" "sy_recoveries s' = sy_recoveries s" "sy_early s' = sy_early s" "sy_scheduled s' = sy_scheduled s"
    and "distinct (recov_ids s) \<Longrightarrow> distinct (recov_ids s')" "set (recov_ids s') \<subseteq> set (recov_ids s)"
    and "dom (jm_store (sy_m s)) \<subseteq> dom (jm_store (sy_m s'))"
    and "\<And>i. persisted_id (sy_io_at s') = Some i \<Longrightarrow> persisted_id (sy_io_at s) = Some i \<or> i \<notin> dom (jm_store (sy_m s))"
  shows "inv_once s'"
proof -
  have "recov_ids s' = []" if "recov_ids s = []" using assms(6) that by simp
  moreover have "distinct (sy_scheduled s' @ recov_ids s') \<and> set (sy_scheduled s' @ recov_ids s') \<subseteq> dom (jm_store (sy_m s')) \<and>
      (\<forall>i. persisted_id (sy_io_at s') = Some i \<longrightarrow> i \<notin> set (sy_scheduled s' @ recov_ids s'))"
    if "sy_recoveries s \<le> 1 \<and> sy_early s"
    using that assms unfolding inv_once_def by (auto 0 3)
  ultimately show ?thesis using assms(1-3) unfolding inv_once_def by metis
qed

lemma recov_ids_simps:
  "recov_ids (s\<lparr>sy_ctl := t # ts\<rparr>) = ctl_recov t @ recov_ids (s\<lparr>sy_ctl := ts\<rparr>)"
  by (simp add: recov_ids_def)

lemma inv_once_same:
  assumes "inv_once s" "sy_recoveries s' = sy_recoveries s" "sy_early s' = sy_early s" "sy_scheduled s' = sy_scheduled s"
    "recov_ids s' = recov_ids s" "sy_io_at s' = sy_io_at s" "jm_store (sy_m s') = jm_store (sy_m s)"
  shows "inv_once s'"
  by (rule inv_once_frame [OF assms(1)]) (use assms in auto)

lemma ctl_exec_once:
  assumes inv: "inv_once (s\<lparr>sy_ctl := t # ts\<rparr>)"
  shows "inv_once (ctl_exec t (s\<lparr>sy_ctl := ts\<rparr>))"
proof (cases t)
  case (CtlSubmit c ctx e traits delay)
  show ?thesis
    by (rule inv_once_same [OF inv])
      (auto simp: CtlSubmit submitJobControl_def Let_def recov_ids_def send_result_def split: option.splits)
next
  case (CtlRecover job n)
  show ?thesis
  proof (cases "jm_handlers (sy_m s) (je_Type job)")
    case None
    show ?thesis
      by (rule inv_once_frame [OF inv]) (auto simp: CtlRecover None recover_closure_def Let_def recov_ids_def)
  next
    case (Some h)
    let ?s = "ctl_exec t (s\<lparr>sy_ctl := ts\<rparr>)"
    have "sy_scheduled ?s = sy_scheduled s @ [je_ID job]" "recov_ids ?s = recov_ids (s\<lparr>sy_ctl := ts\<rparr>)"
      "sy_recoveries ?s = sy_recoveries s" "sy_early ?s = sy_early s" "jm_store (sy_m ?s) = jm_store (sy_m s)" "sy_io_at ?s = sy_io_at s"
      by (auto simp: CtlRecover Some recover_closure_def Let_def recov_ids_def scheduleExecution_def)
    with inv show ?thesis by (auto simp: inv_once_def recov_ids_simps CtlRecover)
  qed
next
  case (CtlCancel i c)
  show ?thesis
    by (rule inv_once_same [OF inv])
      (auto simp: CtlCancel cancelJobControl_def recov_ids_def send_result_def split: option.splits)
next
  case (CtlFinalize i status msg)
  show ?thesis
    by (rule inv_once_same [OF inv])
      (auto simp: CtlFinalize finalizeJobControl_def upd_m_def recov_ids_def split: option.splits)
qed (rule inv_once_same [OF inv]; simp add: recov_ids_def send_result_def upd_m_def)+

lemma ctl_step_once:
  assumes inv: "inv_once s" and st: "ctl_step s = Some s'"
  shows "inv_once s'"
proof (cases "sy_ctl_at s")
  case CtlIdle
  with st obtain t ts where t: "sy_ctl s = t # ts" "s' = ctl_exec t (s\<lparr>sy_ctl := ts\<rparr>)"
    by (auto simp: ctl_step_def split: list.splits)
  have "s\<lparr>sy_ctl := t # ts\<rparr> = s" using t(1) by simp
  with inv have "inv_once (s\<lparr>sy_ctl := t # ts\<rparr>)" by simp
  from ctl_exec_once [OF this] t(2) show ?thesis by simp
next
  case (CtlWait k c ctx)
  show ?thesis
    by (rule inv_once_same [OF inv]) (use st in \<open>auto simp: CtlWait ctl_step_def recov_ids_def send_result_def split: option.splits\<close>)
next
  case (CtlFin1 i status msg k)
  show ?thesis
    by (rule inv_once_same [OF inv]) (use st in \<open>auto simp: CtlFin1 ctl_step_def recov_ids_def upd_m_def\<close>)
next
  case (CtlFin2 i status msg)
  show ?thesis
    by (rule inv_once_same [OF inv]) (use st in \<open>auto simp: CtlFin2 ctl_step_def recov_ids_def\<close>)
qed

lemma caller_step_once:
  assumes inv: "inv_once s" and jm: "jm_inv s" and c: "c < n_callers s"
    and st: "caller_step c (sy_callers s ! c) s = Some (pc, s')"
  shows "inv_once (set_caller c (pc, s'))"
proof -
  have "caller_ok (sy_submitted s) (n_callers s) c (sy_callers s ! c)"
    using jm c by (simp add: jm_inv_def inv_names_def)
  then have "set (sy_ctl s') \<subseteq> {} \<or> (\<exists>t. ctl_recov t = [] \<and> sy_ctl s' = sy_ctl s @ [t]) \<or> sy_ctl s' = sy_ctl s"
    using st by (cases "sy_callers s ! c") (auto simp: from_caller_def split: if_splits ctl_task.splits)
  moreover have "sy_io_at s' = sy_io_at s" using st by (cases "sy_callers s ! c") (auto split: if_splits)
  ultimately have r: "recov_ids s' = recov_ids s \<or> recov_ids s' = io_recov (sy_io_at s)" by (auto simp: recov_ids_def)
  have "sy_recoveries s' = sy_recoveries s" "sy_early s' = sy_early s" "sy_scheduled s' = sy_scheduled s" "sy_m s' = sy_m s"
    using st by (cases "sy_callers s ! c"; auto split: if_splits)+
  moreover have "recov_ids (set_caller c (pc, s')) = recov_ids s'" by (simp add: recov_ids_def set_caller_def)
  moreover have "distinct (recov_ids s) \<Longrightarrow> distinct (recov_ids s')" "set (recov_ids s') \<subseteq> set (recov_ids s)"
    using r by (elim disjE; simp add: recov_ids_def [of s])+
  ultimately show ?thesis
    using \<open>sy_io_at s' = sy_io_at s\<close> by (intro inv_once_frame [OF inv]) (simp_all add: set_caller_def)
qed

lemma submit_fails_once:
  assumes "inv_once s" "io_recov (sy_io_at s) = []"
  shows "inv_once (submit_fails k e err s)"
  by (rule inv_once_frame [OF assms(1)]) (use assms(2) in \<open>auto simp: submit_fails_def upd_m_def Let_def recov_ids_def\<close>)

lemma io_begin_once:
  assumes inv: "inv_once s" and jm: "jm_inv s" and at: "sy_io_at s = IoIdle"
  shows "inv_once (io_begin fl plan now t s)"
proof (cases t)
  case (IoPersist k ctx e h traits delay)
  show ?thesis
  proof (cases "job_done s k")
    case True
    then show ?thesis using submit_fails_once [OF inv] by (simp add: io_begin_def IoPersist at)
  next
    case False
    show ?thesis by (rule inv_once_frame [OF inv]) (auto simp: io_begin_def IoPersist False recov_ids_def at)
  qed
next
  case (IoUpdate ref i status msg)
  show ?thesis
    by (rule inv_once_frame [OF inv]) (use update_io_inv(2) [OF jm] in \<open>auto simp: io_begin_def IoUpdate recov_ids_def\<close>)
next
  case (IoFinal i status msg)
  show ?thesis
    by (rule inv_once_frame [OF inv]) (use update_io_inv(2) [OF jm] in \<open>auto simp: io_begin_def IoFinal recov_ids_def upd_m_def\<close>)
next
  case (IoRecovery c ctx)
  show ?thesis by (rule inv_once_frame [OF inv]) (auto simp: io_begin_def IoRecovery recov_ids_def at)
qed

lemma recoverable_ids:
  assumes jm: "jm_inv s" and ord: "distinct order" "set order = set (jm_keys (sy_m s))"
    and js: "js = jobs_of (mem_GetRecoverableJobs order (jm_store (sy_m s)))"
  shows "distinct (map je_ID js)" "set (map je_ID js) \<subseteq> dom (jm_store (sy_m s))"
proof -
  have inv: "mem_invar (jm_store (sy_m s))" "range_order order (jm_store (sy_m s))"
    using jm ord by (auto simp: jm_inv_def inv_store_def range_order_def)
  from mem.recoverable_exact [OF this] obtain js' where js': "mem_GetRecoverableJobs order (jm_store (sy_m s)) = Inr js'"
    "distinct (map je_ID js')" "set js' = {j. \<exists>i. mem_GetJob i (jm_store (sy_m s)) = Inr j \<and> je_Status j = JobStatusPending}" by blast
  then show "distinct (map je_ID js)" using js by (simp add: jobs_of_def)
  have "je_ID j \<in> dom (jm_store (sy_m s))" if "mem_GetJob i (jm_store (sy_m s)) = Inr j" for i j
    using that inv(1) by (auto simp: mem_GetJob_def mem_invar_def split: option.splits)
  then show "set (map je_ID js) \<subseteq> dom (jm_store (sy_m s))" using js js'(1,3) by (auto simp: jobs_of_def)
qed

lemma io_persist_once:
  assumes inv: "inv_once s" and jm: "jm_inv s" and at: "sy_io_at s = IoPersisting k ctx e h traits delay"
    and st: "io_step fl True plan now order s = Some s'"
  shows "inv_once s'"
proof -
  have k: "k < length (jm_infos (sy_m s))" "entity_of (sy_m s) k = e"
    using jm at by (simp_all add: jm_inv_def inv_names_def)
  obtain err st1 where r: "persistNewJobIO fl plan now True (ctx \<noteq> None) e (sy_m s) = (err, st1)" by fastforce
  then have c: "retried fl plan (ctx \<noteq> None) (mem_CreateJob now e) (sy_m s) = (err, st1)" by (simp add: persistNewJobIO_def)
  have pol: "0 \<le> rp_MaxRetries (jm_retryPolicy (sy_m s))" using jm by (simp add: jm_inv_def inv_store_def)
  note created = retried_create [OF pol c]
  have sub: "dom (jm_store (sy_m s)) \<subseteq> dom st1" using created(1) by (auto simp: created_def)
  show ?thesis
  proof (cases err)
    case None
    have "je_ID e \<notin> dom (jm_store (sy_m s))" using created(2) [OF None] by (auto simp: created_def)
    moreover have "s' = (upd_m (set_store (je_ID e) st1) s)\<lparr>sy_io_at := IoPersisted k e h traits delay\<rparr>"
      using st at r None by (simp add: io_step_def Let_def)
    ultimately show ?thesis
      by (intro inv_once_frame [OF inv]) (use sub at in \<open>auto simp: recov_ids_def upd_m_def\<close>)
  next
    case (Some e1)
    then obtain e2 where s': "s' = submit_fails k e e2 (upd_m (set_store (je_ID e) st1) s)"
      using st at r by (auto simp: io_step_def Let_def)
    have "inv_once (upd_m (set_store (je_ID e) st1) s)"
      by (rule inv_once_frame [OF inv]) (use sub in \<open>auto simp: recov_ids_def upd_m_def\<close>)
    then show ?thesis unfolding s' by (rule submit_fails_once) (simp add: upd_m_def at)
  qed
qed

lemma io_persisted_once:
  assumes inv: "inv_once s" and jm: "jm_inv s" and at: "sy_io_at s = IoPersisted k e h traits delay"
    and st: "io_step fl durable plan now order s = Some s'"
  shows "inv_once s'"
proof (cases "job_done s k")
  case True
  then have "s' = submit_fails k e JmCtx s" using st at by (simp add: io_step_def Let_def)
  then show ?thesis using submit_fails_once [OF inv] at by simp
next
  case False
  have stored: "je_ID e \<in> dom (jm_store (sy_m s))" using jm at by (simp add: jm_inv_def inv_names_def)
  have "sy_scheduled s' = sy_scheduled s @ [je_ID e]" "recov_ids s' = recov_ids s" "persisted_id (sy_io_at s') = None"
    "sy_recoveries s' = sy_recoveries s" "sy_early s' = sy_early s" "jm_store (sy_m s') = jm_store (sy_m s)"
    using False st at by (auto simp: io_step_def Let_def upd_m_def recov_ids_def)
  with inv stored at show ?thesis by (auto simp: inv_once_def)
qed

lemma io_list_once:
  assumes inv: "inv_once s" and jm: "jm_inv s" and at: "sy_io_at s = IoRecMark c ctx []"
    and st: "io_step fl durable plan now order s = Some s'"
  shows "inv_once s'"
proof (cases "attempt_at plan 0")
  case AttemptOk
  let ?js = "jobs_of (mem_GetRecoverableJobs order (jm_store (sy_m s)))"
  have ord: "distinct order" "set order = set (jm_keys (sy_m s))" using st at by (auto simp: io_step_def Let_def split: if_splits)
  have s': "s' = s\<lparr>sy_io_at := IoRecNext c ctx ?js, sy_recoveries := Suc (sy_recoveries s), sy_early := (sy_early s \<and> sy_scheduled s = [])\<rparr>"
    using st at AttemptOk by (auto simp: io_step_def Let_def split: if_splits)
  note ids = recoverable_ids [OF jm ord refl]
  have "recov_ids s' = map je_ID ?js" if "sy_recoveries s = 0"
    using inv that by (simp add: inv_once_def recov_ids_def s')
  moreover have "sy_recoveries s' = Suc (sy_recoveries s)" "sy_early s' = (sy_early s \<and> sy_scheduled s = [])"
    "sy_scheduled s' = sy_scheduled s" "sy_m s' = sy_m s" "persisted_id (sy_io_at s') = None" by (simp_all add: s')
  ultimately show ?thesis using ids unfolding inv_once_def by simp
qed (rule inv_once_frame [OF inv]; use st at in \<open>auto simp: io_step_def Let_def recov_ids_def recovery_ends_def send_result_def split: if_splits\<close>)+

lemma io_recovery_once:
  assumes inv: "inv_once s" and jm: "jm_inv s" and st: "io_step fl durable plan now order s = Some s'"
    and at: "\<And>k ctx e h traits delay. sy_io_at s \<noteq> IoPersisting k ctx e h traits delay"
      "\<And>k e h traits delay. sy_io_at s \<noteq> IoPersisted k e h traits delay" "sy_io_at s \<noteq> IoIdle"
  shows "inv_once s'"
proof (cases "sy_io_at s")
  case (IoRecList c ctx)
  show ?thesis
    by (rule inv_once_frame [OF inv])
      (use st IoRecList in \<open>auto simp: io_step_def Let_def recov_ids_def recovery_ends_def send_result_def split: if_splits attempt.splits\<close>)
next
  case (IoRecMark c ctx jobs)
  show ?thesis
  proof (cases jobs)
    case Nil
    with IoRecMark io_list_once [OF inv jm _ st] show ?thesis by simp
  next
    case (Cons job js)
    have s': "s' = (update_io fl plan (snd now) (ctx \<noteq> None) (je_ID job) JobStatusFailed ''Interrupted by restart'' s)
        \<lparr>sy_io_at := IoRecMark c ctx js\<rparr>"
      using st IoRecMark Cons by (simp add: io_step_def Let_def)
    show ?thesis
      by (rule inv_once_frame [OF inv]) (simp_all add: s' IoRecMark recov_ids_def update_io_inv(2) [OF jm])
  qed
next
  case (IoRecNext c ctx jobs)
  show ?thesis
  proof (cases jobs)
    case Nil
    show ?thesis
      by (rule inv_once_frame [OF inv])
        (use st IoRecNext Nil in \<open>auto simp: io_step_def Let_def recov_ids_def recovery_ends_def send_result_def\<close>)
  next
    case (Cons job js)
    let ?A = "concat (map ctl_recov (sy_ctl s))" and ?B = "map je_ID js"
    have s': "s' = post_ctl (CtlRecover job (sy_next s)) (s\<lparr>sy_next := Suc (sy_next s), sy_io_at := IoRecWait c ctx (sy_next s) js\<rparr>)"
      using st IoRecNext Cons by (simp add: io_step_def Let_def)
    have r: "recov_ids s = ?A @ je_ID job # ?B" "recov_ids s' = (if sy_ctl_open s then ?A @ je_ID job # ?B else ?A @ ?B)"
      by (simp_all add: s' IoRecNext Cons recov_ids_def)
    show ?thesis by (rule inv_once_frame [OF inv]) (unfold r, simp_all add: s', auto)
  qed
next
  case (IoRecWait c ctx n jobs)
  then have s': "s' = s\<lparr>sy_io_at := IoRecNext c ctx jobs\<rparr>" using st by (simp add: io_step_def Let_def split: if_splits)
  have "recov_ids s' = recov_ids s" by (simp add: s' IoRecWait recov_ids_def)
  then show ?thesis by (intro inv_once_frame [OF inv]) (simp_all add: s')
qed (use at in auto)

lemma io_step_once:
  assumes inv: "inv_once s" and jm: "jm_inv s" and st: "io_step fl True plan now order s = Some s'"
  shows "inv_once s'"
proof (cases "sy_io_at s")
  case IoIdle
  with st obtain t ts where t: "sy_io s = t # ts" "s' = io_begin fl plan now t (s\<lparr>sy_io := ts\<rparr>)"
    by (auto simp: io_step_def Let_def split: list.splits)
  have "jm_inv (s\<lparr>sy_io := ts\<rparr>)" by (rule jm_inv_drop [OF jm, where ts = "[]"]) (use t in auto)
  moreover have "inv_once (s\<lparr>sy_io := ts\<rparr>)" by (rule inv_once_same [OF inv]) (simp_all add: recov_ids_def)
  ultimately show ?thesis using io_begin_once [of "s\<lparr>sy_io := ts\<rparr>"] IoIdle t(2) by simp
next
  case (IoPersisting k ctx e h traits delay)
  then show ?thesis by (rule io_persist_once [OF inv jm _ st])
next
  case (IoPersisted k e h traits delay)
  then show ?thesis by (rule io_persisted_once [OF inv jm _ st])
qed (rule io_recovery_once [OF inv jm st]; simp)+

lemma exec_step_once:
  assumes inv: "inv_once s" and st: "exec_step out pc s = Some (pc', s')"
  shows "inv_once (set_running i (pc', s'))"
  by (rule inv_once_same [OF inv])
    (use st in \<open>cases pc; auto simp: set_running_def recov_ids_def split: if_splits\<close>)+

lemma jm_step_once:
  assumes inv: "inv_once s" and jm: "jm_inv s" and st: "jm_step fl True l s = Some s'"
  shows "inv_once s'"
proof (cases l)
  case (LCaller c)
  with st obtain pc s1 where "c < n_callers s" "caller_step c (sy_callers s ! c) s = Some (pc, s1)" "s' = set_caller c (pc, s1)"
    by (auto split: if_splits)
  then show ?thesis using caller_step_once [OF inv jm] by simp
next
  case LCtl
  then show ?thesis using st ctl_step_once [OF inv] by simp
next
  case LCtlCtx
  show ?thesis
    by (rule inv_once_same [OF inv])
      (use st LCtlCtx in \<open>auto simp: ctl_ctx_step_def recov_ids_def send_result_def split: ctl_at.splits if_splits\<close>)
next
  case (LIo plan now order)
  then show ?thesis using st io_step_once [OF inv jm] by simp
next
  case LIoCtx
  show ?thesis
    by (rule inv_once_frame [OF inv])
      (use st LIoCtx in \<open>auto simp: io_ctx_step_def recov_ids_def recovery_ends_def send_result_def split: io_at.splits if_splits\<close>)
next
  case (LExec i out)
  with st obtain pc' s1 where "exec_step out (sy_running s ! i) s = Some (pc', s1)" "s' = set_running i (pc', s1)"
    by (auto split: if_splits)
  then show ?thesis using exec_step_once [OF inv] by simp
qed (rule inv_once_same [OF inv];
    use st in \<open>auto simp: SubmitDelayedJob_def RegisterHandler_def UnregisterHandler_def CancelJob_def Start_def jm_Shutdown_def
      closed_or_post_def add_caller_def set_caller_def upd_m_def recov_ids_def Let_def split: if_splits sum.splits\<close>)+

text \<open>Executed, waiting and running jobs are among the scheduled ones.\<close>

lemma inv_exec_frame:
  assumes "inv_exec s" "sy_executed s' = sy_executed s" "sy_running s' = sy_running s"
    and "mset (map (\<lambda>t. je_ID (ex_entity t)) (sy_exec s')) + mset (sy_scheduled s) \<subseteq>#
      mset (map (\<lambda>t. je_ID (ex_entity t)) (sy_exec s)) + mset (sy_scheduled s')"
  shows "inv_exec s'"
proof -
  let ?ids = "\<lambda>s. mset (map (\<lambda>t. je_ID (ex_entity t)) (sy_exec s))"
  let ?A = "mset (sy_executed s) + held x_ids (sy_running s)"
  have "?A + ?ids s \<subseteq># mset (sy_scheduled s)" using assms(1) by (simp add: inv_exec_def ac_simps)
  then have "?A + ?ids s + (?ids s' + mset (sy_scheduled s)) \<subseteq># mset (sy_scheduled s) + (?ids s + mset (sy_scheduled s'))"
    using assms(4) by (rule subset_mset.add_mono)
  then have "(?A + ?ids s') + (?ids s + mset (sy_scheduled s)) \<subseteq># mset (sy_scheduled s') + (?ids s + mset (sy_scheduled s))"
    by (simp add: ac_simps)
  then have "?A + ?ids s' \<subseteq># mset (sy_scheduled s')" by simp
  with assms(2,3) show ?thesis by (simp add: inv_exec_def ac_simps)
qed

lemma inv_exec_same:
  assumes "inv_exec s" "sy_executed s' = sy_executed s" "sy_running s' = sy_running s" "sy_exec s' = sy_exec s"
    "sy_scheduled s' = sy_scheduled s"
  shows "inv_exec s'"
  using assms by (simp add: inv_exec_def)

lemma schedule_exec_inv:
  "inv_exec s \<Longrightarrow> inv_exec (scheduleExecution e k h traits delay s)"
  by (rule inv_exec_frame [of s]) (auto simp: scheduleExecution_def Let_def)

lemma exec_step_exec:
  assumes inv: "inv_exec s" and i: "i < length (sy_running s)" and st: "exec_step out (sy_running s ! i) s = Some (pc', s')"
  shows "inv_exec (set_running i (pc', s'))"
proof -
  have eq: "sy_running s' = sy_running s" "sy_exec s' = sy_exec s" "sy_scheduled s' = sy_scheduled s"
    using st by (cases "sy_running s ! i"; auto)+
  let ?E = "mset (sy_executed s)" and ?E' = "mset (sy_executed s')" and ?a = "mset (x_ids (sy_running s ! i))" and ?b = "mset (x_ids pc')"
  let ?H = "held x_ids (sy_running s)" and ?H' = "held x_ids ((sy_running s)[i := pc'])"
  have ex: "?E' + ?b \<subseteq># ?E + ?a"
    using st by (cases "sy_running s ! i") (auto split: option.splits if_splits)
  have "(?E' + ?H') + ?a = (?E' + ?b) + ?H"
    using held_update [OF i, of x_ids pc'] by (metis add.assoc add.commute)
  also have "\<dots> \<subseteq># (?E + ?a) + ?H" using ex by simp
  also have "\<dots> = (?E + ?H) + ?a" by (simp add: ac_simps)
  finally have le: "?E' + ?H' \<subseteq># ?E + ?H" by simp
  let ?X = "mset (map (\<lambda>t. je_ID (ex_entity t)) (sy_exec s))"
  have "?E' + ?X + ?H' \<subseteq># ?E + ?X + ?H" using subset_mset.add_mono [OF le subset_mset.order_refl [of ?X]] by (simp add: ac_simps)
  also have "\<dots> \<subseteq># mset (sy_scheduled s)" using inv by (simp add: inv_exec_def)
  finally show ?thesis using eq by (simp add: inv_exec_def set_running_def)
qed

lemma update_io_exec: "inv_exec s \<Longrightarrow> inv_exec (update_io fl plan now canc i status msg s)"
  by (rule inv_exec_same) auto

lemma io_step_exec:
  assumes inv: "inv_exec s" and st: "io_step fl durable plan now order s = Some s'"
  shows "inv_exec s'"
proof (cases "sy_io_at s")
  case IoIdle
  with st obtain t ts where t: "sy_io s = t # ts" "s' = io_begin fl plan now t (s\<lparr>sy_io := ts\<rparr>)"
    by (auto simp: io_step_def Let_def split: list.splits)
  show ?thesis
    by (rule inv_exec_same [OF inv]; use t(2) in \<open>cases t; auto simp: io_begin_def submit_fails_def upd_m_def Let_def split: if_splits\<close>)
next
  case (IoPersisting k ctx e h traits delay)
  show ?thesis
    by (rule inv_exec_same [OF inv];
        use st IoPersisting in \<open>auto simp: io_step_def submit_fails_def upd_m_def Let_def split: prod.splits option.splits\<close>)
next
  case (IoPersisted k e h traits delay)
  show ?thesis
  proof (cases "job_done s k")
    case True
    show ?thesis
      by (rule inv_exec_same [OF inv]; use st IoPersisted True in \<open>auto simp: io_step_def submit_fails_def upd_m_def Let_def\<close>)
  next
    case False
    let ?s1 = "upd_m (\<lambda>m. m\<lparr>jm_infos := (jm_infos m)[k := (jm_infos m ! k)\<lparr>ai_dbSaved := True\<rparr>]\<rparr>) s"
    have "inv_exec ?s1" by (rule inv_exec_same [OF inv]) (simp_all add: upd_m_def)
    then have "inv_exec (scheduleExecution e k h traits delay ?s1)" by (rule schedule_exec_inv)
    then show ?thesis
      by (rule inv_exec_same) (use st IoPersisted False in \<open>auto simp: io_step_def Let_def\<close>)
  qed
next
  case (IoRecMark c ctx jobs)
  show ?thesis
    by (rule inv_exec_same [OF inv];
        use st IoRecMark in \<open>cases jobs; auto simp: io_step_def recovery_ends_def send_result_def Let_def split: if_splits attempt.splits\<close>)
next
  case (IoRecNext c ctx jobs)
  show ?thesis
    by (rule inv_exec_same [OF inv];
        use st IoRecNext in \<open>cases jobs; auto simp: io_step_def recovery_ends_def send_result_def Let_def\<close>)
qed (rule inv_exec_same [OF inv];
    use st in \<open>auto simp: io_step_def recovery_ends_def send_result_def Let_def split: if_splits attempt.splits\<close>)+

lemma jm_step_exec:
  assumes inv: "inv_exec s" and st: "jm_step fl durable l s = Some s'"
  shows "inv_exec s'"
proof (cases l)
  case (LCaller c)
  then have "sy_executed s' = sy_executed s" "sy_running s' = sy_running s" "sy_scheduled s' = sy_scheduled s"
    "sy_exec s' = sy_exec s \<or> sy_exec s' = []"
    using st by (cases "sy_callers s ! c"; auto simp: set_caller_def split: if_splits)+
  then show ?thesis by (intro inv_exec_frame [OF inv]) auto
next
  case LCtl
  show ?thesis
  proof (cases "sy_ctl_at s")
    case CtlIdle
    with st LCtl obtain t ts where t: "sy_ctl s = t # ts" "s' = ctl_exec t (s\<lparr>sy_ctl := ts\<rparr>)"
      by (auto simp: ctl_step_def split: list.splits)
    show ?thesis
    proof (cases t)
      case (CtlRecover job n)
      show ?thesis
        unfolding t(2) CtlRecover
        by (auto simp: recover_closure_def Let_def split: option.split intro!: schedule_exec_inv inv_exec_same [OF inv])
    qed (rule inv_exec_same [OF inv]; use t(2) in \<open>auto simp: submitJobControl_def cancelJobControl_def finalizeJobControl_def
        send_result_def upd_m_def Let_def split: option.splits\<close>)+
  qed (rule inv_exec_same [OF inv]; use st LCtl in \<open>auto simp: ctl_step_def send_result_def upd_m_def split: option.splits\<close>)+
next
  case (LIo plan now order)
  then show ?thesis using st io_step_exec [OF inv] by simp
next
  case (LExec i out)
  with st obtain pc' s1 where "i < length (sy_running s)" "exec_step out (sy_running s ! i) s = Some (pc', s1)" "s' = set_running i (pc', s1)"
    by (auto split: if_splits)
  then show ?thesis using exec_step_exec [OF inv] by simp
next
  case (LExecStart i)
  then have s': "i < length (sy_exec s)" "s' = s\<lparr>sy_exec := take i (sy_exec s) @ drop (Suc i) (sy_exec s),
                   sy_running := sy_running s @ [XCheck (sy_exec s ! i)]\<rparr>" using st by (auto split: if_splits)
  have "mset (sy_exec s) = add_mset (sy_exec s ! i) (mset (take i (sy_exec s) @ drop (Suc i) (sy_exec s)))"
    using s'(1) by (metis id_take_nth_drop mset.simps(2) mset_append union_mset_add_mset_right)
  then have "mset (map (\<lambda>t. je_ID (ex_entity t)) (sy_exec s)) =
      add_mset (je_ID (ex_entity (sy_exec s ! i))) (mset (map (\<lambda>t. je_ID (ex_entity t)) (take i (sy_exec s) @ drop (Suc i) (sy_exec s))))"
    by simp
  with inv show ?thesis unfolding s'(2) inv_exec_def by (simp add: ac_simps)
qed (rule inv_exec_same [OF inv];
    use st in \<open>auto simp: SubmitDelayedJob_def RegisterHandler_def UnregisterHandler_def CancelJob_def Start_def jm_Shutdown_def
      closed_or_post_def add_caller_def set_caller_def upd_m_def send_result_def ctl_ctx_step_def io_ctx_step_def recovery_ends_def Let_def
      split: if_splits sum.splits ctl_at.splits io_at.splits\<close>)+

lemma jm_init_once: "inv_once (jm_init m) \<and> inv_exec (jm_init m)"
  by (simp add: inv_once_def inv_exec_def jm_init_def recov_ids_def)

interpretation jobs_once: inv_system "\<lambda>s. \<exists>m. fresh_manager m \<and> s = jm_init m" "lstep (jm_step fl True)"
  "\<lambda>s. jm_inv s \<and> inv_once s \<and> inv_exec s" for fl
proof (unfold_locales, goal_cases)
  case (1 s)
  then show ?case using jm_init_inv jm_init_once by blast
next
  case (2 s t)
  then show ?case
    by (auto simp: lstep_def simp del: jm_step.simps intro: jm_step_inv jm_step_once jm_step_exec)
qed

end
