(* ===== verification/Job_Manager_Values.thy ===== *)
theory Job_Manager_Values
  imports Job_Manager_Inv
begin

text \<open>
  What the closures of the job manager carry: a submitted entity is pending, the report of a start
  writes the status running, every other report a final status.
\<close>

section \<open>What the closures carry\<close>

definition final_status :: "JobStatus \<Rightarrow> bool" where
  "final_status st \<longleftrightarrow> st = JobStatusCompleted \<or> st = JobStatusFailed \<or> st = JobStatusCanceled"

text \<open>A submitted entity is pending; an execution reports the start, and in the end a final status.\<close>

fun ctl_val :: "'h ctl_task \<Rightarrow> bool" where
  "ctl_val (CtlSubmit c ctx e traits delay) = (je_Status e = JobStatusPending)"
| "ctl_val (CtlFinalize i st msg) = final_status st"
| "ctl_val _ = True"

fun io_val :: "'h io_task \<Rightarrow> bool" where
  "io_val (IoPersist k ctx e h traits delay) = (je_Status e = JobStatusPending)"
| "io_val (IoUpdate (Some k) i st msg) = (st = JobStatusRunning)"
| "io_val (IoUpdate None i st msg) = final_status st"
| "io_val (IoFinal i st msg) = final_status st"
| "io_val (IoRecovery c ctx) = True"

fun io_at_val :: "'h io_at \<Rightarrow> bool" where
  "io_at_val (IoPersisting k ctx e h traits delay) = (je_Status e = JobStatusPending)"
| "io_at_val _ = True"

fun ctl_at_val :: "ctl_at \<Rightarrow> bool" where
  "ctl_at_val (CtlFin1 i st msg k) = final_status st"
| "ctl_at_val (CtlFin2 i st msg) = final_status st"
| "ctl_at_val _ = True"

fun exec_val :: "'h exec_at \<Rightarrow> bool" where
  "exec_val (XFinal i st msg) = final_status st"
| "exec_val _ = True"

fun caller_val :: "'h caller_at \<Rightarrow> bool" where
  "caller_val (CallPost t ctx) = ctl_val t"
| "caller_val _ = True"

definition inv_vals :: "('h, 'f) jm_sys \<Rightarrow> bool" where
  "inv_vals s \<longleftrightarrow> list_all ctl_val (sy_ctl s) \<and> list_all io_val (sy_io s) \<and> io_at_val (sy_io_at s) \<and> ctl_at_val (sy_ctl_at s) \<and>
     list_all exec_val (sy_running s) \<and> list_all caller_val (sy_callers s)"

lemma inv_valsI:
  assumes "inv_vals s" "list_all ctl_val (sy_ctl s')" "list_all io_val (sy_io s')" "io_at_val (sy_io_at s')" "ctl_at_val (sy_ctl_at s')"
    and "sy_running s' = sy_running s" "sy_callers s' = sy_callers s"
  shows "inv_vals s'"
  using assms by (simp add: inv_vals_def)

lemma list_all_update: "list_all P xs \<Longrightarrow> P y \<Longrightarrow> list_all P (xs[i := y])"
  using set_update_subset_insert [of xs i y] by (auto simp: list_all_iff)

lemma list_all_nth': "list_all P xs \<Longrightarrow> i < length xs \<Longrightarrow> P (xs ! i)"
  by (simp add: list_all_length)

lemma post_vals [simp]:
  "list_all ctl_val (sy_ctl s) \<Longrightarrow> ctl_val t \<Longrightarrow> list_all ctl_val (sy_ctl (post_ctl t s))"
  "list_all io_val (sy_io s) \<Longrightarrow> io_val u \<Longrightarrow> list_all io_val (sy_io (post_io u s))"
  by (simp_all add: post_ctl_def post_io_def)

lemma ctl_exec_vals:
  assumes "inv_vals s" "ctl_val t"
  shows "inv_vals (ctl_exec t s)"
proof (cases t)
  case (CtlSubmit c ctx e traits delay)
  show ?thesis
    by (rule inv_valsI [OF assms(1)]; use assms CtlSubmit in \<open>auto simp: inv_vals_def submitJobControl_def Let_def send_result_def split: option.splits\<close>)
next
  case (CtlRecover job n)
  show ?thesis
    by (rule inv_valsI [OF assms(1)]; use assms CtlRecover in
        \<open>auto simp: inv_vals_def recover_closure_def Let_def final_status_def post_io_def split: option.splits\<close>)
next
  case (CtlCancel i c)
  show ?thesis
    by (rule inv_valsI [OF assms(1)]; use assms CtlCancel in \<open>auto simp: inv_vals_def cancelJobControl_def send_result_def split: option.splits\<close>)
next
  case (CtlFinalize i st msg)
  show ?thesis
    by (rule inv_valsI [OF assms(1)]; use assms CtlFinalize in \<open>auto simp: inv_vals_def finalizeJobControl_def upd_m_def split: option.splits\<close>)
qed (rule inv_valsI [OF assms(1)]; use assms in \<open>simp add: inv_vals_def send_result_def upd_m_def\<close>)+

lemma ctl_step_vals:
  assumes inv: "inv_vals s" and st: "ctl_step s = Some s'"
  shows "inv_vals s'"
proof (cases "sy_ctl_at s")
  case CtlIdle
  with st obtain t ts where t: "sy_ctl s = t # ts" "s' = ctl_exec t (s\<lparr>sy_ctl := ts\<rparr>)"
    by (auto simp: ctl_step_def split: list.splits)
  with inv have "inv_vals (s\<lparr>sy_ctl := ts\<rparr>)" "ctl_val t" by (auto simp: inv_vals_def)
  from ctl_exec_vals [OF this] t(2) show ?thesis by simp
next
  case (CtlWait k c ctx)
  show ?thesis
    by (rule inv_valsI [OF inv]; use st inv in \<open>auto simp: CtlWait ctl_step_def inv_vals_def send_result_def split: option.splits\<close>)
next
  case (CtlFin1 i status msg k)
  show ?thesis
    by (rule inv_valsI [OF inv]; use st inv in \<open>auto simp: CtlFin1 ctl_step_def inv_vals_def upd_m_def\<close>)
next
  case (CtlFin2 i status msg)
  show ?thesis
    by (rule inv_valsI [OF inv]; use st inv in \<open>auto simp: CtlFin2 ctl_step_def inv_vals_def post_io_def\<close>)
qed

lemma submit_fails_vals: "inv_vals s \<Longrightarrow> inv_vals (submit_fails k e err s)"
  by (simp add: inv_vals_def submit_fails_def upd_m_def Let_def)

lemma io_begin_vals:
  assumes inv: "inv_vals s" and t: "io_val t" and at: "sy_io_at s = IoIdle"
  shows "inv_vals (io_begin fl plan now t s)"
proof (cases t)
  case (IoPersist k ctx e h traits delay)
  with inv t submit_fails_vals [OF inv] show ?thesis by (simp add: io_begin_def inv_vals_def)
qed (rule inv_valsI [OF inv]; use inv at in \<open>simp add: io_begin_def inv_vals_def upd_m_def\<close>)+

lemma io_step_vals:
  assumes inv: "inv_vals s" and st: "io_step fl durable plan now order s = Some s'"
  shows "inv_vals s'"
proof (cases "sy_io_at s")
  case IoIdle
  with st obtain t ts where t: "sy_io s = t # ts" "s' = io_begin fl plan now t (s\<lparr>sy_io := ts\<rparr>)"
    by (auto simp: io_step_def Let_def split: list.splits)
  with inv have "inv_vals (s\<lparr>sy_io := ts\<rparr>)" "io_val t" by (auto simp: inv_vals_def)
  from io_begin_vals [OF this] t(2) IoIdle show ?thesis by simp
next
  case (IoPersisting k ctx e h traits delay)
  show ?thesis
    by (rule inv_valsI [OF inv]; use st inv IoPersisting in
        \<open>auto simp: io_step_def inv_vals_def submit_fails_def upd_m_def Let_def split: prod.splits option.splits\<close>)
next
  case (IoPersisted k e h traits delay)
  show ?thesis
    by (rule inv_valsI [OF inv]; use st inv IoPersisted in
        \<open>auto simp: io_step_def inv_vals_def submit_fails_def upd_m_def Let_def split: if_splits\<close>)
next
  case (IoRecMark c ctx jobs)
  show ?thesis
    by (rule inv_valsI [OF inv]; use st inv IoRecMark in
        \<open>cases jobs; auto simp: io_step_def inv_vals_def recovery_ends_def send_result_def Let_def split: if_splits attempt.splits\<close>)
next
  case (IoRecNext c ctx jobs)
  show ?thesis
    by (rule inv_valsI [OF inv]; use st inv IoRecNext in
        \<open>cases jobs; auto simp: io_step_def inv_vals_def recovery_ends_def send_result_def post_ctl_def Let_def\<close>)
qed (rule inv_valsI [OF inv];
    use st inv in \<open>auto simp: io_step_def inv_vals_def recovery_ends_def send_result_def Let_def split: if_splits attempt.splits\<close>)+

lemma exec_step_vals:
  assumes inv: "inv_vals s" and i: "i < length (sy_running s)" and st: "exec_step out (sy_running s ! i) s = Some (pc', s')"
  shows "inv_vals (set_running i (pc', s'))"
proof -
  have "exec_val (sy_running s ! i)" using inv i by (simp add: inv_vals_def list_all_nth')
  with st inv have "exec_val pc'" "list_all ctl_val (sy_ctl s')" "list_all io_val (sy_io s')"
    by (cases "sy_running s ! i"; auto simp: inv_vals_def final_status_def post_ctl_def post_io_def split: option.splits if_splits)+
  moreover have "sy_running s' = sy_running s" "sy_io_at s' = sy_io_at s" "sy_ctl_at s' = sy_ctl_at s" "sy_callers s' = sy_callers s"
    using st by (cases "sy_running s ! i"; auto)+
  ultimately show ?thesis using inv by (simp add: inv_vals_def set_running_def list_all_update)
qed

lemma caller_step_vals:
  assumes inv: "inv_vals s" and c: "c < n_callers s" and st: "caller_step c (sy_callers s ! c) s = Some (pc, s')"
  shows "inv_vals (set_caller c (pc, s'))"
proof -
  have "caller_val (sy_callers s ! c)" using inv c by (simp add: inv_vals_def list_all_nth')
  with st inv have "caller_val pc" "list_all ctl_val (sy_ctl s')" "list_all io_val (sy_io s')"
    by (cases "sy_callers s ! c"; auto simp: inv_vals_def split: if_splits)+
  moreover have "sy_running s' = sy_running s" "sy_io_at s' = sy_io_at s" "sy_ctl_at s' = sy_ctl_at s" "sy_callers s' = sy_callers s"
    using st by (cases "sy_callers s ! c"; auto split: if_splits)+
  ultimately show ?thesis using inv by (simp add: inv_vals_def set_caller_def list_all_update)
qed

lemma jm_step_vals:
  assumes inv: "inv_vals s" and st: "jm_step fl durable l s = Some s'"
  shows "inv_vals s'"
proof (cases l)
  case (LCaller c)
  with st obtain pc s1 where "c < n_callers s" "caller_step c (sy_callers s ! c) s = Some (pc, s1)" "s' = set_caller c (pc, s1)"
    by (auto split: if_splits)
  then show ?thesis using caller_step_vals [OF inv] by simp
next
  case (LCallerCtx c)
  with st inv show ?thesis by (auto simp: set_caller_def inv_vals_def list_all_update split: if_splits)
next
  case LCtl
  with st ctl_step_vals [OF inv] show ?thesis by simp
next
  case LCtlCtx
  with st inv show ?thesis by (auto simp: ctl_ctx_step_def inv_vals_def send_result_def split: ctl_at.splits if_splits)
next
  case (LIo plan now order)
  with st io_step_vals [OF inv] show ?thesis by simp
next
  case LIoCtx
  with st inv show ?thesis by (auto simp: io_ctx_step_def inv_vals_def recovery_ends_def send_result_def split: io_at.splits if_splits)
next
  case (LExec i out)
  with st obtain pc' s1 where "i < length (sy_running s)" "exec_step out (sy_running s ! i) s = Some (pc', s1)" "s' = set_running i (pc', s1)"
    by (auto split: if_splits)
  then show ?thesis using exec_step_vals [OF inv] by simp
qed (use st inv in \<open>auto simp: SubmitDelayedJob_def RegisterHandler_def UnregisterHandler_def CancelJob_def Start_def jm_Shutdown_def
      closed_or_post_def add_caller_def upd_m_def inv_vals_def Let_def split: if_splits sum.splits\<close>)

end
