(* ===== verification/Job_Manager_Status.thy ===== *)
theory Job_Manager_Status
  imports Job_Manager_Values
begin

text \<open>
  The life of a stored job: which status it has when one is written. The invariant follows a job
  from its submission or its recovery (\<open>fresh_ids\<close>: it is going to be started, and is stored as
  pending) through the execution closure to the closures that write its status (\<open>taken_ids\<close>).
\<close>

section \<open>Where a job is\<close>

fun x_fresh :: "'h exec_at \<Rightarrow> string list" where
  "x_fresh (XCheck t) = [je_ID (ex_entity t)]" | "x_fresh (XUpdate t) = [je_ID (ex_entity t)]" | "x_fresh _ = []"

fun x_late :: "'h exec_at \<Rightarrow> string list" where
  "x_late (XHandler t) = [je_ID (ex_entity t)]" | "x_late (XDecide t err) = [je_ID (ex_entity t)]"
| "x_late (XFinal i st msg) = [i]" | "x_late _ = []"

fun ctl_late :: "'h ctl_task \<Rightarrow> string list" where
  "ctl_late (CtlFinalize i st msg) = [i]" | "ctl_late _ = []"

fun ctl_at_late :: "ctl_at \<Rightarrow> string list" where
  "ctl_at_late (CtlFin1 i st msg k) = [i]" | "ctl_at_late (CtlFin2 i st msg) = [i]" | "ctl_at_late _ = []"

text \<open>The updates on the I/O runner: the job, and whether the update reports its start.\<close>

fun io_ent :: "'h io_task \<Rightarrow> (string \<times> bool) list" where
  "io_ent (IoUpdate ref i st msg) = [(i, ref \<noteq> None)]" | "io_ent (IoFinal i st msg) = [(i, False)]" | "io_ent _ = []"

definition io_ents :: "('h, 'f) jm_sys \<Rightarrow> (string \<times> bool) list" where
  "io_ents s = concat (map io_ent (sy_io s))"

text \<open>The report of a start comes before every other update of its job.\<close>

fun runs_first :: "(string \<times> bool) list \<Rightarrow> bool" where
  "runs_first [] = True"
| "runs_first ((i, b) # es) = ((i, True) \<notin> set es \<and> runs_first es)"

fun mark_ids :: "'h io_at \<Rightarrow> string list" where
  "mark_ids (IoRecMark c ctx jobs) = map je_ID jobs" | "mark_ids _ = []"

definition fresh_ids :: "('h, 'f) jm_sys \<Rightarrow> string list" where
  "fresh_ids s = map (\<lambda>t. je_ID (ex_entity t)) (sy_exec s) @ concat (map x_fresh (sy_running s)) @ recov_ids s @
     (case persisted_id (sy_io_at s) of None \<Rightarrow> [] | Some i \<Rightarrow> [i])"

definition late_ids :: "('h, 'f) jm_sys \<Rightarrow> string list" where
  "late_ids s = concat (map x_late (sy_running s)) @ concat (map ctl_late (sy_ctl s)) @ ctl_at_late (sy_ctl_at s)"

definition taken_ids :: "('h, 'f) jm_sys \<Rightarrow> string set" where
  "taken_ids s = fst ` set (io_ents s) \<union> set (late_ids s)"

definition pending_job :: "('h, 'f) jm_sys \<Rightarrow> string \<Rightarrow> bool" where
  "pending_job s i \<longleftrightarrow> (case jm_store (sy_m s) i of None \<Rightarrow> False | Some e \<Rightarrow> je_Status e = JobStatusPending)"

definition started_once :: "('h, 'f) jm_sys \<Rightarrow> bool" where
  "started_once s \<longleftrightarrow> sy_recoveries s \<le> 1 \<and> sy_early s"

definition inv_status :: "('h, 'f) jm_sys \<Rightarrow> bool" where
  "inv_status s \<longleftrightarrow> (started_once s \<longrightarrow>
     (\<forall>i \<in> set (fresh_ids s). pending_job s i \<and> i \<notin> taken_ids s) \<and>
     (\<forall>i. (i, True) \<in> set (io_ents s) \<longrightarrow> pending_job s i) \<and> runs_first (io_ents s) \<and>
     (\<forall>i \<in> set (mark_ids (sy_io_at s)). \<not> pending_job s i) \<and>
     taken_ids s \<subseteq> dom (jm_store (sy_m s)) \<and> (sy_recoveries s = 0 \<longrightarrow> taken_ids s \<subseteq> set (sy_scheduled s)))"

lemma runs_first_append: "runs_first (es @ fs) \<longleftrightarrow> runs_first es \<and> runs_first fs \<and> (\<forall>i. (i, True) \<in> set fs \<longrightarrow> i \<notin> fst ` set es)"
  by (induction es rule: runs_first.induct) (auto simp: image_iff)

lemma pending_in_dom: "pending_job s i \<Longrightarrow> i \<in> dom (jm_store (sy_m s))"
  by (auto simp: pending_job_def split: option.splits)

text \<open>The jobs in \<open>I\<close> leave the fresh ones; the store stays.\<close>

lemma inv_status_move:
  assumes inv: "inv_status s" and eq: "sy_recoveries s' = sy_recoveries s" "sy_early s' = sy_early s" "jm_store (sy_m s') = jm_store (sy_m s)"
    and fresh: "started_once s \<Longrightarrow> I \<subseteq> set (fresh_ids s) \<and> set (fresh_ids s') \<subseteq> set (fresh_ids s) - I"
    and taken: "taken_ids s' \<subseteq> taken_ids s \<union> I" and mark: "set (mark_ids (sy_io_at s')) \<subseteq> set (mark_ids (sy_io_at s))"
    and ents: "\<And>j. (j, True) \<in> set (io_ents s') \<Longrightarrow> (j, True) \<in> set (io_ents s) \<or> j \<in> I"
    and first: "runs_first (io_ents s) \<Longrightarrow> I \<inter> fst ` set (io_ents s) = {} \<Longrightarrow> runs_first (io_ents s')"
    and sched: "started_once s \<Longrightarrow> sy_recoveries s = 0 \<Longrightarrow> set (sy_scheduled s) \<union> I \<subseteq> set (sy_scheduled s')"
  shows "inv_status s'"
proof (cases "started_once s")
  case False
  then have "\<not> started_once s'" using eq by (simp add: started_once_def)
  then show ?thesis by (simp add: inv_status_def)
next
  case True
  have p: "pending_job s' = pending_job s" by (rule ext) (simp add: pending_job_def eq)
  have I: "I \<inter> taken_ids s = {}" "\<And>i. i \<in> I \<Longrightarrow> pending_job s i" "\<And>i. i \<in> set (fresh_ids s') \<Longrightarrow> i \<in> set (fresh_ids s) \<and> i \<notin> I"
    using inv fresh [OF True] True unfolding inv_status_def by blast+
  have "I \<inter> fst ` set (io_ents s) = {}" using I(1) by (auto simp: taken_ids_def)
  then have "runs_first (io_ents s')" using first inv True by (simp add: inv_status_def)
  moreover have "pending_job s i" if "(i, True) \<in> set (io_ents s')" for i
    using ents [OF that] inv True I(2) unfolding inv_status_def by blast
  moreover have "I \<subseteq> dom (jm_store (sy_m s))" using I(2) pending_in_dom by blast
  moreover have "pending_job s i \<and> i \<notin> taken_ids s'" if "i \<in> set (fresh_ids s')" for i
    using I(3) [OF that] taken inv True unfolding inv_status_def by blast
  moreover have "\<not> pending_job s i" if "i \<in> set (mark_ids (sy_io_at s'))" for i
    using that mark inv True unfolding inv_status_def by blast
  moreover have "taken_ids s' \<subseteq> set (sy_scheduled s')" if "sy_recoveries s = 0"
    using taken sched [OF True that] inv True that unfolding inv_status_def by blast
  ultimately show ?thesis using inv True taken unfolding inv_status_def p eq by blast
qed

lemma inv_status_frame:
  assumes "inv_status s" "sy_recoveries s' = sy_recoveries s" "sy_early s' = sy_early s" "jm_store (sy_m s') = jm_store (sy_m s)"
    and "set (fresh_ids s') \<subseteq> set (fresh_ids s)" "taken_ids s' \<subseteq> taken_ids s" "set (mark_ids (sy_io_at s')) \<subseteq> set (mark_ids (sy_io_at s))"
    and "set (io_ents s') \<subseteq> set (io_ents s)" "runs_first (io_ents s) \<Longrightarrow> runs_first (io_ents s')" "set (sy_scheduled s) \<subseteq> set (sy_scheduled s')"
  shows "inv_status s'"
  by (rule inv_status_move [OF assms(1-4), of "{}"]) (use assms(5-) in auto)

text \<open>One update is written: of a job that is not fresh and whose start is not still to be reported.\<close>

lemma inv_status_write:
  assumes inv: "inv_status s" and eq: "sy_recoveries s' = sy_recoveries s" "sy_early s' = sy_early s" "sy_scheduled s' = sy_scheduled s"
    and store: "dom (jm_store (sy_m s')) = dom (jm_store (sy_m s))" "\<And>j. j \<noteq> i \<Longrightarrow> jm_store (sy_m s') j = jm_store (sy_m s) j"
      "pending_job s' i \<Longrightarrow> pending_job s i"
    and fresh: "set (fresh_ids s') \<subseteq> set (fresh_ids s)" "started_once s \<Longrightarrow> i \<notin> set (fresh_ids s')"
    and taken: "taken_ids s' \<subseteq> taken_ids s" and mark: "set (mark_ids (sy_io_at s')) \<subseteq> set (mark_ids (sy_io_at s))"
    and ents: "set (io_ents s') \<subseteq> set (io_ents s)" "runs_first (io_ents s) \<Longrightarrow> runs_first (io_ents s')"
      "started_once s \<Longrightarrow> (i, True) \<notin> set (io_ents s')"
  shows "inv_status s'"
proof (cases "started_once s")
  case False
  then have "\<not> started_once s'" using eq by (simp add: started_once_def)
  then show ?thesis by (simp add: inv_status_def)
next
  case True
  have same: "pending_job s' j = pending_job s j" if "j \<noteq> i" for j using store(2) [OF that] by (simp add: pending_job_def)
  have "pending_job s' j \<and> j \<notin> taken_ids s'" if "j \<in> set (fresh_ids s')" for j
  proof -
    have "j \<noteq> i" using fresh(2) [OF True] that by blast
    then show ?thesis using same [of j] that fresh(1) inv True taken unfolding inv_status_def by blast
  qed
  moreover have "pending_job s' j" if "(j, True) \<in> set (io_ents s')" for j
  proof -
    have "j \<noteq> i" using ents(3) [OF True] that by blast
    then show ?thesis using same [of j] that ents(1) inv True unfolding inv_status_def by blast
  qed
  moreover have "\<not> pending_job s' j" if "j \<in> set (mark_ids (sy_io_at s'))" for j
  proof -
    have "\<not> pending_job s j" using that mark inv True unfolding inv_status_def by blast
    then show ?thesis using same [of j] store(3) by (cases "j = i") auto
  qed
  moreover have "runs_first (io_ents s')" using ents(2) inv True by (simp add: inv_status_def)
  ultimately show ?thesis using inv True taken eq store(1) unfolding inv_status_def by auto
qed

text \<open>A job is fresh in one place only.\<close>

lemma distinct_submset: "mset xs \<subseteq># mset ys \<Longrightarrow> distinct ys \<Longrightarrow> distinct xs"
proof -
  assume "mset xs \<subseteq># mset ys" and ys: "distinct ys"
  then obtain zs where "mset ys = mset (xs @ zs)" by (metis ex_mset mset_append mset_subset_eq_exists_conv)
  with ys show "distinct xs" by (metis distinct_append mset_eq_imp_distinct_iff)
qed

lemma distinct_remove: "mset xs = add_mset i (mset ys) \<Longrightarrow> distinct xs \<Longrightarrow> {i} \<subseteq> set xs \<and> set ys \<subseteq> set xs - {i}"
proof -
  assume m: "mset xs = add_mset i (mset ys)" and d: "distinct xs"
  have "mset xs = mset (i # ys)" using m by simp
  with d have "distinct (i # ys)" "set xs = set (i # ys)" by (metis mset_eq_imp_distinct_iff, metis set_mset_mset)
  then show ?thesis by auto
qed

lemma mset_concat_held: "mset (concat (map f ps)) = held f ps"
  by (induction ps) simp_all

lemma x_fresh_sub: "mset (concat (map x_fresh ps)) \<subseteq># held x_ids ps"
proof (induction ps)
  case (Cons p ps)
  have "mset (x_fresh p) \<subseteq># mset (x_ids p)" by (cases p) simp_all
  with Cons show ?case by (simp add: subset_mset.add_mono)
qed simp

lemma fresh_distinct:
  assumes "inv_once s" "inv_exec s" "started_once s"
  shows "distinct (fresh_ids s)"
proof -
  let ?p = "case persisted_id (sy_io_at s) of None \<Rightarrow> [] | Some i \<Rightarrow> [i]"
  have "mset (map (\<lambda>t. je_ID (ex_entity t)) (sy_exec s)) + mset (concat (map x_fresh (sy_running s))) \<subseteq># mset (sy_scheduled s)"
    using assms(2) x_fresh_sub [of "sy_running s"] unfolding inv_exec_def
    by (meson mset_subset_eq_add_right subset_mset.add_mono subset_mset.order_trans subset_mset.order_refl add_mono)
  then have "mset (fresh_ids s) \<subseteq># mset (sy_scheduled s @ recov_ids s @ ?p)"
    unfolding fresh_ids_def mset_append by (metis add.assoc subset_mset.add_right_mono)
  moreover have "distinct (sy_scheduled s @ recov_ids s @ ?p)"
    using assms(1,3) by (auto simp: inv_once_def started_once_def split: option.splits)
  ultimately show ?thesis by (rule distinct_submset)
qed

section \<open>The execution closures\<close>

lemma fresh_running:
  assumes "i < length (sy_running s)" "sy_running s' = (sy_running s)[i := pc]" "sy_exec s' = sy_exec s"
    "recov_ids s' = recov_ids s" "sy_io_at s' = sy_io_at s"
  shows "mset (fresh_ids s') + mset (x_fresh (sy_running s ! i)) = mset (fresh_ids s) + mset (x_fresh pc)"
  using held_update [OF assms(1), of x_fresh pc] assms(2-)
  by (simp add: fresh_ids_def mset_concat_held)

lemma late_running:
  assumes "i < length (sy_running s)" "sy_running s' = (sy_running s)[i := pc]" "sy_ctl_at s' = sy_ctl_at s"
    "set (concat (map ctl_late (sy_ctl s'))) \<subseteq> set (concat (map ctl_late (sy_ctl s))) \<union> J"
  shows "set (late_ids s') \<subseteq> set (late_ids s) \<union> set (x_late pc) \<union> J"
proof -
  have "set ((sy_running s)[i := pc]) \<subseteq> insert pc (set (sy_running s))" by (rule set_update_subset_insert)
  then have "set (concat (map x_late ((sy_running s)[i := pc]))) \<subseteq> set (concat (map x_late (sy_running s))) \<union> set (x_late pc)" by auto
  with assms(2-4) show ?thesis unfolding late_ids_def by (simp only: set_append) blast
qed

text \<open>A closure that stops to be fresh, with what it posts.\<close>

lemma exec_taken:
  assumes inv: "inv_status s" "inv_once s" "inv_exec s" and i: "i < length (sy_running s)"
    and old: "x_fresh (sy_running s ! i) = [j]" "x_ids (sy_running s ! i) = [j]" and new: "x_fresh pc = []" "x_late pc = [j]"
    and s': "s' = s1\<lparr>sy_running := (sy_running s)[i := pc]\<rparr>"
    and s1: "s1 = s \<or> s1 = s\<lparr>sy_io := sy_io s @ [t]\<rparr> \<and> set (io_ent t) \<subseteq> {(j, True)} \<and> runs_first (io_ent t)"
  shows "inv_status s'"
proof -
  have eq: "sy_recoveries s' = sy_recoveries s" "sy_early s' = sy_early s" "jm_store (sy_m s') = jm_store (sy_m s)"
    "sy_running s' = (sy_running s)[i := pc]" "sy_exec s' = sy_exec s" "recov_ids s' = recov_ids s" "sy_io_at s' = sy_io_at s"
    "sy_ctl_at s' = sy_ctl_at s" "sy_ctl s' = sy_ctl s" "sy_scheduled s' = sy_scheduled s"
    using s1 by (auto simp: s' recov_ids_def)
  have m: "mset (fresh_ids s) = add_mset j (mset (fresh_ids s'))"
    using fresh_running [OF i eq(4-7)] old(1) new(1) by simp
  have ents: "io_ents s' = io_ents s \<or> io_ents s' = io_ents s @ io_ent t \<and> set (io_ent t) \<subseteq> {(j, True)} \<and> runs_first (io_ent t)"
    using s1 by (auto simp: s' io_ents_def)
  have "j \<in># held x_ids (sy_running s)"
    using held_update [OF i, of x_ids XGone] old(2) by (metis x_ids.simps(6) add.right_neutral in_multiset_in_set list.set_intros(1) mset.simps(1) union_iff)
  then have sched: "j \<in> set (sy_scheduled s)"
    using inv(3) unfolding inv_exec_def by (metis mset_subset_eqD set_mset_mset union_iff)
  have late: "set (late_ids s') \<subseteq> set (late_ids s) \<union> {j}"
    using late_running [OF i eq(4,8), of "{}"] eq(9) new(2) by simp
  show ?thesis
  proof (rule inv_status_move [OF inv(1) eq(1-3), of "{j}"])
    show "{j} \<subseteq> set (fresh_ids s) \<and> set (fresh_ids s') \<subseteq> set (fresh_ids s) - {j}" if "started_once s"
      using distinct_remove [OF m fresh_distinct [OF inv(2,3) that]] .
    have "fst ` set (io_ents s') \<subseteq> fst ` set (io_ents s) \<union> {j}" using ents by fastforce
    then show "taken_ids s' \<subseteq> taken_ids s \<union> {j}" using late unfolding taken_ids_def by blast
    show "(i, True) \<in> set (io_ents s) \<or> i \<in> {j}" if "(i, True) \<in> set (io_ents s')" for i using ents that by auto
    show "runs_first (io_ents s')" if "runs_first (io_ents s)" "{j} \<inter> fst ` set (io_ents s) = {}"
    proof -
      have "runs_first (io_ents s @ io_ent t)" if "set (io_ent t) \<subseteq> {(j, True)}" "runs_first (io_ent t)"
        using that \<open>runs_first (io_ents s)\<close> \<open>{j} \<inter> fst ` set (io_ents s) = {}\<close> unfolding runs_first_append by blast
      with ents \<open>runs_first (io_ents s)\<close> show ?thesis by auto
    qed
    show "set (sy_scheduled s) \<union> {j} \<subseteq> set (sy_scheduled s')" using sched eq by simp
  qed (simp add: eq)
qed

lemma exec_step_status:
  assumes inv: "inv_status s" "inv_once s" "inv_exec s" and i: "i < length (sy_running s)"
    and st: "exec_step out (sy_running s ! i) s = Some (pc', s')"
  shows "inv_status (set_running i (pc', s'))"
proof -
  have same: "inv_status (s'\<lparr>sy_running := (sy_running s)[i := pc']\<rparr>)"
    if f: "x_fresh pc' = x_fresh (sy_running s ! i)" and l: "set (x_late pc') \<subseteq> set (x_late (sy_running s ! i))"
      and s': "s' = s \<or> s' = s\<lparr>sy_executed := xs\<rparr> \<or> s' = s\<lparr>sy_ctl := sy_ctl s @ [t]\<rparr> \<and> ctl_recov t = [] \<and> set (ctl_late t) \<subseteq> set (x_late (sy_running s ! i))"
    for xs t
  proof -
    let ?t = "s'\<lparr>sy_running := (sy_running s)[i := pc']\<rparr>"
    have eq: "sy_recoveries ?t = sy_recoveries s" "sy_early ?t = sy_early s" "jm_store (sy_m ?t) = jm_store (sy_m s)"
      "sy_running ?t = (sy_running s)[i := pc']" "sy_exec ?t = sy_exec s" "recov_ids ?t = recov_ids s" "sy_io_at ?t = sy_io_at s"
      "sy_ctl_at ?t = sy_ctl_at s" "io_ents ?t = io_ents s" "sy_scheduled ?t = sy_scheduled s"
      using s' by (auto simp: recov_ids_def io_ents_def)
    have "mset (fresh_ids ?t) = mset (fresh_ids s)" using fresh_running [OF i eq(4-7)] f by simp
    then have fr: "set (fresh_ids ?t) = set (fresh_ids s)" by (metis set_mset_mset)
    have old: "set (x_late (sy_running s ! i)) \<subseteq> set (late_ids s)" using nth_mem [OF i] by (auto simp: late_ids_def)
    have "set (concat (map ctl_late (sy_ctl ?t))) \<subseteq> set (concat (map ctl_late (sy_ctl s))) \<union> set (x_late (sy_running s ! i))"
      using s' by auto
    from late_running [OF i eq(4,8) this] have "set (late_ids ?t) \<subseteq> set (late_ids s)" using l old by blast
    then have "taken_ids ?t \<subseteq> taken_ids s" using eq(9) by (auto simp: taken_ids_def)
    then show ?thesis by (intro inv_status_frame [OF inv(1) eq(1-3)]) (simp_all add: fr eq)
  qed
  have run: "sy_running s' = sy_running s" using st by (cases "sy_running s ! i") auto
  show ?thesis
  proof (cases "sy_running s ! i")
    case (XCheck t)
    with st have s': "s' = s" by auto
    show ?thesis
    proof (cases "job_done s (ex_info t)")
      case True
      with st XCheck have "pc' = XFinal (je_ID (ex_entity t)) JobStatusCanceled ''Canceled before execution''" by auto
      with XCheck have pc: "x_fresh pc' = []" "x_late pc' = [je_ID (ex_entity t)]" "x_fresh (sy_running s ! i) = [je_ID (ex_entity t)]"
        "x_ids (sy_running s ! i) = [je_ID (ex_entity t)]" by simp_all
      from exec_taken [OF inv i pc(3,4,1,2) refl, of s] show ?thesis by (simp add: s' set_running_def)
    next
      case False
      with st XCheck have "pc' = XUpdate t" by auto
      then have "inv_status (s'\<lparr>sy_running := (sy_running s)[i := pc']\<rparr>)"
        by (intro same [of "[]" "CtlCancelAll 0"]) (simp_all add: XCheck s')
      then show ?thesis by (simp add: s' set_running_def)
    qed
  next
    case (XUpdate t)
    with st have pc: "pc' = XHandler t" and s': "s' = post_io (IoUpdate (Some (ex_info t)) (je_ID (ex_entity t)) JobStatusRunning []) s" by auto
    have x: "x_fresh pc' = []" "x_late pc' = [je_ID (ex_entity t)]" "x_fresh (sy_running s ! i) = [je_ID (ex_entity t)]"
      "x_ids (sy_running s ! i) = [je_ID (ex_entity t)]" by (simp_all add: XUpdate pc)
    have "inv_status (s'\<lparr>sy_running := (sy_running s)[i := pc']\<rparr>)"
      by (rule exec_taken [OF inv i x(3,4,1,2) refl, of s' "IoUpdate (Some (ex_info t)) (je_ID (ex_entity t)) JobStatusRunning []"])
        (simp add: s' post_io_def)
    then show ?thesis by (simp add: run set_running_def)
  next
    case (XHandler t)
    with st have "s' = s\<lparr>sy_executed := sy_executed s @ [je_ID (ex_entity t)]\<rparr>" "x_late pc' = [je_ID (ex_entity t)]" "x_fresh pc' = []" by auto
    then have "inv_status (s'\<lparr>sy_running := (sy_running s)[i := pc']\<rparr>)"
      by (intro same [of "sy_executed s @ [je_ID (ex_entity t)]" "CtlCancelAll 0"]) (simp_all add: XHandler)
    then show ?thesis by (simp add: run set_running_def)
  next
    case (XDecide t err)
    with st have "s' = s" "x_late pc' = [je_ID (ex_entity t)]" "x_fresh pc' = []" by (auto split: option.splits)
    then have "inv_status (s'\<lparr>sy_running := (sy_running s)[i := pc']\<rparr>)"
      by (intro same [of "[]" "CtlCancelAll 0"]) (simp_all add: XDecide)
    then show ?thesis by (simp add: run set_running_def)
  next
    case (XFinal j status msg)
    with st have "s' = post_ctl (CtlFinalize j status msg) s" "pc' = XGone" by auto
    moreover from this(1) have "s' = s \<or> s' = s\<lparr>sy_ctl := sy_ctl s @ [CtlFinalize j status msg]\<rparr>" by (simp add: post_ctl_def)
    ultimately have "inv_status (s'\<lparr>sy_running := (sy_running s)[i := pc']\<rparr>)"
      by (intro same [of "[]" "CtlFinalize j status msg"]) (auto simp: XFinal)
    then show ?thesis by (simp add: run set_running_def)
  qed (use st in simp)
qed

section \<open>The control runner\<close>

lemma recov_runs_once:
  assumes "inv_once s" "recov_ids s \<noteq> []"
  shows "sy_recoveries s \<noteq> 0"
  using assms by (auto simp: inv_once_def)

lemma recover_status:
  assumes inv: "inv_status s0" "inv_once s0" "inv_exec s0" and s0: "s0 = s\<lparr>sy_ctl := CtlRecover job n # ts\<rparr>"
  shows "inv_status (recover_closure job n (s\<lparr>sy_ctl := ts\<rparr>))"
proof (cases "jm_handlers (sy_m s) (je_Type job)")
  case None
  let ?t = "recover_closure job n (s\<lparr>sy_ctl := ts\<rparr>)" and ?j = "je_ID job"
  have t: "?t = post_io (IoUpdate None ?j JobStatusFailed ''Missing handler during recovery'') (s\<lparr>sy_ctl := ts, sy_done := n # sy_done s\<rparr>)"
    by (simp add: recover_closure_def Let_def None)
  have m: "mset (fresh_ids s0) = add_mset ?j (mset (fresh_ids ?t))"
    by (simp add: t s0 fresh_ids_def recov_ids_def)
  have ents: "io_ents ?t = io_ents s0 \<or> io_ents ?t = io_ents s0 @ [(?j, False)]"
    by (simp add: t s0 io_ents_def post_io_def)
  have late: "late_ids ?t = late_ids s0" by (simp add: t s0 late_ids_def)
  show ?thesis
  proof (rule inv_status_move [OF inv(1), of _ "{?j}"])
    show "{?j} \<subseteq> set (fresh_ids s0) \<and> set (fresh_ids ?t) \<subseteq> set (fresh_ids s0) - {?j}" if "started_once s0"
      using distinct_remove [OF m fresh_distinct [OF inv(2,3) that]] .
    show "taken_ids ?t \<subseteq> taken_ids s0 \<union> {?j}" using ents by (auto simp: taken_ids_def late)
    show "(i, True) \<in> set (io_ents s0) \<or> i \<in> {?j}" if "(i, True) \<in> set (io_ents ?t)" for i using ents that by auto
    show "runs_first (io_ents ?t)" if "runs_first (io_ents s0)" using ents that by (auto simp: runs_first_append)
    show "set (sy_scheduled s0) \<union> {?j} \<subseteq> set (sy_scheduled ?t)" if "sy_recoveries s0 = 0"
      using recov_runs_once [OF inv(2)] that by (simp add: s0 recov_ids_def)
  qed (simp_all add: t s0)
next
  case (Some h)
  let ?t = "recover_closure job n (s\<lparr>sy_ctl := ts\<rparr>)"
  have eq: "sy_recoveries ?t = sy_recoveries s0" "sy_early ?t = sy_early s0" "jm_store (sy_m ?t) = jm_store (sy_m s0)"
    "sy_io_at ?t = sy_io_at s0" "io_ents ?t = io_ents s0" "late_ids ?t = late_ids s0" "sy_scheduled ?t = sy_scheduled s0 @ [je_ID job]"
    "recov_ids s0 = je_ID job # recov_ids ?t" "sy_running ?t = sy_running s0"
    by (simp_all add: recover_closure_def Let_def Some s0 io_ents_def late_ids_def recov_ids_def)
  have "set (map (\<lambda>t. je_ID (ex_entity t)) (sy_exec ?t)) \<subseteq> insert (je_ID job) (set (map (\<lambda>t. je_ID (ex_entity t)) (sy_exec s0)))"
    by (auto simp: recover_closure_def Let_def Some s0 scheduleExecution_def)
  then have "set (fresh_ids ?t) \<subseteq> set (fresh_ids s0)" by (auto simp: fresh_ids_def eq)
  then show ?thesis by (intro inv_status_frame [OF inv(1) eq(1-3)]) (auto simp: eq taken_ids_def)
qed

lemma ctl_exec_status:
  assumes inv: "inv_status s0" "inv_once s0" "inv_exec s0" and s0: "s0 = s\<lparr>sy_ctl := t # ts\<rparr>" and at: "sy_ctl_at s = CtlIdle"
  shows "inv_status (ctl_exec t (s\<lparr>sy_ctl := ts\<rparr>))"
proof (cases t)
  case (CtlRecover job n)
  with recover_status [OF inv] s0 show ?thesis by simp
next
  case (CtlSubmit c ctx e traits delay)
  let ?t = "submitJobControl c ctx e traits delay (s\<lparr>sy_ctl := ts\<rparr>)"
  have eq: "sy_recoveries ?t = sy_recoveries s0" "sy_early ?t = sy_early s0" "jm_store (sy_m ?t) = jm_store (sy_m s0)"
    "sy_io_at ?t = sy_io_at s0" "io_ents ?t = io_ents s0" "sy_scheduled ?t = sy_scheduled s0" "recov_ids ?t = recov_ids s0"
    "sy_running ?t = sy_running s0" "sy_exec ?t = sy_exec s0" "sy_ctl ?t = ts" "ctl_at_late (sy_ctl_at ?t) = []"
    using at by (auto simp: submitJobControl_def Let_def s0 CtlSubmit io_ents_def recov_ids_def send_result_def post_io_def split: option.split)
  then have "late_ids ?t = late_ids s0" using at by (simp add: late_ids_def s0 CtlSubmit)
  then show ?thesis unfolding CtlSubmit ctl_exec.simps
    by (intro inv_status_frame [OF inv(1) eq(1-3)]) (simp_all add: eq fresh_ids_def taken_ids_def)
next
  case (CtlFinalize i st msg)
  let ?t = "finalizeJobControl i st msg (s\<lparr>sy_ctl := ts\<rparr>)"
  have eq: "sy_recoveries ?t = sy_recoveries s0" "sy_early ?t = sy_early s0" "jm_store (sy_m ?t) = jm_store (sy_m s0)"
    "sy_io_at ?t = sy_io_at s0" "io_ents ?t = io_ents s0" "sy_scheduled ?t = sy_scheduled s0" "recov_ids ?t = recov_ids s0"
    "sy_running ?t = sy_running s0" "sy_exec ?t = sy_exec s0" "sy_ctl ?t = ts" "set (ctl_at_late (sy_ctl_at ?t)) \<subseteq> {i}"
    using at by (auto simp: finalizeJobControl_def s0 CtlFinalize io_ents_def recov_ids_def upd_m_def split: option.splits)
  then have "set (late_ids ?t) \<subseteq> set (late_ids s0)" by (auto simp: late_ids_def s0 CtlFinalize)
  then show ?thesis unfolding CtlFinalize ctl_exec.simps
    by (intro inv_status_frame [OF inv(1) eq(1-3)]) (auto simp: eq fresh_ids_def taken_ids_def)
next
  case (CtlCancel i c)
  show ?thesis
    by (rule inv_status_frame [OF inv(1)])
      (auto simp: s0 CtlCancel cancelJobControl_def send_result_def fresh_ids_def taken_ids_def late_ids_def io_ents_def recov_ids_def split: option.split)
qed (rule inv_status_frame [OF inv(1)];
    simp add: s0 send_result_def upd_m_def fresh_ids_def taken_ids_def late_ids_def io_ents_def recov_ids_def)+

lemma ctl_step_status:
  assumes inv: "inv_status s" "inv_once s" "inv_exec s" and st: "ctl_step s = Some s'"
  shows "inv_status s'"
proof (cases "sy_ctl_at s")
  case CtlIdle
  with st obtain t ts where t: "sy_ctl s = t # ts" "s' = ctl_exec t (s\<lparr>sy_ctl := ts\<rparr>)"
    by (auto simp: ctl_step_def split: list.splits)
  have "s = s\<lparr>sy_ctl := t # ts\<rparr>" using t(1) by simp
  from ctl_exec_status [OF inv this CtlIdle] t(2) show ?thesis by simp
next
  case (CtlWait k c ctx)
  with st obtain r where "s' = send_result c r (s\<lparr>sy_ctl_at := CtlIdle\<rparr>)" by (auto simp: ctl_step_def split: option.splits)
  then show ?thesis
    by (intro inv_status_frame [OF inv(1)])
      (simp_all add: send_result_def fresh_ids_def taken_ids_def late_ids_def io_ents_def recov_ids_def CtlWait)
next
  case (CtlFin1 i status msg k)
  with st have "s' = (upd_m (\<lambda>m. (cancel_info k m)\<lparr>jm_pendingFinalize := jm_pendingFinalize m + 1\<rparr>) s)\<lparr>sy_ctl_at := CtlFin2 i status msg\<rparr>"
    by (simp add: ctl_step_def)
  then show ?thesis
    by (intro inv_status_frame [OF inv(1)])
      (simp_all add: upd_m_def fresh_ids_def taken_ids_def late_ids_def io_ents_def recov_ids_def CtlFin1)
next
  case (CtlFin2 i status msg)
  with st have s': "s' = post_io (IoFinal i status msg) (s\<lparr>sy_ctl_at := CtlIdle\<rparr>)" by (simp add: ctl_step_def)
  have ents: "io_ents s' = io_ents s \<or> io_ents s' = io_ents s @ [(i, False)]" by (simp add: s' io_ents_def post_io_def)
  have late: "set (late_ids s) = insert i (set (late_ids s'))" by (simp add: s' late_ids_def CtlFin2)
  have eq: "sy_recoveries s' = sy_recoveries s" "sy_early s' = sy_early s" "jm_store (sy_m s') = jm_store (sy_m s)" by (simp_all add: s')
  show ?thesis
  proof (rule inv_status_move [OF inv(1) eq, of "{}"])
    show "taken_ids s' \<subseteq> taken_ids s \<union> {}" using ents late by (auto simp: taken_ids_def)
    show "runs_first (io_ents s')" if "runs_first (io_ents s)" using ents that by (auto simp: runs_first_append)
    show "(j, True) \<in> set (io_ents s) \<or> j \<in> {}" if "(j, True) \<in> set (io_ents s')" for j using ents that by auto
  qed (simp_all add: s' fresh_ids_def recov_ids_def)
qed

section \<open>The I/O runner\<close>

text \<open>A retried update leaves the store as it was, or the job with the new status.\<close>

definition rewritten :: "string \<Rightarrow> JobStatus \<Rightarrow> MemoryJobStore \<Rightarrow> MemoryJobStore \<Rightarrow> bool" where
  "rewritten i status st0 st \<longleftrightarrow> st = st0 \<or> (\<exists>e. i \<in> dom st0 \<and> je_Status e = status \<and> st = st0(i \<mapsto> e))"

lemma rewritten_update:
  assumes "rewritten i status st0 st"
  shows "rewritten i status st0 (snd (mem_UpdateStatus now i status msg st))"
proof (cases "st i")
  case None
  with assms show ?thesis by (simp add: mem_UpdateStatus_def)
next
  case (Some x)
  then obtain y where y: "snd (mem_UpdateStatus now i status msg st) = st(i \<mapsto> y)" "je_Status y = status"
    by (simp add: mem_UpdateStatus_def)
  have "i \<in> dom st0 \<and> st(i \<mapsto> y) = st0(i \<mapsto> y)" using assms Some by (auto simp: rewritten_def)
  with y show ?thesis unfolding rewritten_def by metis
qed

lemma update_io_rewritten: "rewritten i status (jm_store (sy_m s)) (jm_store (sy_m (update_io fl plan now canc i status msg s)))"
proof -
  obtain e st where r: "retried fl plan canc (mem_UpdateStatus now i status msg) (sy_m s) = (e, st)" by fastforce
  have "rewritten i status (jm_store (sy_m s)) st"
    by (rule retried_keeps [of "rewritten i status (jm_store (sy_m s))", OF _ rewritten_update r]) (simp_all add: rewritten_def)
  then show ?thesis by (simp add: update_io_def r upd_m_def)
qed

lemma update_io_store: "j \<noteq> i \<Longrightarrow> jm_store (sy_m (update_io fl plan now canc i status msg s)) j = jm_store (sy_m s) j"
  using update_io_rewritten [of i status s fl plan now canc msg] by (auto simp: rewritten_def)

lemma update_io_pending:
  assumes "status \<noteq> JobStatusPending"
  shows "pending_job (update_io fl plan now canc i status msg s) i \<Longrightarrow> pending_job s i"
  using update_io_rewritten [of i status s fl plan now canc msg] assms by (auto simp: pending_job_def rewritten_def split: option.splits)

lemma head_not_started:
  assumes "inv_status (s\<lparr>sy_io := t # ts\<rparr>)" "started_once s" "io_ent t = [(i, b)]"
  shows "i \<notin> set (fresh_ids s)" "(i, True) \<notin> set (io_ents (s\<lparr>sy_io := ts\<rparr>))"
proof -
  let ?s = "s\<lparr>sy_io := t # ts\<rparr>"
  have st: "started_once ?s" using assms(2) by (simp add: started_once_def)
  have ents: "io_ents ?s = (i, b) # io_ents (s\<lparr>sy_io := ts\<rparr>)" using assms(3) by (simp add: io_ents_def)
  from assms(1) st ents show "(i, True) \<notin> set (io_ents (s\<lparr>sy_io := ts\<rparr>))" by (simp add: inv_status_def)
  have "i \<in> taken_ids ?s" by (simp add: taken_ids_def ents)
  then have "i \<notin> set (fresh_ids ?s)" using assms(1) st unfolding inv_status_def by blast
  then show "i \<notin> set (fresh_ids s)" by (simp add: fresh_ids_def recov_ids_def)
qed

lemmas id_defs = fresh_ids_def taken_ids_def late_ids_def io_ents_def recov_ids_def

lemma submit_fails_status: "inv_status s \<Longrightarrow> inv_status (submit_fails k e err s)"
  by (rule inv_status_frame [of s]) (auto simp: submit_fails_def upd_m_def Let_def id_defs)

text \<open>The head of the queue of the I/O runner is an update, which is written.\<close>

lemma io_write_status:
  assumes inv: "inv_status (s\<lparr>sy_io := t # ts\<rparr>)" and mem: "mem_invar (jm_store (sy_m s))" and t: "io_ent t = [(i, b)]"
    and st: "status \<noteq> JobStatusPending"
  shows "inv_status (update_io fl plan now canc i status msg (s\<lparr>sy_io := ts\<rparr>))"
proof -
  let ?u = "s\<lparr>sy_io := ts\<rparr>" and ?s = "s\<lparr>sy_io := t # ts\<rparr>"
  let ?t = "update_io fl plan now canc i status msg ?u"
  have mem': "mem_invar (jm_store (sy_m ?u))" using mem by simp
  have ids: "fresh_ids ?t = fresh_ids s" "late_ids ?t = late_ids s" "io_ents ?t = io_ents ?u" "fresh_ids ?s = fresh_ids s" "late_ids ?s = late_ids s"
    by (simp_all add: id_defs)
  have ents: "io_ents ?s = (i, b) # io_ents ?u" using t by (simp add: io_ents_def)
  have dom: "dom (jm_store (sy_m ?t)) = dom (jm_store (sy_m s))"
  proof -
    obtain e st' where r: "retried fl plan canc (mem_UpdateStatus now i status msg) (sy_m s) = (e, st')" by fastforce
    from retried_update(1) [OF mem r] show ?thesis by (simp add: update_io_def r upd_m_def)
  qed
  show ?thesis
  proof (rule inv_status_write [OF inv, of _ i])
    show "jm_store (sy_m ?t) j = jm_store (sy_m ?s) j" if "j \<noteq> i" for j
      using update_io_store [OF that, of fl plan now canc status msg ?u] by simp
    show "pending_job ?s i" if "pending_job ?t i" using update_io_pending [OF st that] by (simp add: pending_job_def)
    show "i \<notin> set (fresh_ids ?t)" if "started_once ?s" using head_not_started(1) [OF inv _ t] that by (simp add: ids started_once_def)
    show "(i, True) \<notin> set (io_ents ?t)" if "started_once ?s"
      using head_not_started(2) [OF inv _ t] that by (simp add: ids started_once_def)
    show "taken_ids ?t \<subseteq> taken_ids ?s" by (auto simp: taken_ids_def ids ents)
    show "set (io_ents ?t) \<subseteq> set (io_ents ?s)" by (auto simp: ids ents)
    show "runs_first (io_ents ?t)" if "runs_first (io_ents ?s)" using that by (simp add: ids ents)
  qed (simp_all add: ids dom)
qed

lemma io_begin_status:
  assumes inv: "inv_status (s\<lparr>sy_io := t # ts\<rparr>)" and mem: "mem_invar (jm_store (sy_m s))" and val: "io_val t" and at: "sy_io_at s = IoIdle"
  shows "inv_status (io_begin fl plan now t (s\<lparr>sy_io := ts\<rparr>))"
proof (cases t)
  case (IoPersist k ctx e h traits delay)
  have u: "inv_status (s\<lparr>sy_io := ts\<rparr>)"
    by (rule inv_status_frame [OF inv]) (auto simp: id_defs IoPersist)
  have "inv_status (s\<lparr>sy_io := ts, sy_io_at := IoPersisting k ctx e h traits delay\<rparr>)"
    by (rule inv_status_frame [OF u]) (simp_all add: id_defs at)
  with submit_fails_status [OF u] show ?thesis by (simp add: io_begin_def IoPersist)
next
  case (IoUpdate ref i status msg)
  have "status \<noteq> JobStatusPending" using val IoUpdate
    by (cases ref) (auto simp: final_status_def JobStatusPending_def JobStatusRunning_def JobStatusCompleted_def JobStatusFailed_def JobStatusCanceled_def)
  from io_write_status [where b = "ref \<noteq> None", OF inv mem _ this] show ?thesis by (simp add: io_begin_def IoUpdate)
next
  case (IoFinal i status msg)
  have "status \<noteq> JobStatusPending" using val IoFinal
    by (auto simp: final_status_def JobStatusPending_def JobStatusCompleted_def JobStatusFailed_def JobStatusCanceled_def)
  from io_write_status [where b = False, OF inv mem _ this] have "inv_status (update_io fl plan (snd now) False i status msg (s\<lparr>sy_io := ts\<rparr>))"
    by (simp add: IoFinal)
  then show ?thesis
    unfolding IoFinal io_begin_def io_task.case by (rule inv_status_frame) (simp_all add: upd_m_def id_defs)
next
  case (IoRecovery c ctx)
  show ?thesis by (rule inv_status_frame [OF inv]) (simp_all add: io_begin_def IoRecovery id_defs at)
qed

text \<open>A created job is new to the store and fresh.\<close>

lemma io_create_status:
  assumes inv: "inv_status s" and at: "sy_io_at s = IoPersisting k ctx e h traits delay" and e: "je_Status e = JobStatusPending"
    and st1: "st1 = jm_store (sy_m s) \<or> created now e (jm_store (sy_m s)) st1"
    and s': "s' = (upd_m (set_store (je_ID e) st1) s)\<lparr>sy_io_at := at'\<rparr>"
      "at' = IoPersisting k ctx e h traits delay \<or> at' = IoPersisted k e h traits delay \<and> created now e (jm_store (sy_m s)) st1"
  shows "inv_status s'"
proof (cases "started_once s")
  case False
  then have "\<not> started_once s'" by (simp add: s' started_once_def upd_m_def)
  then show ?thesis by (simp add: inv_status_def)
next
  case True
  have eq: "jm_store (sy_m s') = st1" "io_ents s' = io_ents s" "late_ids s' = late_ids s" "taken_ids s' = taken_ids s"
    "mark_ids (sy_io_at s') = []" "sy_scheduled s' = sy_scheduled s" "sy_recoveries s' = sy_recoveries s"
    using s'(2) by (auto simp: s'(1) upd_m_def id_defs)
  have keep: "pending_job s' i" if "pending_job s i" for i
    using st1 that by (auto simp: pending_job_def eq created_def split: option.splits if_splits)
  have new: "pending_job s' (je_ID e) \<and> je_ID e \<notin> taken_ids s" if c: "created now e (jm_store (sy_m s)) st1"
  proof -
    have "pending_job s' (je_ID e)" using c e mem.stamp_fields(4) [of now e] by (simp add: pending_job_def eq created_def)
    moreover have "je_ID e \<notin> dom (jm_store (sy_m s))" using c by (auto simp: created_def)
    ultimately show ?thesis using inv True unfolding inv_status_def by blast
  qed
  have fresh: "set (fresh_ids s') \<subseteq> set (fresh_ids s) \<union> (if created now e (jm_store (sy_m s)) st1 then {je_ID e} else {})"
    using s'(2) at by (auto simp: s'(1) upd_m_def fresh_ids_def recov_ids_def)
  have "pending_job s' i \<and> i \<notin> taken_ids s" if "i \<in> set (fresh_ids s')" for i
  proof (cases "i \<in> set (fresh_ids s)")
    case in_old: True
    then show ?thesis using keep inv True unfolding inv_status_def by blast
  next
    case False
    then show ?thesis using that fresh new by (auto split: if_splits)
  qed
  moreover have "taken_ids s \<subseteq> dom st1"
  proof -
    have "taken_ids s \<subseteq> dom (jm_store (sy_m s))" using inv True by (simp add: inv_status_def)
    also have "\<dots> \<subseteq> dom st1" using st1 by (auto simp: created_def)
    finally show ?thesis .
  qed
  ultimately show ?thesis using inv True keep unfolding inv_status_def by (auto simp: eq)
qed

lemma listed_jobs:
  assumes jm: "jm_inv s" and ord: "distinct order" "set order = set (jm_keys (sy_m s))" and st: "st \<noteq> []"
    and j: "j \<in> set (jobs_of (mem_ListJobs order (zero_filter\<lparr>jf_Status := st\<rparr>) (jm_store (sy_m s))))"
  shows "jm_store (sy_m s) (je_ID j) = Some j \<and> je_Status j = st"
proof -
  let ?f = "zero_filter\<lparr>jf_Status := st\<rparr>"
  have inv: "mem_invar (jm_store (sy_m s))" "range_order order (jm_store (sy_m s))"
    using jm ord by (auto simp: jm_inv_def inv_store_def range_order_def)
  obtain js where js: "set js = {j. \<exists>i. jm_store (sy_m s) i = Some j \<and> job_matches ?f j}" "mem_ListJobs order ?f (jm_store (sy_m s)) = Inr js"
    using mem.list_law [OF inv, of ?f] by (auto simp: zero_filter_def)
  then obtain i where "jm_store (sy_m s) i = Some j" "job_matches ?f j" using j by (auto simp: jobs_of_def)
  then show ?thesis using inv(1) st by (auto simp: mem_invar_def job_matches_def zero_filter_def)
qed

lemma io_persisting_status:
  assumes inv: "inv_status s" and jm: "jm_inv s" and vals: "inv_vals s" and at: "sy_io_at s = IoPersisting k ctx e h traits delay"
    and st: "io_step fl True plan now order s = Some s'"
  shows "inv_status s'"
proof -
  obtain err st1 where r: "persistNewJobIO fl plan now True (ctx \<noteq> None) e (sy_m s) = (err, st1)" by fastforce
  then have c: "retried fl plan (ctx \<noteq> None) (mem_CreateJob now e) (sy_m s) = (err, st1)" by (simp add: persistNewJobIO_def)
  have pol: "0 \<le> rp_MaxRetries (jm_retryPolicy (sy_m s))" using jm by (simp add: jm_inv_def inv_store_def)
  have e: "je_Status e = JobStatusPending" using vals at by (simp add: inv_vals_def)
  note created = retried_create [OF pol c]
  show ?thesis
  proof (cases err)
    case None
    then have "s' = (upd_m (set_store (je_ID e) st1) s)\<lparr>sy_io_at := IoPersisted k e h traits delay\<rparr>"
      using st at r by (simp add: io_step_def Let_def)
    then show ?thesis using io_create_status [OF inv at e created(1)] created(2) [OF None] by blast
  next
    case (Some e1)
    then obtain e2 where s': "s' = submit_fails k e e2 (upd_m (set_store (je_ID e) st1) s)"
      using st at r by (auto simp: io_step_def Let_def)
    have "(upd_m (set_store (je_ID e) st1) s)\<lparr>sy_io_at := IoPersisting k ctx e h traits delay\<rparr> = upd_m (set_store (je_ID e) st1) s"
      using at by (simp add: upd_m_def)
    with io_create_status [OF inv at e created(1) refl] have "inv_status (upd_m (set_store (je_ID e) st1) s)" by metis
    then show ?thesis unfolding s' by (rule submit_fails_status)
  qed
qed

lemma schedule_exec_ids:
  "set (map (\<lambda>t. je_ID (ex_entity t)) (sy_exec (scheduleExecution e k h traits delay s))) \<subseteq>
     insert (je_ID e) (set (map (\<lambda>t. je_ID (ex_entity t)) (sy_exec s)))"
  by (cases "sy_exec_open s") (auto simp: scheduleExecution_def Let_def)

lemma io_persisted_status:
  assumes inv: "inv_status s" and at: "sy_io_at s = IoPersisted k e h traits delay" and st: "io_step fl durable plan now order s = Some s'"
  shows "inv_status s'"
proof (cases "job_done s k")
  case True
  then have "s' = submit_fails k e JmCtx s" using st at by (simp add: io_step_def Let_def)
  with submit_fails_status [OF inv] show ?thesis by simp
next
  case False
  have eq: "sy_recoveries s' = sy_recoveries s" "sy_early s' = sy_early s" "jm_store (sy_m s') = jm_store (sy_m s)" "sy_io_at s' = IoIdle"
    "sy_io s' = sy_io s" "sy_ctl s' = sy_ctl s" "sy_ctl_at s' = sy_ctl_at s" "sy_running s' = sy_running s" "sy_scheduled s' = sy_scheduled s @ [je_ID e]"
    using False st at by (auto simp: io_step_def Let_def upd_m_def)
  let ?s1 = "upd_m (\<lambda>m. m\<lparr>jm_infos := (jm_infos m)[k := (jm_infos m ! k)\<lparr>ai_dbSaved := True\<rparr>]\<rparr>) s"
  have "sy_exec s' = sy_exec (scheduleExecution e k h traits delay ?s1)" using False st at by (auto simp: io_step_def Let_def)
  with schedule_exec_ids [of e k h traits delay ?s1]
  have ex: "set (map (\<lambda>t. je_ID (ex_entity t)) (sy_exec s')) \<subseteq> insert (je_ID e) (set (map (\<lambda>t. je_ID (ex_entity t)) (sy_exec s)))"
    by (simp add: upd_m_def)
  have "set (fresh_ids s') \<subseteq> set (fresh_ids s)" using ex by (auto simp: fresh_ids_def recov_ids_def eq at)
  then show ?thesis by (intro inv_status_frame [OF inv eq(1-3)]) (auto simp: eq taken_ids_def late_ids_def io_ents_def)
qed

lemma recovery_ends_status: "inv_status s \<Longrightarrow> inv_status (recovery_ends c r s)"
  by (rule inv_status_frame [of s]) (simp_all add: recovery_ends_def send_result_def id_defs, blast)

text \<open>The recovery lists the running jobs, marks them, and lists the pending ones.\<close>

lemma io_list_running_status:
  assumes inv: "inv_status s" and jm: "jm_inv s" and at: "sy_io_at s = IoRecList c ctx" and st: "io_step fl durable plan now order s = Some s'"
  shows "inv_status s'"
proof (cases "attempt_at plan 0")
  case AttemptOk
  let ?js = "jobs_of (mem_ListJobs order (zero_filter\<lparr>jf_Status := JobStatusRunning\<rparr>) (jm_store (sy_m s)))"
  have ord: "distinct order" "set order = set (jm_keys (sy_m s))" using st at by (auto simp: io_step_def Let_def split: if_splits)
  have s': "s' = s\<lparr>sy_io_at := IoRecMark c ctx ?js\<rparr>" using st at AttemptOk by (auto simp: io_step_def Let_def split: if_splits)
  have ids: "fresh_ids s' = fresh_ids s" "taken_ids s' = taken_ids s" "io_ents s' = io_ents s" by (simp_all add: s' id_defs at)
  have p: "pending_job s' = pending_job s" "started_once s' = started_once s"
    by (rule ext, simp add: s' pending_job_def, simp add: s' started_once_def)
  have "\<not> pending_job s i" if "i \<in> set (map je_ID ?js)" for i
    using that listed_jobs [OF jm ord, of JobStatusRunning] by (auto simp: pending_job_def JobStatusRunning_def JobStatusPending_def)
  then show ?thesis using inv unfolding inv_status_def ids p by (simp add: s')
qed (use st at recovery_ends_status [OF inv] in \<open>auto simp: io_step_def Let_def split: if_splits\<close>)

lemma io_mark_status:
  assumes inv: "inv_status s" and jm: "jm_inv s" and at: "sy_io_at s = IoRecMark c ctx (job # jobs)"
    and s': "s' = (update_io fl plan now canc (je_ID job) JobStatusFailed msg s)\<lparr>sy_io_at := IoRecMark c ctx jobs\<rparr>"
  shows "inv_status s'"
proof -
  have mem: "mem_invar (jm_store (sy_m s))" using jm by (simp add: jm_inv_def inv_store_def)
  have failed: "JobStatusFailed \<noteq> JobStatusPending" by (simp add: JobStatusFailed_def JobStatusPending_def)
  have ids: "fresh_ids s' = fresh_ids s" "taken_ids s' = taken_ids s" "io_ents s' = io_ents s" by (simp_all add: s' id_defs at)
  have marked: "\<not> pending_job s (je_ID job)" if "started_once s" using inv that at by (simp add: inv_status_def)
  show ?thesis
  proof (rule inv_status_write [OF inv, of _ "je_ID job"])
    show "dom (jm_store (sy_m s')) = dom (jm_store (sy_m s))" using update_io_inv(2) [OF jm] by (simp add: s')
    show "jm_store (sy_m s') j = jm_store (sy_m s) j" if "j \<noteq> je_ID job" for j
      using update_io_store [OF that, of fl plan now canc JobStatusFailed msg s] by (simp add: s')
    show "pending_job s (je_ID job)" if "pending_job s' (je_ID job)"
      using update_io_pending [OF failed, of fl plan now canc "je_ID job" msg s] that by (simp add: s' pending_job_def)
    show "je_ID job \<notin> set (fresh_ids s')" if "started_once s" using marked [OF that] inv that unfolding ids inv_status_def by blast
    show "(je_ID job, True) \<notin> set (io_ents s')" if "started_once s" using marked [OF that] inv that unfolding ids inv_status_def by blast
  qed (simp_all add: ids, auto simp: s' at)
qed

lemma io_list_pending_status:
  assumes inv: "inv_status s" "inv_once s" "inv_exec s" and jm: "jm_inv s" and at: "sy_io_at s = IoRecMark c ctx []"
    and st: "io_step fl durable plan now order s = Some s'"
  shows "inv_status s'"
proof (cases "attempt_at plan 0")
  case AttemptOk
  let ?js = "jobs_of (mem_GetRecoverableJobs order (jm_store (sy_m s)))"
  have ord: "distinct order" "set order = set (jm_keys (sy_m s))" using st at by (auto simp: io_step_def Let_def split: if_splits)
  have s': "s' = s\<lparr>sy_io_at := IoRecNext c ctx ?js, sy_recoveries := Suc (sy_recoveries s), sy_early := (sy_early s \<and> sy_scheduled s = [])\<rparr>"
    using st at AttemptOk by (auto simp: io_step_def Let_def split: if_splits)
  have rec: "mem_GetRecoverableJobs order (jm_store (sy_m s)) = mem_ListJobs order (zero_filter\<lparr>jf_Status := JobStatusPending\<rparr>) (jm_store (sy_m s))"
    using jm ord by (intro mem.recoverable_law) (auto simp: jm_inv_def inv_store_def range_order_def)
  have pend: "pending_job s' (je_ID j)" if "j \<in> set ?js" for j
    using listed_jobs [OF jm ord, of JobStatusPending j] that rec by (simp add: s' pending_job_def JobStatusPending_def)
  show ?thesis
  proof (cases "started_once s'")
    case True
    then have none: "sy_recoveries s = 0" "sy_early s" "sy_scheduled s = []" by (simp_all add: s' started_once_def)
    then have once: "started_once s" by (simp add: started_once_def)
    have "taken_ids s = {}" using inv(1) once none unfolding inv_status_def by auto
    moreover have "recov_ids s = []" using inv(2) none by (simp add: inv_once_def)
    moreover have "sy_exec s = []" "concat (map x_fresh (sy_running s)) = []"
    proof -
      have "mset (map (\<lambda>t. je_ID (ex_entity t)) (sy_exec s)) = {#}" "held x_ids (sy_running s) = {#}"
        using inv(3) none(3) by (simp_all add: inv_exec_def)
      then show "sy_exec s = []" "concat (map x_fresh (sy_running s)) = []"
        using x_fresh_sub [of "sy_running s"] by (simp_all del: concat_eq_Nil_conv)
    qed
    ultimately have "taken_ids s' = {}" "io_ents s' = []" "fresh_ids s' = map je_ID ?js"
      by (auto simp: s' taken_ids_def fresh_ids_def recov_ids_def late_ids_def io_ents_def)
    then show ?thesis using pend by (auto simp: inv_status_def) (simp_all add: s')
  qed (simp add: inv_status_def)
qed (use st at recovery_ends_status [OF inv(1)] in \<open>auto simp: io_step_def Let_def split: if_splits\<close>)

lemma io_step_status:
  assumes inv: "inv_status s" "inv_once s" "inv_exec s" and jm: "jm_inv s" and vals: "inv_vals s"
    and st: "io_step fl True plan now order s = Some s'"
  shows "inv_status s'"
proof (cases "sy_io_at s")
  case IoIdle
  with st obtain t ts where t: "sy_io s = t # ts" "s' = io_begin fl plan now t (s\<lparr>sy_io := ts\<rparr>)"
    by (auto simp: io_step_def Let_def split: list.splits)
  have "s\<lparr>sy_io := t # ts\<rparr> = s" using t(1) by simp
  then have "inv_status (s\<lparr>sy_io := t # ts\<rparr>)" using inv(1) by simp
  moreover have "mem_invar (jm_store (sy_m s))" "io_val t" using jm vals t(1) by (simp_all add: jm_inv_def inv_store_def inv_vals_def)
  ultimately show ?thesis using io_begin_status IoIdle t(2) by blast
next
  case (IoPersisting k ctx e h traits delay)
  then show ?thesis by (rule io_persisting_status [OF inv(1) jm vals _ st])
next
  case (IoPersisted k e h traits delay)
  then show ?thesis by (rule io_persisted_status [OF inv(1) _ st])
next
  case (IoRecList c ctx)
  then show ?thesis by (rule io_list_running_status [OF inv(1) jm _ st])
next
  case (IoRecMark c ctx jobs)
  show ?thesis
  proof (cases jobs)
    case Nil
    with IoRecMark io_list_pending_status [OF inv jm _ st] show ?thesis by simp
  next
    case (Cons job js)
    then have "s' = (update_io fl plan (snd now) (ctx \<noteq> None) (je_ID job) JobStatusFailed ''Interrupted by restart'' s)\<lparr>sy_io_at := IoRecMark c ctx js\<rparr>"
      using st IoRecMark by (simp add: io_step_def Let_def)
    then show ?thesis using io_mark_status [OF inv(1) jm] IoRecMark Cons by simp
  qed
next
  case (IoRecNext c ctx jobs)
  show ?thesis
  proof (cases jobs)
    case Nil
    with IoRecNext st recovery_ends_status [OF inv(1)] show ?thesis by (auto simp: io_step_def Let_def)
  next
    case (Cons job js)
    then have s': "s' = post_ctl (CtlRecover job (sy_next s)) (s\<lparr>sy_next := Suc (sy_next s), sy_io_at := IoRecWait c ctx (sy_next s) js\<rparr>)"
      using st IoRecNext by (simp add: io_step_def Let_def)
    have "set (recov_ids s') \<subseteq> set (recov_ids s)" by (auto simp: s' recov_ids_def post_ctl_def IoRecNext Cons)
    then have "set (fresh_ids s') \<subseteq> set (fresh_ids s)" by (auto simp: s' fresh_ids_def IoRecNext)
    moreover have "late_ids s' = late_ids s" "io_ents s' = io_ents s" by (simp_all add: s' late_ids_def io_ents_def post_ctl_def)
    ultimately show ?thesis by (intro inv_status_frame [OF inv(1)]) (simp_all add: taken_ids_def, simp_all add: s')
  qed
next
  case (IoRecWait c ctx n jobs)
  then have "s' = s\<lparr>sy_io_at := IoRecNext c ctx jobs\<rparr>" using st by (simp add: io_step_def Let_def split: if_splits)
  then show ?thesis by (intro inv_status_frame [OF inv(1)]) (simp_all add: id_defs IoRecWait)
qed

section \<open>The system\<close>

lemma caller_step_status:
  assumes inv: "inv_status s" and jm: "jm_inv s" and c: "c < n_callers s" and st: "caller_step c (sy_callers s ! c) s = Some (pc, s')"
  shows "inv_status (set_caller c (pc, s'))"
proof -
  let ?t = "set_caller c (pc, s')"
  have ok: "caller_ok (sy_submitted s) (n_callers s) c (sy_callers s ! c)" using jm c by (simp add: jm_inv_def inv_names_def)
  have ctl: "sy_ctl s' = [] \<or> sy_ctl s' = sy_ctl s \<or> (\<exists>t. ctl_recov t = [] \<and> ctl_late t = [] \<and> sy_ctl s' = sy_ctl s @ [t])"
    using st ok by (cases "sy_callers s ! c") (auto simp: from_caller_def post_ctl_def split: if_splits ctl_task.splits)
  have io: "io_ents s' = [] \<or> io_ents s' = io_ents s"
    using st by (cases "sy_callers s ! c") (auto simp: io_ents_def post_io_def split: if_splits)
  have ex: "sy_exec s' = [] \<or> sy_exec s' = sy_exec s" using st by (cases "sy_callers s ! c") (auto split: if_splits)
  have eq: "sy_m s' = sy_m s" "sy_recoveries s' = sy_recoveries s" "sy_early s' = sy_early s" "sy_scheduled s' = sy_scheduled s"
    "sy_io_at s' = sy_io_at s" "sy_ctl_at s' = sy_ctl_at s" "sy_running s' = sy_running s"
    using st by (cases "sy_callers s ! c"; auto split: if_splits)+
  have t: "fresh_ids ?t = fresh_ids s'" "late_ids ?t = late_ids s'" "io_ents ?t = io_ents s'" by (simp_all add: id_defs set_caller_def)
  have recov: "set (concat (map ctl_recov (sy_ctl s'))) \<subseteq> set (concat (map ctl_recov (sy_ctl s)))"
    and late: "set (concat (map ctl_late (sy_ctl s'))) \<subseteq> set (concat (map ctl_late (sy_ctl s)))" using ctl by auto
  have "set (fresh_ids s') \<subseteq> set (fresh_ids s)" using ex recov by (auto simp: fresh_ids_def recov_ids_def eq)
  moreover have "taken_ids s' \<subseteq> taken_ids s" using io late by (auto simp: taken_ids_def late_ids_def eq)
  moreover have "taken_ids ?t = taken_ids s'" by (simp add: taken_ids_def t)
  moreover have "sy_recoveries ?t = sy_recoveries s" "sy_early ?t = sy_early s" "jm_store (sy_m ?t) = jm_store (sy_m s)"
    "sy_io_at ?t = sy_io_at s" "sy_scheduled ?t = sy_scheduled s" by (simp_all add: set_caller_def eq)
  ultimately show ?thesis using io by (intro inv_status_frame [OF inv]) (simp_all add: t, auto)
qed

lemma exec_start_status:
  assumes inv: "inv_status s" and i: "i < length (sy_exec s)"
    and s': "s' = s\<lparr>sy_exec := take i (sy_exec s) @ drop (Suc i) (sy_exec s), sy_running := sy_running s @ [XCheck (sy_exec s ! i)]\<rparr>"
  shows "inv_status s'"
proof -
  have "set (take i (sy_exec s)) \<subseteq> set (sy_exec s)" "set (drop (Suc i) (sy_exec s)) \<subseteq> set (sy_exec s)" "sy_exec s ! i \<in> set (sy_exec s)"
    using i by (auto dest: in_set_takeD in_set_dropD)
  then have "set (fresh_ids s') \<subseteq> set (fresh_ids s)" by (auto simp: s' fresh_ids_def recov_ids_def)
  moreover have "late_ids s' = late_ids s" "io_ents s' = io_ents s" by (simp_all add: s' late_ids_def io_ents_def)
  ultimately show ?thesis by (intro inv_status_frame [OF inv]) (simp_all add: taken_ids_def, simp_all add: s')
qed

lemma inv_status_same:
  assumes "inv_status s" "sy_m s' = sy_m s \<or> jm_store (sy_m s') = jm_store (sy_m s)" "sy_recoveries s' = sy_recoveries s" "sy_early s' = sy_early s"
    "sy_scheduled s' = sy_scheduled s" "sy_io_at s' = sy_io_at s" "sy_ctl_at s' = sy_ctl_at s" "sy_running s' = sy_running s"
    "sy_exec s' = sy_exec s" "sy_ctl s' = sy_ctl s" "sy_io s' = sy_io s"
  shows "inv_status s'"
  by (rule inv_status_frame [OF assms(1)]) (use assms(2-) in \<open>auto simp: id_defs\<close>)

lemma ctx_step_status:
  assumes inv: "inv_status s"
  shows "ctl_ctx_step s = Some s' \<Longrightarrow> inv_status s'" "io_ctx_step s = Some s' \<Longrightarrow> inv_status s'"
proof -
  assume "ctl_ctx_step s = Some s'"
  then obtain k c ctx where at: "sy_ctl_at s = CtlWait k c ctx" "s' = send_result c (Some JmCtx) (s\<lparr>sy_ctl_at := CtlIdle\<rparr>)"
    by (auto simp: ctl_ctx_step_def split: ctl_at.splits if_splits)
  show "inv_status s'" by (rule inv_status_frame [OF inv]) (simp_all add: at send_result_def id_defs)
next
  assume "io_ctx_step s = Some s'"
  then obtain c where "s' = recovery_ends c (Some JmCtx) s"
    by (auto simp: io_ctx_step_def split: io_at.splits if_splits)
  with recovery_ends_status [OF inv] show "inv_status s'" by simp
qed

lemma jm_step_status:
  assumes inv: "inv_status s" "inv_once s" "inv_exec s" and jm: "jm_inv s" and vals: "inv_vals s" and st: "jm_step fl True l s = Some s'"
  shows "inv_status s'"
proof (cases l)
  case (LCaller c)
  with st obtain pc s1 where "c < n_callers s" "caller_step c (sy_callers s ! c) s = Some (pc, s1)" "s' = set_caller c (pc, s1)"
    by (auto split: if_splits)
  then show ?thesis using caller_step_status [OF inv(1) jm] by simp
next
  case (LCallerCtx c)
  with st have "s' = set_caller c (CallRet (Some JmCtx), s)" by (auto split: if_splits)
  then show ?thesis by (intro inv_status_same [OF inv(1)]) (simp_all add: set_caller_def)
next
  case LCtl
  with st ctl_step_status [OF inv] show ?thesis by simp
next
  case LCtlCtx
  with st ctx_step_status(1) [OF inv(1)] show ?thesis by simp
next
  case (LIo plan now order)
  with st io_step_status [OF inv jm vals] show ?thesis by simp
next
  case LIoCtx
  with st ctx_step_status(2) [OF inv(1)] show ?thesis by simp
next
  case (LExecStart i)
  with st exec_start_status [OF inv(1)] show ?thesis by (auto split: if_splits)
next
  case (LExec i out)
  with st obtain pc' s1 where "i < length (sy_running s)" "exec_step out (sy_running s ! i) s = Some (pc', s1)" "s' = set_running i (pc', s1)"
    by (auto split: if_splits)
  then show ?thesis using exec_step_status [OF inv] by simp
qed (rule inv_status_same [OF inv(1)]; use st in \<open>auto simp: SubmitDelayedJob_def RegisterHandler_def UnregisterHandler_def CancelJob_def Start_def
      jm_Shutdown_def closed_or_post_def add_caller_def upd_m_def Let_def split: if_splits sum.splits\<close>)+

lemma jm_init_status: "inv_vals (jm_init m) \<and> inv_status (jm_init m)"
  by (simp add: inv_vals_def inv_status_def jm_init_def id_defs)

interpretation jobs_status: inv_system "\<lambda>s. \<exists>m. fresh_manager m \<and> s = jm_init m" "lstep (jm_step fl True)"
  "\<lambda>s. jm_inv s \<and> inv_once s \<and> inv_exec s \<and> inv_vals s \<and> inv_status s" for fl
proof (unfold_locales, goal_cases)
  case (1 s)
  then show ?case using jm_init_inv jm_init_once jm_init_status by blast
next
  case (2 s t)
  then obtain l where "jm_step fl True l s = Some t" by (auto simp: lstep_def simp del: jm_step.simps)
  with 2 show ?case by (metis jm_step_inv jm_step_once jm_step_exec jm_step_vals jm_step_status)
qed

section \<open>How the store changes\<close>

text \<open>
  A step leaves the store alone, writes the status running of a job whose start is reported, writes
  a final status, or creates a pending job.
\<close>

definition store_change :: "('h, 'f) jm_sys \<Rightarrow> ('h, 'f) jm_sys \<Rightarrow> bool" where
  "store_change s s' \<longleftrightarrow> jm_store (sy_m s') = jm_store (sy_m s) \<or>
     (\<exists>j status. rewritten j status (jm_store (sy_m s)) (jm_store (sy_m s')) \<and>
        (final_status status \<or> status = JobStatusRunning \<and> (started_once s \<longrightarrow> pending_job s j))) \<or>
     (\<exists>now e. created now e (jm_store (sy_m s)) (jm_store (sy_m s')) \<and> je_Status e = JobStatusPending)"

lemma store_change_same: "jm_store (sy_m s') = jm_store (sy_m s) \<Longrightarrow> store_change s s'"
  by (simp add: store_change_def)

lemma store_change_final: "rewritten j status (jm_store (sy_m s)) (jm_store (sy_m s')) \<Longrightarrow> final_status status \<Longrightarrow> store_change s s'"
  unfolding store_change_def by blast

lemma io_begin_change:
  assumes val: "io_val t" and pend: "\<And>j. started_once s \<Longrightarrow> (j, True) \<in> set (io_ent t) \<Longrightarrow> pending_job s j"
  shows "store_change s (io_begin fl plan now t (s\<lparr>sy_io := ts\<rparr>))" (is "store_change s ?s'")
proof (cases t)
  case (IoPersist k ctx e h traits delay)
  then show ?thesis by (intro store_change_same) (simp add: io_begin_def submit_fails_def upd_m_def Let_def)
next
  case (IoUpdate ref j status msg)
  have r: "rewritten j status (jm_store (sy_m s)) (jm_store (sy_m ?s'))"
    using update_io_rewritten [of j status "s\<lparr>sy_io := ts\<rparr>"] by (simp add: io_begin_def IoUpdate)
  show ?thesis
  proof (cases ref)
    case None
    with store_change_final [OF r] val IoUpdate show ?thesis by simp
  next
    case (Some k)
    then have "status = JobStatusRunning" "started_once s \<longrightarrow> pending_job s j" using val pend [of j] IoUpdate by auto
    with r show ?thesis unfolding store_change_def by blast
  qed
next
  case (IoFinal j status msg)
  have "rewritten j status (jm_store (sy_m s)) (jm_store (sy_m ?s'))"
    using update_io_rewritten [of j status "s\<lparr>sy_io := ts\<rparr>"] by (simp add: io_begin_def IoFinal upd_m_def)
  from store_change_final [OF this] val IoFinal show ?thesis by simp
next
  case (IoRecovery c ctx)
  then show ?thesis by (intro store_change_same) (simp add: io_begin_def)
qed

lemma io_step_change:
  assumes inv: "inv_status s" and jm: "jm_inv s" and vals: "inv_vals s" and st: "io_step fl True plan now order s = Some s'"
  shows "store_change s s'"
proof (cases "sy_io_at s")
  case IoIdle
  with st obtain t ts where t: "sy_io s = t # ts" "s' = io_begin fl plan now t (s\<lparr>sy_io := ts\<rparr>)"
    by (auto simp: io_step_def Let_def split: list.splits)
  have "io_val t" using vals t(1) by (simp add: inv_vals_def)
  moreover have "pending_job s j" if "started_once s" "(j, True) \<in> set (io_ent t)" for j
    using inv that t(1) by (auto simp: inv_status_def io_ents_def)
  ultimately show ?thesis unfolding t(2) by (rule io_begin_change)
next
  case (IoPersisting k ctx e h traits delay)
  obtain err st1 where r: "persistNewJobIO fl plan now True (ctx \<noteq> None) e (sy_m s) = (err, st1)" by fastforce
  then have c: "retried fl plan (ctx \<noteq> None) (mem_CreateJob now e) (sy_m s) = (err, st1)" by (simp add: persistNewJobIO_def)
  have "0 \<le> rp_MaxRetries (jm_retryPolicy (sy_m s))" using jm by (simp add: jm_inv_def inv_store_def)
  from retried_create(1) [OF this c] have "st1 = jm_store (sy_m s) \<or> created now e (jm_store (sy_m s)) st1" .
  moreover have "jm_store (sy_m s') = st1"
    using st IoPersisting r by (auto simp: io_step_def Let_def submit_fails_def upd_m_def split: option.splits)
  moreover have "je_Status e = JobStatusPending" using vals IoPersisting by (simp add: inv_vals_def)
  ultimately show ?thesis unfolding store_change_def by blast
next
  case (IoRecMark c ctx jobs)
  show ?thesis
  proof (cases jobs)
    case Nil
    with IoRecMark st show ?thesis
      by (intro store_change_same) (auto simp: io_step_def Let_def recovery_ends_def send_result_def split: if_splits attempt.splits)
  next
    case (Cons job js)
    then have s': "s' = (update_io fl plan (snd now) (ctx \<noteq> None) (je_ID job) JobStatusFailed ''Interrupted by restart'' s)\<lparr>sy_io_at := IoRecMark c ctx js\<rparr>"
      using st IoRecMark by (simp add: io_step_def Let_def)
    have "rewritten (je_ID job) JobStatusFailed (jm_store (sy_m s)) (jm_store (sy_m s'))" unfolding s' by (simp add: update_io_rewritten)
    then show ?thesis by (rule store_change_final) (simp add: final_status_def)
  qed
next
  case (IoPersisted k e h traits delay)
  with st show ?thesis by (intro store_change_same) (auto simp: io_step_def Let_def submit_fails_def upd_m_def split: if_splits)
next
  case (IoRecNext c ctx jobs)
  with st show ?thesis by (intro store_change_same) (cases jobs; auto simp: io_step_def Let_def recovery_ends_def send_result_def)
qed (rule store_change_same; use st in \<open>auto simp: io_step_def Let_def recovery_ends_def send_result_def split: if_splits attempt.splits\<close>)+

text \<open>The other goroutines leave the store alone.\<close>

lemma ctl_step_store:
  assumes "ctl_step s = Some s'"
  shows "jm_store (sy_m s') = jm_store (sy_m s)"
proof -
  have "jm_store (sy_m (ctl_exec t u)) = jm_store (sy_m u)" for t and u :: "('a, 'b) jm_sys"
    by (cases t) (auto simp: submitJobControl_def recover_closure_def cancelJobControl_def finalizeJobControl_def Let_def send_result_def upd_m_def
        split: option.splits)
  then show ?thesis using assms
    by (auto simp: ctl_step_def send_result_def upd_m_def split: ctl_at.splits list.splits option.splits)
qed

lemma jm_step_change:
  assumes inv: "inv_status s" and jm: "jm_inv s" and vals: "inv_vals s" and st: "jm_step fl True l s = Some s'"
  shows "store_change s s'"
proof (cases l)
  case (LIo plan now order)
  with st io_step_change [OF inv jm vals] show ?thesis by simp
next
  case (LCaller c)
  with st obtain pc s1 where "caller_step c (sy_callers s ! c) s = Some (pc, s1)" "s' = set_caller c (pc, s1)" by (auto split: if_splits)
  then show ?thesis by (intro store_change_same) (cases "sy_callers s ! c"; auto simp: set_caller_def split: if_splits)
next
  case (LExec j out)
  with st obtain pc' s1 where "exec_step out (sy_running s ! j) s = Some (pc', s1)" "s' = set_running j (pc', s1)" by (auto split: if_splits)
  then show ?thesis by (intro store_change_same) (cases "sy_running s ! j"; auto simp: set_running_def)
next
  case LCtl
  with st show ?thesis by (intro store_change_same) (simp add: ctl_step_store)
next
  case LCtlCtx
  with st show ?thesis by (intro store_change_same) (auto simp: ctl_ctx_step_def send_result_def split: ctl_at.splits if_splits)
next
  case LIoCtx
  with st show ?thesis by (intro store_change_same) (auto simp: io_ctx_step_def recovery_ends_def send_result_def split: io_at.splits if_splits)
qed (rule store_change_same; use st in \<open>auto simp: set_caller_def SubmitDelayedJob_def RegisterHandler_def UnregisterHandler_def CancelJob_def Start_def
      jm_Shutdown_def closed_or_post_def add_caller_def upd_m_def Let_def split: if_splits sum.splits\<close>)+

text \<open>What a changed store holds: every old job, and statuses the package names.\<close>

lemma store_change_moves:
  assumes "store_change s s'" "started_once s" "jm_store (sy_m s) i = Some e"
  shows "\<exists>e'. jm_store (sy_m s') i = Some e' \<and>
    (je_Status e' = je_Status e \<or> je_Status e = JobStatusPending \<and> je_Status e' = JobStatusRunning \<or> final_status (je_Status e'))"
  using assms by (auto simp: store_change_def rewritten_def created_def pending_job_def)

definition valid_store :: "MemoryJobStore \<Rightarrow> bool" where
  "valid_store st \<longleftrightarrow> (\<forall>e \<in> ran st. JobStatus_IsValid (je_Status e))"

lemma valid_store_update: "valid_store st \<Longrightarrow> JobStatus_IsValid (je_Status e) \<Longrightarrow> valid_store (st(i \<mapsto> e))"
  by (auto simp: valid_store_def ran_def)

lemma store_change_valid:
  assumes ch: "store_change s s'" and val: "valid_store (jm_store (sy_m s))"
  shows "valid_store (jm_store (sy_m s'))"
proof -
  let ?st = "jm_store (sy_m s)" and ?st' = "jm_store (sy_m s')"
  from ch consider "?st' = ?st"
    | j status where "rewritten j status ?st ?st'" "final_status status \<or> status = JobStatusRunning"
    | now e where "created now e ?st ?st'" "je_Status e = JobStatusPending"
    unfolding store_change_def by blast
  then show ?thesis
  proof cases
    case 2
    from 2(2) have "JobStatus_IsValid status" by (auto simp: JobStatus_IsValid_def final_status_def)
    with 2(1) val show ?thesis by (auto simp: rewritten_def intro: valid_store_update)
  next
    case 3
    then have "JobStatus_IsValid (je_Status (mem_stamp now e))" by (simp add: mem.stamp_fields JobStatus_IsValid_def)
    with 3 val show ?thesis by (auto simp: created_def intro: valid_store_update)
  qed (use val in simp)
qed

interpretation jobs_typed: inv_system "\<lambda>s. \<exists>m. fresh_manager m \<and> valid_store (jm_store m) \<and> s = jm_init m" "lstep (jm_step fl True)"
  "\<lambda>s. (jm_inv s \<and> inv_once s \<and> inv_exec s \<and> inv_vals s \<and> inv_status s) \<and> valid_store (jm_store (sy_m s))" for fl
proof (unfold_locales, goal_cases)
  case (1 s)
  then obtain m where m: "fresh_manager m" "valid_store (jm_store m)" "s = jm_init m" by blast
  then have "jm_inv s \<and> inv_once s \<and> inv_exec s \<and> inv_vals s \<and> inv_status s" by (intro jobs_status.holds_init) blast
  with m show ?case by (simp add: jm_init_def)
next
  case (2 s t)
  then obtain l where l: "jm_step fl True l s = Some t" by (auto simp: lstep_def simp del: jm_step.simps)
  note inv = 2(1) [THEN conjunct1] and val = 2(1) [THEN conjunct2]
  from inv have "inv_status s" "jm_inv s" "inv_vals s" by simp_all
  from jm_step_change [OF this l] have "store_change s t" .
  from store_change_valid [OF this val] jobs_status.holds_step [OF inv 2(2)] show ?case by simp
qed

end
