(* ===== verification/Job_Manager_Props.thy ===== *)
theory Job_Manager_Props
  imports Job_Manager_Status
begin

text \<open>
  The properties of the job manager, with the runs that witness them, and the behaviours of its
  recovery, its cancellation and its shutdown that the code permits.
\<close>

section \<open>Runs\<close>

definition ex_manager :: "(nat, int) JobManager" where
  "ex_manager = NewJobManager ex_float NewMemoryJobStore []"

lemma ex_manager_fresh: "fresh_manager ex_manager"
  by (simp add: fresh_manager_def ex_manager_def NewJobManager_def NewMemoryJobStore_def DefaultRetryPolicy_def
      mem_invar_def range_order_def)

abbreviation ex_submit :: "ctx \<Rightarrow> string \<Rightarrow> nat jm_label" where
  "ex_submit ctx i \<equiv> LSubmit 3 ctx i ''t'' (Inr []) 0 DefaultTaskTraits"

abbreviation ex_io :: "string list \<Rightarrow> nat jm_label" where
  "ex_io keys \<equiv> LIo [] (5, 5) keys"

text \<open>A handler is registered, a job is submitted, persisted and acknowledged, executed and finalized.\<close>

definition ex_register :: "nat jm_label list" where
  "ex_register = [LRegister None ''t'' 7, LCaller 0, LCtl, LCaller 0]"

definition ex_submitted :: "nat jm_label list" where
  "ex_submitted = ex_register @ [ex_submit None ''a'', LCaller 1, LCtl, ex_io [], ex_io [], ex_io [], LCtl, LCaller 1]"

definition ex_executed :: "nat jm_label list" where
  "ex_executed = ex_submitted @ [LExecStart 0, LExec 0 HandlerOk, LExec 0 HandlerOk, ex_io [], LExec 0 HandlerOk, LExec 0 HandlerOk]"

definition ex_finished :: "nat jm_label list" where
  "ex_finished = ex_executed @ [LExec 0 HandlerOk, LCtl, LCtl, LCtl, ex_io []]"

lemmas ex_label_defs = ex_finished_def ex_executed_def ex_submitted_def ex_register_def

definition ex_jobs :: "(nat, int) jm_sys" where
  "ex_jobs = the (run (jm_step ex_float True) ex_finished (jm_init ex_manager))"

lemma ex_jobs_state: "sy_callers ex_jobs = [CallRet None, CallRet None]" "sy_submitted ex_jobs 1 = Some ''a''"
  "sy_executed ex_jobs = [''a'']" "sy_recoveries ex_jobs = 0" "sy_early ex_jobs"
  "map_option je_Status (jm_store (sy_m ex_jobs) ''a'') = Some JobStatusCompleted" "length (sy_callers ex_jobs) = 2"
  by code_simp+

lemma ex_jobs_runs: "run (jm_step ex_float True) ex_finished (jm_init ex_manager) = Some ex_jobs"
proof -
  have "run (jm_step ex_float True) ex_finished (jm_init ex_manager) \<noteq> None" by code_simp
  then show ?thesis unfolding ex_jobs_def by (metis option.exhaust_sel)
qed

lemma ex_jobs_reachable: "jm_reachable ex_float True ex_jobs"
proof -
  have "jm_reachable ex_float True (jm_init ex_manager)" by (rule reach_init) (use ex_manager_fresh in blast)
  from run_reach [OF this ex_jobs_runs] show ?thesis .
qed

section \<open>The properties\<close>

text \<open>
  C3: Durable acknowledgement. In every reachable state of a manager over a durable store with a
  retry policy that is not negative, whatever fails and whoever is cancelled: when a submission has
  returned nil, its job is in the store.
\<close>

theorem submit_ack_is_durable:
  assumes "jm_reachable fl True s" "c < length (sy_callers s)" "sy_submitted s c = Some i" "sy_callers s ! c = CallRet None"
  shows "\<exists>j. mem_GetJob i (jm_store (sy_m s)) = Inr j \<and> je_ID j = i"
proof -
  have inv: "jm_inv s" by (rule jobs.holds_reach [OF assms(1)])
  then have "i \<in> dom (jm_store (sy_m s))" using assms(3,4) by (auto simp: jm_inv_def inv_ack_def)
  moreover have "mem_invar (jm_store (sy_m s))" using inv by (simp add: jm_inv_def inv_store_def)
  ultimately show ?thesis by (auto simp: mem_GetJob_def mem_invar_def)
qed

theorem submit_ack_is_durable_witness:
  "\<exists>j. mem_GetJob ''a'' (jm_store (sy_m ex_jobs)) = Inr j \<and> je_ID j = ''a''"
  by (rule submit_ack_is_durable [OF ex_jobs_reachable, of 1]) (simp_all add: ex_jobs_state(1,7) ex_jobs_state(2) [simplified])





text \<open>
  C21: Stored jobs are well typed. A manager that starts over a store whose jobs have statuses that
  \<^verbatim>\<open>IsValid\<close> accepts keeps it so, in every run, whatever fails and whatever is submitted,
  cancelled, recovered or shut down: every entry is stored under its own identifier and has one of the
  five statuses.
\<close>

theorem stored_jobs_well_typed:
  assumes "fresh_manager m" "\<forall>e \<in> ran (jm_store m). JobStatus_IsValid (je_Status e)" "run (jm_step fl True) ls (jm_init m) = Some s"
    "jm_store (sy_m s) i = Some e"
  shows "je_ID e = i \<and> JobStatus_IsValid (je_Status e)"
proof -
  have "reach (\<lambda>s. \<exists>m. fresh_manager m \<and> valid_store (jm_store m) \<and> s = jm_init m) (lstep (jm_step fl True)) (jm_init m)"
    by (rule reach_init) (use assms(1,2) in \<open>auto simp: valid_store_def\<close>)
  from jobs_typed.holds_reach [OF run_reach [OF this assms(3)]] have "jm_inv s" "valid_store (jm_store (sy_m s))" by simp_all
  then show ?thesis using assms(4) by (auto simp: jm_inv_def inv_store_def mem_invar_def valid_store_def ran_def)
qed

theorem stored_jobs_well_typed_witness:
  "\<exists>e. jm_store (sy_m ex_jobs) ''a'' = Some e \<and> je_ID e = ''a'' \<and> JobStatus_IsValid (je_Status e)"
proof -
  have "\<forall>e \<in> ran (jm_store ex_manager). JobStatus_IsValid (je_Status e)"
    by (simp add: ex_manager_def NewJobManager_def NewMemoryJobStore_def)
  moreover obtain e where "jm_store (sy_m ex_jobs) ''a'' = Some e" using ex_jobs_state(6) by auto
  ultimately show ?thesis using stored_jobs_well_typed [OF ex_manager_fresh _ ex_jobs_runs] by blast
qed

section \<open>What recovery, cancellation and shutdown allow\<close>


text \<open>
  C39: \<^verbatim>\<open>Shutdown\<close> can return nil while a final status is still to be written. It reads the number of
  active jobs and \<^verbatim>\<open>pendingFinalize\<close> when \<^verbatim>\<open>finalizeJobControl\<close> has removed the last job and not yet
  counted it, and shuts the I/O runner down, which drops the update: the job was executed
  successfully and stays \<^verbatim>\<open>RUNNING\<close> in the store for good, since no goroutine has anything left to do.
\<close>

theorem shutdown_loses_final_status:
  "\<exists>s. run (jm_step ex_float True) (ex_executed @ [LShutdown None, LCaller 2, LCtl, LCaller 2, LExec 0 HandlerOk, LCtl,
        LCaller 2, LCaller 2, LCaller 2, LCaller 2, LCaller 2, LCtl, LCtl]) (jm_init ex_manager) = Some s \<and>
     sy_callers s ! 2 = CallRet None \<and> sy_executed s = [''a''] \<and>
     map_option je_Status (jm_store (sy_m s) ''a'') = Some JobStatusRunning \<and>
     sy_ctl_at s = CtlIdle \<and> sy_ctl s = [] \<and> sy_io_at s = IoIdle \<and> sy_io s = [] \<and> sy_exec s = [] \<and> sy_running s = [XGone]"
proof -
  let ?r = "run (jm_step ex_float True) (ex_executed @ [LShutdown None, LCaller 2, LCtl, LCaller 2, LExec 0 HandlerOk, LCtl,
        LCaller 2, LCaller 2, LCaller 2, LCaller 2, LCaller 2, LCtl, LCtl]) (jm_init ex_manager)"
  have "map_option (\<lambda>s. (sy_callers s ! 2, sy_executed s, map_option je_Status (jm_store (sy_m s) ''a''), sy_ctl_at s, sy_ctl s)) ?r =
      Some (CallRet None, [''a''], Some JobStatusRunning, CtlIdle, [])" by code_simp
  moreover have "map_option (\<lambda>s. (sy_io_at s, sy_io s, sy_exec s, sy_running s)) ?r = Some (IoIdle, [], [], [XGone])" by code_simp
  ultimately show ?thesis by (cases ?r) auto
qed

text \<open>
  A submission that fails because its context is done after the job was persisted leaves the job
  pending in the store: the caller gets an error, and the next recovery executes the job all the same.
\<close>

theorem failed_submission_is_recovered:
  "\<exists>s. run (jm_step ex_float True) (ex_register @ [ex_submit (Some 1) ''a'', LCaller 1, LCtl, ex_io [], ex_io [], LCtxDone 1, ex_io [],
        LCtl, LCaller 1, LStart None, LCaller 2, ex_io [''a''], ex_io [''a''], ex_io [''a''], ex_io [''a''], LCtl, LExecStart 0,
        LExec 0 HandlerOk, LExec 0 HandlerOk, LExec 0 HandlerOk]) (jm_init ex_manager) = Some s \<and>
     sy_callers s ! 1 = CallRet (Some JmCtx) \<and> sy_executed s = [''a'']"
proof -
  let ?r = "run (jm_step ex_float True) (ex_register @ [ex_submit (Some 1) ''a'', LCaller 1, LCtl, ex_io [], ex_io [], LCtxDone 1, ex_io [],
        LCtl, LCaller 1, LStart None, LCaller 2, ex_io [''a''], ex_io [''a''], ex_io [''a''], ex_io [''a''], LCtl, LExecStart 0,
        LExec 0 HandlerOk, LExec 0 HandlerOk, LExec 0 HandlerOk]) (jm_init ex_manager)"
  have "map_option (\<lambda>s. (sy_executed s, sy_callers s ! 1)) ?r = Some ([''a''], CallRet (Some JmCtx))" by code_simp
  then show ?thesis by (cases ?r) auto
qed

text \<open>
  A submission on the control runner that waits for the I/O runner, and a recovery on the I/O
  runner that waits for the control runner, both without a context that could end the wait.
\<close>

definition deadlocked :: "nat \<Rightarrow> nat \<Rightarrow> ('h, 'f) jm_sys \<Rightarrow> bool" where
  "deadlocked c d s \<longleftrightarrow>
     (\<exists>k n jobs. sy_ctl_at s = CtlWait k c None \<and> sy_io_results s k = None \<and>
        sy_io_at s = IoRecWait d None n jobs \<and> n \<notin> set (sy_done s)) \<and>
     c < length (sy_callers s) \<and> d < length (sy_callers s) \<and> sy_callers s ! c = CallWait None \<and> sy_callers s ! d = CallWait None \<and>
     sy_results s c = None \<and> sy_results s d = None"

lemma deadlocked_cong:
  assumes "deadlocked c d s" "sy_ctl_at s' = sy_ctl_at s" "sy_io_at s' = sy_io_at s" "sy_io_results s' = sy_io_results s"
    "sy_done s' = sy_done s" "sy_results s' = sy_results s" "length (sy_callers s) \<le> length (sy_callers s')"
    "sy_callers s' ! c = sy_callers s ! c" "sy_callers s' ! d = sy_callers s ! d"
  shows "deadlocked c d s'"
  using assms by (auto simp: deadlocked_def)

lemma deadlocked_add_caller:
  assumes "deadlocked c d s" "sy_ctl_at s' = sy_ctl_at s" "sy_io_at s' = sy_io_at s" "sy_io_results s' = sy_io_results s"
    "sy_done s' = sy_done s" "sy_results s' = sy_results s" "sy_callers s' = sy_callers s @ [pc]"
  shows "deadlocked c d s'"
proof -
  have "c < length (sy_callers s)" "d < length (sy_callers s)" using assms(1) by (auto simp: deadlocked_def)
  then show ?thesis by (intro deadlocked_cong [OF assms(1)]) (auto simp: assms nth_append)
qed

lemma deadlocked_step:
  assumes dead: "deadlocked c d s" and st: "jm_step fl durable l s = Some s'"
  shows "deadlocked c d s'"
proof -
  from dead have blocked: "ctl_step s = None" "ctl_ctx_step s = None" "io_step fl durable plan now order s = None" "io_ctx_step s = None"
    for plan now order
    by (auto simp: deadlocked_def ctl_step_def ctl_ctx_step_def io_step_def io_ctx_step_def ctx_done_def Let_def)
  have cd: "sy_callers s ! c = CallWait None" "sy_callers s ! d = CallWait None" "sy_results s c = None" "sy_results s d = None"
    using dead by (auto simp: deadlocked_def)
  show ?thesis
  proof (cases l)
    case (LCaller e)
    then obtain pc s1 where e: "e < length (sy_callers s)" "caller_step e (sy_callers s ! e) s = Some (pc, s1)" "s' = set_caller e (pc, s1)"
      using st by (auto split: if_splits)
    then have "e \<noteq> c" "e \<noteq> d" using cd by auto
    moreover have "sy_ctl_at s1 = sy_ctl_at s" "sy_io_at s1 = sy_io_at s" "sy_io_results s1 = sy_io_results s" "sy_done s1 = sy_done s"
      "sy_results s1 = sy_results s" "sy_callers s1 = sy_callers s" using e(2) by (cases "sy_callers s ! e"; auto)+
    ultimately show ?thesis by (intro deadlocked_cong [OF dead]) (auto simp: e(3) set_caller_def)
  next
    case (LCallerCtx e)
    then have "e \<noteq> c" "e \<noteq> d" "s' = set_caller e (CallRet (Some JmCtx), s)"
      using st cd by (auto simp: ctx_done_def split: if_splits)
    then show ?thesis by (intro deadlocked_cong [OF dead]) (auto simp: set_caller_def)
  next
    case (LExec i out)
    then obtain pc s1 where e: "exec_step out (sy_running s ! i) s = Some (pc, s1)" "s' = set_running i (pc, s1)"
      using st by (auto split: if_splits)
    have "sy_ctl_at s1 = sy_ctl_at s" "sy_io_at s1 = sy_io_at s" "sy_io_results s1 = sy_io_results s" "sy_done s1 = sy_done s"
      "sy_results s1 = sy_results s" "sy_callers s1 = sy_callers s" using e(1) by (cases "sy_running s ! i"; auto)+
    then show ?thesis by (intro deadlocked_cong [OF dead]) (auto simp: e(2) set_running_def)
  next
    case (LExecStart i)
    then show ?thesis using st by (intro deadlocked_cong [OF dead]) (auto split: if_splits)
  next
    case (LCtxDone n)
    then show ?thesis using st by (intro deadlocked_cong [OF dead]) auto
  next
    case (LSubmit now ctx i ty ser delay traits)
    then obtain pc where "s' = SubmitDelayedJob now ctx i ty ser delay traits s" "sy_callers s' = sy_callers s @ [pc]"
      using st by (auto simp: SubmitDelayedJob_def add_caller_def Let_def split: sum.splits if_splits)
    then show ?thesis
      by (intro deadlocked_add_caller [OF dead]) (auto simp: SubmitDelayedJob_def add_caller_def Let_def split: sum.splits)
  next
    case (LShutdown ctx)
    then obtain pc where "s' = jm_Shutdown ctx s" "sy_callers s' = sy_callers s @ [pc]"
      using st by (auto simp: jm_Shutdown_def add_caller_def upd_m_def split: if_splits)
    then show ?thesis by (intro deadlocked_add_caller [OF dead]) (auto simp: jm_Shutdown_def add_caller_def upd_m_def)
  qed (use st blocked in \<open>auto simp: RegisterHandler_def UnregisterHandler_def CancelJob_def Start_def closed_or_post_def add_caller_def
      split: if_splits intro!: deadlocked_add_caller [OF dead]\<close>)
qed

lemma deadlocked_run: "deadlocked c d s \<Longrightarrow> run (jm_step fl durable) ls s = Some s' \<Longrightarrow> deadlocked c d s'"
proof (induction ls arbitrary: s)
  case (Cons l ls)
  then obtain u where "jm_step fl durable l s = Some u" "run (jm_step fl durable) ls u = Some s'"
    by (auto split: option.splits simp del: jm_step.simps)
  with deadlocked_step [OF Cons.prems(1)] Cons.IH show ?case by blast
qed simp

text \<open>With one pending job in the store, \<^verbatim>\<open>Start\<close> and a second submission meet.\<close>

definition ex_deadlock :: "(nat, int) jm_sys" where
  "ex_deadlock = the (run (jm_step ex_float True) (ex_submitted @ [ex_submit None ''b'', LStart None, LCaller 3, ex_io [], LCaller 2, LCtl,
     ex_io [''a''], ex_io [''a''], ex_io [''a'']]) (jm_init ex_manager))"

lemma ex_deadlock_state: "sy_ctl_at ex_deadlock = CtlWait 1 2 None" "sy_io_results ex_deadlock 1 = None"
  "sy_io_at ex_deadlock = IoRecWait 3 None 0 []" "sy_done ex_deadlock = []"
  "sy_callers ex_deadlock = [CallRet None, CallRet None, CallWait None, CallWait None]"
  "sy_results ex_deadlock 2 = None" "sy_results ex_deadlock 3 = None"
  by code_simp+

text \<open>
  C40: \<^verbatim>\<open>Start\<close> beside \<^verbatim>\<open>SubmitJob\<close> can block both for good. In a reachable state the control runner waits
  for the I/O runner, which waits for the control runner; with \<^verbatim>\<open>context.Background()\<close> neither call
  (caller 2 submits, caller 3 starts) ever returns, whatever happens afterwards.
\<close>

theorem start_and_submit_deadlock:
  assumes "run (jm_step ex_float True) ls ex_deadlock = Some s"
  shows "jm_reachable ex_float True ex_deadlock \<and> sy_callers s ! 2 = CallWait None \<and> sy_callers s ! 3 = CallWait None"
proof -
  let ?ls = "ex_submitted @ [ex_submit None ''b'', LStart None, LCaller 3, ex_io [], LCaller 2, LCtl, ex_io [''a''], ex_io [''a''], ex_io [''a'']]"
  have "run (jm_step ex_float True) ?ls (jm_init ex_manager) \<noteq> None" by code_simp
  then have r: "run (jm_step ex_float True) ?ls (jm_init ex_manager) = Some ex_deadlock"
    unfolding ex_deadlock_def by (metis option.exhaust_sel)
  have "jm_reachable ex_float True (jm_init ex_manager)" by (rule reach_init) (use ex_manager_fresh in blast)
  from run_reach [OF this r] have "jm_reachable ex_float True ex_deadlock" .
  moreover have "deadlocked 2 3 ex_deadlock"
    unfolding deadlocked_def
    by (simp add: ex_deadlock_state(1,3-5) ex_deadlock_state(6,7) ex_deadlock_state(2) [simplified])
  from deadlocked_run [OF this assms] have "sy_callers s ! 2 = CallWait None" "sy_callers s ! 3 = CallWait None"
    by (simp_all add: deadlocked_def)
  ultimately show ?thesis by simp
qed

theorem start_and_submit_deadlock_witness:
  "\<exists>s. run (jm_step ex_float True) [LExecStart 0, LExec 0 HandlerOk] ex_deadlock = Some s \<and> sy_callers s ! 2 = CallWait None"
proof -
  have "run (jm_step ex_float True) [LExecStart 0, LExec 0 HandlerOk] ex_deadlock \<noteq> None" by code_simp
  then obtain s where s: "run (jm_step ex_float True) [LExecStart 0, LExec 0 HandlerOk] ex_deadlock = Some s" by blast
  from start_and_submit_deadlock [OF s] s show ?thesis by blast
qed

end
