(* ===== verification/Api_Doc.thy ===== *)
theory Api_Doc
  imports Prelude "HOL-Library.List_Lexorder" "HOL-Library.Char_ord" "HOL-Library.Sublist"
begin

text \<open>
  The generator of the API reference, \<^verbatim>\<open>scripts/gen-api-doc.go\<close>. What \<^verbatim>\<open>go/parser\<close> and \<^verbatim>\<open>go/doc\<close> return for a
  directory is an argument, in the part of their data types that the program reads; so are the
  contents of the files. Texts are ASCII. \<^verbatim>\<open>sort.Slice\<close> is not stable, but the names it sorts
  by are those of different declarations of one package, so the result is the sorted list.
\<close>

section \<open>What go/doc delivers\<close>

text \<open>The place of a node of the syntax tree: its file and the offsets of its two ends.\<close>

record ast_node =
  nd_file :: string
  nd_start :: int
  nd_end :: int

datatype ast_type = InterfaceType | StructType | OtherType

datatype ast_spec = TypeSpec ast_type | OtherSpec

record GenDecl =
  gd_node :: ast_node
  gd_Specs :: "ast_spec list"

record FuncDecl =
  fd_node :: ast_node
  fd_Type :: "ast_node option"

record doc_Func =
  df_Name :: string
  df_Doc :: string
  df_Decl :: "FuncDecl option"

record doc_Value =
  dv_Names :: "string list"
  dv_Doc :: string
  dv_Decl :: "GenDecl option"

record doc_Type =
  ty_Name :: string
  ty_Doc :: string
  ty_Decl :: "GenDecl option"
  ty_Consts :: "doc_Value list"
  ty_Vars :: "doc_Value list"
  ty_Funcs :: "doc_Func list"
  ty_Methods :: "doc_Func list"

record doc_Package =
  dp_Doc :: string
  dp_Types :: "doc_Type list"
  dp_Funcs :: "doc_Func list"
  dp_Consts :: "doc_Value list"
  dp_Vars :: "doc_Value list"

section \<open>Strings\<close>

definition go_space :: "char \<Rightarrow> bool" where
  "go_space c \<longleftrightarrow> c \<in> {CHR '' '', CHR 0x09, CHR 0x0A, CHR 0x0B, CHR 0x0C, CHR 0x0D}"

definition TrimSpace :: "string \<Rightarrow> string" where
  "TrimSpace s = rev (dropWhile go_space (rev (dropWhile go_space s)))"

definition IsExported :: "string \<Rightarrow> bool" where
  "IsExported name = (case name of [] \<Rightarrow> False | c # _ \<Rightarrow> CHR ''A'' \<le> c \<and> c \<le> CHR ''Z'')"

definition HasPrefix :: "string \<Rightarrow> string \<Rightarrow> bool" where
  "HasPrefix s p \<longleftrightarrow> take (length p) s = p"

definition HasSuffix :: "string \<Rightarrow> string \<Rightarrow> bool" where
  "HasSuffix s p \<longleftrightarrow> HasPrefix (rev s) (rev p)"

text \<open>\<^verbatim>\<open>strings.Split\<close> at one character, \<^verbatim>\<open>strings.Join\<close>, and \<^verbatim>\<open>strings.SplitN\<close> with limit 2.\<close>

fun split_at :: "char \<Rightarrow> string \<Rightarrow> string list" where
  "split_at c [] = [[]]"
| "split_at c (x # xs) =
     (if x = c then [] # split_at c xs
      else case split_at c xs of [] \<Rightarrow> [[x]] | l # ls \<Rightarrow> (x # l) # ls)"

fun join_with :: "string \<Rightarrow> string list \<Rightarrow> string" where
  "join_with sep [] = []" | "join_with sep [x] = x" | "join_with sep (x # y # ys) = x @ sep @ join_with sep (y # ys)"

definition after_first :: "char \<Rightarrow> string \<Rightarrow> string" where
  "after_first c s = tl (dropWhile (\<lambda>x. x \<noteq> c) s)"

definition nl :: string where "nl = [CHR 0x0A]"

definition fence :: string where "fence = [CHR 0x60, CHR 0x60, CHR 0x60]"

definition quoted :: "string \<Rightarrow> string" where "quoted s = CHR 0x60 # s @ [CHR 0x60]"

section \<open>The collected entries\<close>

record methodEntry = me_Name :: string me_Doc :: string me_Decl :: string

record typeEntry = te_Name :: string te_Doc :: string te_Decl :: string te_Methods :: "methodEntry list"

record funcEntry = fe_Name :: string fe_Doc :: string fe_Decl :: string

record valueEntry = ve_Names :: "string list" ve_Doc :: string ve_Decl :: string

record pkgDoc =
  pd_Name :: string
  pd_ImportPath :: string
  pd_Doc :: string
  pd_Interfaces :: "typeEntry list"
  pd_Structs :: "typeEntry list"
  pd_Types :: "typeEntry list"
  pd_Constructors :: "funcEntry list"
  pd_Functions :: "funcEntry list"
  pd_Constants :: "valueEntry list"
  pd_Variables :: "valueEntry list"

type_synonym files = "string \<Rightarrow> string option"

definition nodeText :: "files \<Rightarrow> ast_node \<Rightarrow> string" where
  "nodeText files n =
     (case files (nd_file n) of None \<Rightarrow> []
      | Some data \<Rightarrow>
          if nd_start n < 0 \<or> nd_end n > int (length data) \<or> nd_start n \<ge> nd_end n then []
          else take (nat (nd_end n - nd_start n)) (drop (nat (nd_start n)) data))"

definition decl_text :: "files \<Rightarrow> GenDecl option \<Rightarrow> string" where
  "decl_text files decl = (case decl of None \<Rightarrow> [] | Some d \<Rightarrow> TrimSpace (nodeText files (gd_node d)))"

definition formatFuncDecl :: "files \<Rightarrow> FuncDecl option \<Rightarrow> string" where
  "formatFuncDecl files decl = (case decl of None \<Rightarrow> [] | Some d \<Rightarrow> TrimSpace (nodeText files (fd_node d)))"

definition isInterfaceDecl :: "GenDecl option \<Rightarrow> bool" where
  "isInterfaceDecl decl = (case decl of None \<Rightarrow> False | Some d \<Rightarrow> list_ex (\<lambda>s. s = TypeSpec InterfaceType) (gd_Specs d))"

definition isStructDecl :: "GenDecl option \<Rightarrow> bool" where
  "isStructDecl decl = (case decl of None \<Rightarrow> False | Some d \<Rightarrow> list_ex (\<lambda>s. s = TypeSpec StructType) (gd_Specs d))"

definition sortByName :: "typeEntry list \<Rightarrow> typeEntry list" where
  "sortByName = sort_key te_Name"

definition method_entry :: "files \<Rightarrow> doc_Func \<Rightarrow> methodEntry" where
  "method_entry files m =
     \<lparr>me_Name = df_Name m, me_Doc = TrimSpace (df_Doc m),
      me_Decl = (case df_Decl m of None \<Rightarrow> []
                 | Some d \<Rightarrow> (case fd_Type d of None \<Rightarrow> [] | Some n \<Rightarrow> TrimSpace (nodeText files n)))\<rparr>"

definition type_entry :: "files \<Rightarrow> doc_Type \<Rightarrow> typeEntry" where
  "type_entry files t =
     \<lparr>te_Name = ty_Name t, te_Doc = TrimSpace (ty_Doc t), te_Decl = decl_text files (ty_Decl t),
      te_Methods = sort_key me_Name (map (method_entry files) (filter (\<lambda>m. IsExported (df_Name m)) (ty_Methods t)))\<rparr>"

definition func_entry :: "files \<Rightarrow> doc_Func \<Rightarrow> funcEntry" where
  "func_entry files f = \<lparr>fe_Name = df_Name f, fe_Doc = TrimSpace (df_Doc f), fe_Decl = formatFuncDecl files (df_Decl f)\<rparr>"

text \<open>A function of the package is a constructor by its prefix; one that returns a type of the package also as \<^verbatim>\<open>Create\<close>.\<close>

definition is_constructor :: "doc_Func \<Rightarrow> bool" where
  "is_constructor f \<longleftrightarrow> HasPrefix (df_Name f) ''New'' \<or> HasPrefix (df_Name f) ''Default''"

definition is_type_constructor :: "doc_Func \<Rightarrow> bool" where
  "is_type_constructor f \<longleftrightarrow> HasPrefix (df_Name f) ''New'' \<or> HasPrefix (df_Name f) ''Default'' \<or> HasPrefix (df_Name f) ''Create''"

definition value_entries :: "files \<Rightarrow> doc_Value list \<Rightarrow> valueEntry list" where
  "value_entries files vs =
     concat (map (\<lambda>c. let exported = filter IsExported (dv_Names c) in
                      if exported = [] then []
                      else [\<lparr>ve_Names = exported, ve_Doc = TrimSpace (dv_Doc c), ve_Decl = decl_text files (dv_Decl c)\<rparr>]) vs)"

definition sort_values :: "valueEntry list \<Rightarrow> valueEntry list" where
  "sort_values = sort_key (\<lambda>v. ve_Names v ! 0)"

text \<open>\<^verbatim>\<open>parsePackage\<close> after \<^verbatim>\<open>doc.New\<close>.\<close>

definition pkg_entries :: "files \<Rightarrow> string \<Rightarrow> string \<Rightarrow> doc_Package \<Rightarrow> pkgDoc" where
  "pkg_entries files pkgName importPath d =
     (let types = filter (\<lambda>t. IsExported (ty_Name t)) (dp_Types d);
          ifaces = filter (\<lambda>t. isInterfaceDecl (ty_Decl t)) types;
          others = filter (\<lambda>t. \<not> isInterfaceDecl (ty_Decl t)) types;
          funcs = filter (\<lambda>f. IsExported (df_Name f)) (dp_Funcs d);
          tfuncs = filter (\<lambda>f. IsExported (df_Name f)) (concat (map ty_Funcs (dp_Types d)))
      in \<lparr>pd_Name = pkgName, pd_ImportPath = importPath, pd_Doc = TrimSpace (dp_Doc d),
          pd_Interfaces = sortByName (map (type_entry files) ifaces),
          pd_Structs = sortByName (map (type_entry files) (filter (\<lambda>t. isStructDecl (ty_Decl t)) others)),
          pd_Types = sortByName (map (type_entry files) (filter (\<lambda>t. \<not> isStructDecl (ty_Decl t)) others)),
          pd_Constructors = sort_key fe_Name (map (func_entry files) (filter is_constructor funcs @ filter is_type_constructor tfuncs)),
          pd_Functions = sort_key fe_Name
            (map (func_entry files) (filter (\<lambda>f. \<not> is_constructor f) funcs @ filter (\<lambda>f. \<not> is_type_constructor f) tfuncs)),
          pd_Constants = sort_values (value_entries files (concat (map ty_Consts (dp_Types d)) @ dp_Consts d)),
          pd_Variables = sort_values (value_entries files (dp_Vars d))\<rparr>)"

datatype 'a gen_run = GenDone 'a | GenExit string | GenNilPanic

definition is_source_file :: "string \<times> bool \<Rightarrow> bool" where
  "is_source_file fi = (case fi of (name, isDir) \<Rightarrow> \<not> isDir \<and> HasSuffix name ''.go'' \<and> \<not> HasSuffix name ''_test.go'')"

text \<open>
  \<open>parse\<close> is \<^verbatim>\<open>parser.ParseDir\<close> on the files that the filter admits; its packages are a map, listed in the
  order in which \<^verbatim>\<open>range\<close> visits it. An empty map leaves \<^verbatim>\<open>astPkg\<close> nil, which \<^verbatim>\<open>doc.New\<close> dereferences.
\<close>

definition parsePackage ::
  "files \<Rightarrow> (string \<Rightarrow> (string \<times> bool) list) \<Rightarrow> (string \<Rightarrow> string list \<Rightarrow> string + (string \<times> 'ast) list) \<Rightarrow>
     ('ast \<Rightarrow> string \<Rightarrow> doc_Package) \<Rightarrow> string \<Rightarrow> string \<Rightarrow> pkgDoc gen_run" where
  "parsePackage files readDir parse docNew dir importPath =
     (case parse dir (map fst (filter is_source_file (readDir dir))) of
        Inl err \<Rightarrow> GenExit (''error parsing '' @ dir @ '': '' @ err @ nl)
      | Inr [] \<Rightarrow> GenNilPanic
      | Inr ((name, p) # _) \<Rightarrow> GenDone (pkg_entries files name importPath (docNew p importPath)))"

section \<open>The text\<close>

definition if_text :: "string \<Rightarrow> (string \<Rightarrow> string) \<Rightarrow> string" where
  "if_text s f = (if s = [] then [] else f s)"

definition doc_lines :: "string \<Rightarrow> string" where
  "doc_lines doc = concat (map (\<lambda>line. ''  > '' @ line @ nl) (split_at (CHR 0x0A) doc)) @ nl"

definition entry_head :: "string \<Rightarrow> string \<Rightarrow> string \<Rightarrow> string" where
  "entry_head name doc decl =
     ''#### '' @ quoted name @ nl @ nl @ if_text doc (\<lambda>s. s @ nl @ nl) @
     if_text decl (\<lambda>s. fence @ ''go'' @ nl @ s @ nl @ fence @ nl @ nl)"

definition write_method :: "methodEntry \<Rightarrow> string" where
  "write_method m = ''- '' @ quoted (me_Name m) @ if_text (me_Decl m) (\<lambda>s. '' '' @ s) @ nl @ if_text (me_Doc m) doc_lines"

definition writeTypeEntry :: "typeEntry \<Rightarrow> bool \<Rightarrow> string" where
  "writeTypeEntry t isInterface =
     entry_head (te_Name t) (te_Doc t) (te_Decl t) @
     (if te_Methods t = [] then []
      else (if isInterface then ''**Methods:**'' else ''**Exported methods:**'') @ nl @ nl @ concat (map write_method (te_Methods t)))"

definition writeFuncEntry :: "funcEntry \<Rightarrow> string" where
  "writeFuncEntry f = entry_head (fe_Name f) (fe_Doc f) (fe_Decl f)"

definition value_of_line :: "string \<Rightarrow> string" where
  "value_of_line line0 =
     (let line = TrimSpace line0 in
      if CHR ''='' \<in> set line then if_text (TrimSpace (after_first (CHR ''='') line)) (\<lambda>v. '' = '' @ v) else [])"

definition writeValueEntry :: "valueEntry \<Rightarrow> string" where
  "writeValueEntry v =
     ''- '' @ quoted (join_with (CHR 0x60 # '', '' @ [CHR 0x60]) (ve_Names v)) @
     if_text (ve_Decl v) (\<lambda>s. concat (map value_of_line (split_at (CHR 0x0A) (TrimSpace s)))) @ nl @
     if_text (ve_Doc v) doc_lines"

definition write_section :: "string \<Rightarrow> ('e \<Rightarrow> string) \<Rightarrow> 'e list \<Rightarrow> string" where
  "write_section title f es = (if es = [] then [] else ''### '' @ title @ nl @ nl @ concat (map f es))"

definition writePackage :: "pkgDoc \<Rightarrow> string" where
  "writePackage pd =
     ''## Package '' @ quoted (pd_Name pd) @ nl @ nl @ if_text (pd_Doc pd) (\<lambda>s. s @ nl @ nl) @
     write_section ''Interfaces'' (\<lambda>t. writeTypeEntry t True) (pd_Interfaces pd) @
     write_section ''Structs'' (\<lambda>t. writeTypeEntry t False) (pd_Structs pd) @
     write_section ''Types'' (\<lambda>t. writeTypeEntry t False) (pd_Types pd) @
     write_section ''Constructors'' writeFuncEntry (pd_Constructors pd) @
     write_section ''Functions'' writeFuncEntry (pd_Functions pd) @
     write_section ''Constants'' writeValueEntry (pd_Constants pd) @
     write_section ''Variables'' writeValueEntry (pd_Variables pd)"

section \<open>The program\<close>

text \<open>
  Paths are absolute, as lists of names. \<open>stat\<close> says whether \<^verbatim>\<open>go.mod\<close> is in a directory.
  The parent of the root is the root.
\<close>

function findRepoRoot :: "(string list \<Rightarrow> bool) \<Rightarrow> string list \<Rightarrow> string list option" where
  "findRepoRoot stat dir =
     (if stat dir then Some dir
      else let parent = butlast dir in if parent = dir then None else findRepoRoot stat parent)"
  by pat_completeness auto
termination
proof (relation "measure (\<lambda>(stat, dir). length dir)", goal_cases)
  case (2 stat dir x)
  then show ?case by (cases "dir = []") auto
qed simp

definition path_text :: "string list \<Rightarrow> string" where
  "path_text p = (if p = [] then ''/'' else concat (map (\<lambda>c. CHR ''/'' # c) p))"

definition join_dir :: "string list \<Rightarrow> string \<Rightarrow> string list" where
  "join_dir root dir = (if dir = ''.'' then root else root @ [dir])"

record 'ast gen_env =
  en_Args :: "string list"
  en_cwd :: "string list"
  en_go_mod :: "string list \<Rightarrow> bool"
  en_files :: files
  en_readDir :: "string \<Rightarrow> (string \<times> bool) list"
  en_parse :: "string \<Rightarrow> string list \<Rightarrow> string + (string \<times> 'ast) list"
  en_docNew :: "'ast \<Rightarrow> string \<Rightarrow> doc_Package"
  en_mkdir :: "string option"
  en_write :: "string option"

text \<open>Exit status 1 with a message, a panic, or the file that was written.\<close>

datatype gen_result = Exit1 string | GenPanic | Wrote string string

fun write_packages :: "'ast gen_env \<Rightarrow> string list \<Rightarrow> (string \<times> string) list \<Rightarrow> string \<Rightarrow> string gen_run" where
  "write_packages env root [] sb = GenDone sb"
| "write_packages env root ((dir, importPath) # pcs) sb =
     (case parsePackage (en_files env) (en_readDir env) (en_parse env) (en_docNew env) (path_text (join_dir root dir)) importPath of
        GenDone pd \<Rightarrow> write_packages env root pcs (sb @ writePackage pd)
      | GenExit msg \<Rightarrow> GenExit msg
      | GenNilPanic \<Rightarrow> GenNilPanic)"

definition gen_title :: string where
  "gen_title = ''# API Reference'' @ nl @ nl @ ''> Auto-generated from source. Do not edit manually.'' @ nl @ nl"

definition gen_main :: "'ast gen_env \<Rightarrow> gen_result" where
  "gen_main env =
     (case en_Args env of
        [_, outputPath] \<Rightarrow>
          (case findRepoRoot (en_go_mod env) (en_cwd env) of
             None \<Rightarrow> Exit1 (''could not find go.mod'' @ nl)
           | Some root \<Rightarrow>
               (case write_packages env root [(''.'', ''taskrunner''), (''core'', ''core'')] gen_title of
                  GenExit msg \<Rightarrow> Exit1 msg
                | GenNilPanic \<Rightarrow> GenPanic
                | GenDone text \<Rightarrow>
                    (case en_mkdir env of Some err \<Rightarrow> Exit1 (''error: '' @ err @ nl)
                     | None \<Rightarrow>
                         (case en_write env of Some err \<Rightarrow> Exit1 (''error: '' @ err @ nl)
                          | None \<Rightarrow> Wrote outputPath text))))
      | _ \<Rightarrow> Exit1 (''usage: gen-api-doc.go <output-file>'' @ nl))"

section \<open>Every exported name is documented once\<close>

lemma entry_names [simp]: "te_Name (type_entry files t) = ty_Name t" "fe_Name (func_entry files f) = df_Name f"
  by (simp_all add: type_entry_def func_entry_def)

lemma value_entries_simps [simp]:
  "value_entries files [] = []" "value_entries files (vs @ ws) = value_entries files vs @ value_entries files ws"
  by (simp_all add: value_entries_def)

lemma value_entries_names: "concat (map ve_Names (value_entries files vs)) = filter IsExported (concat (map dv_Names vs))"
  by (induction vs) (auto simp: value_entries_def Let_def)

lemma value_entries_nonempty: "v \<in> set (value_entries files vs) \<Longrightarrow> ve_Names v \<noteq> []"
  by (auto simp: value_entries_def Let_def split: if_splits)

lemma mset_names_parts: "mset (map f (filter P xs @ filter (\<lambda>x. \<not> P x) xs)) = mset (map f xs)"
  by (induction xs) simp_all

text \<open>
  What a complete reference is: the names in its sections are the exported names, each once, and the
  sections are sorted.
\<close>

definition documents :: "pkgDoc \<Rightarrow> doc_Package \<Rightarrow> bool" where
  "documents pd d \<longleftrightarrow>
     mset (map te_Name (pd_Interfaces pd @ pd_Structs pd @ pd_Types pd)) = mset (filter IsExported (map ty_Name (dp_Types d))) \<and>
     mset (map fe_Name (pd_Constructors pd @ pd_Functions pd)) =
       mset (filter IsExported (map df_Name (dp_Funcs d @ concat (map ty_Funcs (dp_Types d))))) \<and>
     mset (concat (map ve_Names (pd_Constants pd))) =
       mset (filter IsExported (concat (map dv_Names (concat (map ty_Consts (dp_Types d)) @ dp_Consts d)))) \<and>
     mset (concat (map ve_Names (pd_Variables pd))) = mset (filter IsExported (concat (map dv_Names (dp_Vars d)))) \<and>
     (\<forall>ts \<in> {pd_Interfaces pd, pd_Structs pd, pd_Types pd}. sorted (map te_Name ts)) \<and>
     (\<forall>fs \<in> {pd_Constructors pd, pd_Functions pd}. sorted (map fe_Name fs)) \<and>
     (\<forall>vs \<in> {pd_Constants pd, pd_Variables pd}. sorted (map (\<lambda>v. ve_Names v ! 0) vs))"

lemma mset_sort_names: "mset (map f (sort_key g xs)) = mset (map f xs)" "mset (concat (map h (sort_key g xs))) = mset (concat (map h xs))"
  by (simp_all add: mset_concat flip: sum_mset_sum_list)

lemma filter_map_names: "filter P (map f xs) = map f (filter (\<lambda>x. P (f x)) xs)"
  by (simp add: filter_map comp_def)

lemma entries_of_types:
  "mset (map te_Name (pd_Interfaces (pkg_entries files n path d) @ pd_Structs (pkg_entries files n path d) @ pd_Types (pkg_entries files n path d))) =
     mset (filter IsExported (map ty_Name (dp_Types d)))"
proof -
  let ?ts = "filter (\<lambda>t. IsExported (ty_Name t)) (dp_Types d)" and ?i = "\<lambda>t. isInterfaceDecl (ty_Decl t)" and ?s = "\<lambda>t. isStructDecl (ty_Decl t)"
  let ?others = "filter (\<lambda>t. \<not> ?i t) ?ts"
  have "mset (map ty_Name (filter ?i ?ts)) + (mset (map ty_Name (filter ?s ?others)) + mset (map ty_Name (filter (\<lambda>t. \<not> ?s t) ?others))) = mset (map ty_Name ?ts)"
    using mset_names_parts [of ty_Name ?s ?others] mset_names_parts [of ty_Name ?i ?ts] by (simp only: map_append mset_append)
  then show ?thesis by (simp add: pkg_entries_def Let_def sortByName_def mset_sort_names filter_map_names comp_def del: mset_map filter_filter)
qed

lemma entries_of_funcs:
  "mset (map fe_Name (pd_Constructors (pkg_entries files n path d) @ pd_Functions (pkg_entries files n path d))) =
     mset (filter IsExported (map df_Name (dp_Funcs d @ concat (map ty_Funcs (dp_Types d)))))"
proof -
  let ?fs = "filter (\<lambda>f. IsExported (df_Name f)) (dp_Funcs d)" and ?gs = "filter (\<lambda>f. IsExported (df_Name f)) (concat (map ty_Funcs (dp_Types d)))"
  have "mset (map df_Name (filter is_constructor ?fs)) + mset (map df_Name (filter (\<lambda>f. \<not> is_constructor f) ?fs)) = mset (map df_Name ?fs)"
    "mset (map df_Name (filter is_type_constructor ?gs)) + mset (map df_Name (filter (\<lambda>f. \<not> is_type_constructor f) ?gs)) = mset (map df_Name ?gs)"
    using mset_names_parts [of df_Name is_constructor ?fs] mset_names_parts [of df_Name is_type_constructor ?gs] by (simp_all only: map_append mset_append)
  then show ?thesis
    by (simp add: pkg_entries_def Let_def mset_sort_names filter_map_names comp_def ac_simps del: mset_map filter_filter filter_concat)
qed


text \<open>A variable whose type is a type of the package is listed with that type, where the generator does not look.\<close>

lemma typed_variables_ignored:
  "pkg_entries files n path (d\<lparr>dp_Types := map (\<lambda>t. t\<lparr>ty_Vars := vs t\<rparr>) (dp_Types d)\<rparr>) = pkg_entries files n path d"
proof -
  have "type_entry files (t\<lparr>ty_Vars := ws\<rparr>) = type_entry files t" for t ws by (simp add: type_entry_def)
  then show ?thesis by (simp add: pkg_entries_def Let_def filter_map comp_def)
qed

section \<open>The text does not depend on the order of the declarations\<close>

text \<open>The same declarations in another order, and no exported name twice, as the language demands.\<close>

definition reordered :: "doc_Package \<Rightarrow> doc_Package \<Rightarrow> bool" where
  "reordered d d' \<longleftrightarrow> dp_Doc d' = dp_Doc d \<and> mset (dp_Types d') = mset (dp_Types d) \<and> mset (dp_Funcs d') = mset (dp_Funcs d) \<and>
     mset (dp_Consts d') = mset (dp_Consts d) \<and> mset (dp_Vars d') = mset (dp_Vars d)"

definition unique_names :: "doc_Package \<Rightarrow> bool" where
  "unique_names d \<longleftrightarrow> distinct (filter IsExported (map ty_Name (dp_Types d))) \<and>
     distinct (filter IsExported (map df_Name (dp_Funcs d @ concat (map ty_Funcs (dp_Types d))))) \<and>
     distinct (filter IsExported (concat (map dv_Names (concat (map ty_Consts (dp_Types d)) @ dp_Consts d)))) \<and>
     distinct (filter IsExported (concat (map dv_Names (dp_Vars d))))"

lemma distinct_first_names: "distinct (concat (map g vs)) \<Longrightarrow> (\<And>v. v \<in> set vs \<Longrightarrow> g v \<noteq> []) \<Longrightarrow> distinct (map (\<lambda>v. g v ! 0) vs)"
proof (induction vs)
  case (Cons v vs)
  have "g v ! 0 \<in> set (g v)" using Cons.prems(2) by simp
  moreover have "g w ! 0 \<in> set (concat (map g vs))" if "w \<in> set vs" for w
  proof -
    have "g w ! 0 \<in> set (g w)" using Cons.prems(2) [of w] that by simp
    with that show ?thesis by auto
  qed
  ultimately have "g v ! 0 \<noteq> g w ! 0" if "w \<in> set vs" for w using Cons.prems(1) that by auto
  with Cons show ?case by auto
qed simp

lemma mset_concat_map: "mset xs = mset ys \<Longrightarrow> mset (concat (map f xs)) = mset (concat (map f ys))"
  by (simp add: mset_concat flip: sum_mset_sum_list)

lemma sort_values_perm:
  assumes "mset vs = mset ws" "distinct (filter IsExported (concat (map dv_Names vs)))"
  shows "sort_values (value_entries files vs) = sort_values (value_entries files ws)"
  unfolding sort_values_def
proof (rule sort_key_perm)
  show "mset (value_entries files vs) = mset (value_entries files ws)"
    unfolding value_entries_def by (rule mset_concat_map [OF assms(1)])
  show "distinct (map (\<lambda>v. ve_Names v ! 0) (value_entries files vs))"
    by (rule distinct_first_names) (use assms(2) value_entries_nonempty in \<open>auto simp: value_entries_names\<close>)
qed

lemma sort_types_perm:
  assumes "mset ts = mset us" "distinct (filter IsExported (map ty_Name ts))"
  shows "sortByName (map (type_entry files) (filter P (filter Q (filter (\<lambda>t. IsExported (ty_Name t)) ts)))) =
    sortByName (map (type_entry files) (filter P (filter Q (filter (\<lambda>t. IsExported (ty_Name t)) us))))"
  unfolding sortByName_def
proof (rule sort_key_perm)
  show "distinct (map te_Name (map (type_entry files) (filter P (filter Q (filter (\<lambda>t. IsExported (ty_Name t)) ts)))))"
    using assms(2) by (simp add: filter_map_names comp_def distinct_map_filter del: filter_filter)
qed (simp add: assms(1))

lemma pkg_entries_reordered:
  assumes re: "reordered d d'" and un: "unique_names d"
  shows "pkg_entries files n path d' = pkg_entries files n path d"
proof -
  have types: "mset (dp_Types d) = mset (dp_Types d')" "distinct (filter IsExported (map ty_Name (dp_Types d)))"
    using re un by (simp_all add: reordered_def unique_names_def)
  note ifaces = sort_types_perm [OF types, of files "\<lambda>t. True"] and others = sort_types_perm [OF types, of files]
  have vars: "sort_values (value_entries files (dp_Vars d)) = sort_values (value_entries files (dp_Vars d'))"
    and cvals: "sort_values (value_entries files (concat (map ty_Consts (dp_Types d)) @ dp_Consts d)) =
      sort_values (value_entries files (concat (map ty_Consts (dp_Types d')) @ dp_Consts d'))"
    by (rule sort_values_perm; use re un mset_concat_map [OF types(1), of ty_Consts] in \<open>simp add: reordered_def unique_names_def\<close>)+
  let ?fs = "\<lambda>d. filter (\<lambda>f. IsExported (df_Name f)) (dp_Funcs d)"
    and ?gs = "\<lambda>d. filter (\<lambda>f. IsExported (df_Name f)) (concat (map ty_Funcs (dp_Types d)))"
  have eq: "mset (?fs d) = mset (?fs d')" "mset (?gs d) = mset (?gs d')"
    using re mset_concat_map [OF types(1), of ty_Funcs] by (simp_all add: reordered_def del: filter_concat)
  have "distinct (map df_Name (?fs d @ ?gs d))" using un by (simp add: unique_names_def filter_map_names del: filter_concat)
  then have dist: "distinct (map df_Name (filter P (?fs d) @ filter Q (?gs d)))" for P Q
    by (auto simp: distinct_map_filter simp del: filter_filter filter_concat)
  have funcs: "sort_key fe_Name (map (func_entry files) (filter P (?fs d) @ filter Q (?gs d))) =
      sort_key fe_Name (map (func_entry files) (filter P (?fs d') @ filter Q (?gs d')))" for P Q
  proof (rule sort_key_perm)
    show "distinct (map fe_Name (map (func_entry files) (filter P (?fs d) @ filter Q (?gs d))))"
      using dist [of P Q] by (simp add: comp_def del: filter_filter filter_concat)
    show "mset (map (func_entry files) (filter P (?fs d) @ filter Q (?gs d))) = mset (map (func_entry files) (filter P (?fs d') @ filter Q (?gs d')))"
      using eq by (simp del: filter_filter filter_concat)
  qed
  have "dp_Doc d' = dp_Doc d" using re by (simp add: reordered_def)
  then show ?thesis unfolding pkg_entries_def Let_def using ifaces others funcs cvals vars by simp
qed

text \<open>
  The text is determined by the declarations. In whatever order the parser delivers the
  declarations of a package, and although a sort that is not stable arranges them, the
  written section is the same, because no exported name is declared twice.
\<close>

theorem api_doc_order_independent:
  assumes "reordered d d'" "unique_names d"
  shows "writePackage (pkg_entries files n path d') = writePackage (pkg_entries files n path d)"
  by (simp add: pkg_entries_reordered [OF assms])

section \<open>The other parts\<close>

text \<open>The text of a node is inside its file, so the slice expression never panics.\<close>

lemma nodeText_in_file:
  assumes "nodeText files nd \<noteq> []"
  shows "\<exists>data pre post. files (nd_file nd) = Some data \<and> data = pre @ nodeText files nd @ post \<and> int (length pre) = nd_start nd \<and>
    int (length pre + length (nodeText files nd)) = nd_end nd"
proof -
  obtain data where data: "files (nd_file nd) = Some data" using assms by (auto simp: nodeText_def split: option.splits)
  with assms have r: "0 \<le> nd_start nd" "nd_start nd < nd_end nd" "nd_end nd \<le> int (length data)"
    "nodeText files nd = take (nat (nd_end nd - nd_start nd)) (drop (nat (nd_start nd)) data)"
    by (auto simp: nodeText_def split: if_splits)
  have "data = take (nat (nd_start nd)) data @ nodeText files nd @ drop (nat (nd_end nd)) data"
    using r by (simp add: nat_diff_distrib) (metis append_take_drop_id drop_drop le_add_diff_inverse2 nat_mono less_imp_le)
  moreover have "int (length (take (nat (nd_start nd)) data)) = nd_start nd" "int (length (nodeText files nd)) = nd_end nd - nd_start nd"
    using r by simp_all
  ultimately show ?thesis using data by (metis add.commute add_diff_cancel diff_add_cancel of_nat_add)
qed

text \<open>The lines of a comment are all of it.\<close>

lemma split_nonempty: "split_at c s \<noteq> []"
  by (induction s) (auto split: list.splits)

lemma join_split: "join_with [c] (split_at c s) = s"
proof (induction s)
  case (Cons x s)
  obtain l ls where "split_at c s = l # ls" using split_nonempty [of c s] by (cases "split_at c s") auto
  with Cons show ?case by (cases ls) auto
qed simp

text \<open>\<^verbatim>\<open>findRepoRoot\<close> ends, and finds the nearest directory upwards that has the file.\<close>

lemma findRepoRoot_nearest:
  "findRepoRoot stat dir = Some r \<longleftrightarrow> prefix r dir \<and> stat r \<and> (\<forall>q. prefix q dir \<and> stat q \<longrightarrow> prefix q r)"
proof (induction dir rule: rev_induct)
  case Nil
  then show ?case by (auto simp: findRepoRoot.simps [of stat "[]"])
next
  case (snoc x dir)
  show ?case
  proof (cases "stat (dir @ [x])")
    case True
    then show ?thesis by (auto simp: findRepoRoot.simps [of stat "dir @ [x]"] intro: prefix_order.antisym)
  next
    case False
    then have "findRepoRoot stat (dir @ [x]) = findRepoRoot stat dir" by (simp add: findRepoRoot.simps [of stat "dir @ [x]"])
    with snoc False show ?thesis by (auto simp: prefix_snoc)
  qed
qed

text \<open>A file is written exactly when both packages were read, and holds the title and their two sections.\<close>

lemma gen_main_wrote:
  assumes "gen_main env = Wrote out text"
  shows "\<exists>root pd1 pd2. findRepoRoot (en_go_mod env) (en_cwd env) = Some root \<and>
    parsePackage (en_files env) (en_readDir env) (en_parse env) (en_docNew env) (path_text root) ''taskrunner'' = GenDone pd1 \<and>
    parsePackage (en_files env) (en_readDir env) (en_parse env) (en_docNew env) (path_text (root @ [''core''])) ''core'' = GenDone pd2 \<and>
    text = gen_title @ writePackage pd1 @ writePackage pd2"
  using assms by (auto simp: gen_main_def join_dir_def split: list.splits option.splits gen_run.splits)

end
