(* ===== verification/Spec2Isabelle.thy ===== *)
theory Spec2Isabelle
  imports Thread_Pool Sequenced_Runner Single_Thread_Runner Parallel_Runner Task_And_Reply Repeating_Task
    Delayed_Runner Timer_Runner Parallel_Wait Metrics_Exporter Event_Bus Sqlite_Store Job_Manager_Props Api_Doc
begin

text \<open>
  A verification of the Go library \<^verbatim>\<open>go-task-runner\<close>: task queues, a scheduler with a goroutine pool,
  three kinds of task runners over it, an event bus and a job manager with persistent stores.

  \<^bold>\<open>The program.\<close> A caller posts closures to a runner. A sequenced runner
  (\<^verbatim>\<open>core/sequenced_task_runner.go\<close>) and a parallel runner (\<^verbatim>\<open>core/parallel_task_runner.go\<close>) post a closure
  of their own to a pool (\<^verbatim>\<open>pool.go\<close>), whose workers fetch work from a scheduler
  (\<^verbatim>\<open>core/task_scheduler.go\<close>), which keeps it in a FIFO or a priority queue (\<^verbatim>\<open>core/queue.go\<close>) and delayed
  work in a delay manager (\<^verbatim>\<open>core/delay_manager.go\<close>). A single-thread runner
  (\<^verbatim>\<open>core/single_thread_task_runner.go\<close>) has a goroutine and a channel of its own. Task-and-reply
  (\<^verbatim>\<open>core/task_and_reply.go\<close>), repeating tasks, the event bus (\<^verbatim>\<open>eventbus/eventbus.go\<close>) and the job
  manager (\<^verbatim>\<open>job/job_manager.go\<close>, with its stores, serializer and retry policy) use runners only by
  posting to them.

  \<^bold>\<open>How programs are modelled.\<close> A struct is a record, an operation a function on it, an error or a
  panic a value of a sum or option type or a flag of the result. Code that several goroutines execute
  is split at its atomic points (atomic operations, critical sections, channel operations, calls into
  another component); each goroutine is a program counter, a system step is one move of one goroutine
  or one call from outside, and the behaviours of the program are all interleavings. A system is a
  function from a label and a state to the next state, if the move is possible, so concrete runs
  evaluate. Prelude holds the closure of such a relation (\<^verbatim>\<open>reach\<close>), its evaluation on a list
  of labels (\<^verbatim>\<open>run\<close>), and the locale \<^verbatim>\<open>inv_system\<close>, in which an inductive invariant is carried
  to every reachable state; each system interprets it on its step function and its invariant.
  The 64-bit sequence number of the priority queue is a word, since it can wrap; counters of goroutines
  and of queued tasks are unbounded, and the one of the parallel runner is proved to fit its int32. Time is an integer number of nanoseconds. User tasks, handlers and metadata values are
  opaque type variables.

  \<^bold>\<open>Theories.\<close>
  \<^item> Prelude: reachability, runs, invariants, weights of lists of program counters, lemmas on lists.
  \<^item> Go_Heap: \<^verbatim>\<open>container/heap\<close> of the standard library (\<^verbatim>\<open>Push\<close>, \<^verbatim>\<open>Pop\<close>, \<^verbatim>\<open>Init\<close>) over a list with
    the caller's \<^verbatim>\<open>Less\<close> and an index update for \<^verbatim>\<open>Swap\<close>; the heap property and the multiset of the
    elements are preserved, and the root is minimal.
  \<^item> Core_Task: identifiers, priorities, traits and queue items of \<^verbatim>\<open>core/task.go\<close>; the configuration
    of \<^verbatim>\<open>core/interfaces.go\<close>.
  \<^item> Task_Queue_Spec: the contract of a task queue as a locale over an abstract list, with the lemmas
    clients use; Fifo_Queue and Priority_Queue interpret it. Fifo_Queue works on an explicit memory
    of backing arrays, so that a batch that still shares its array with the queue is visible;
    the growth of \<^verbatim>\<open>append\<close> is an argument. Priority_Queue refines a list that is stably sorted by
    priority, as long as the sequence number has not wrapped.
  \<^item> Delay_Manager: the heap of delayed tasks, its operations, and the goroutine interleaved with
    callers and the clock. Nothing is posted early, lost or posted twice, and what is due gets posted.
  \<^item> Task_Scheduler and Thread_Pool: the scheduler split at its atomic points, and the pool with its
    workers, posters and stoppers. Tasks are conserved, counters are exact until a shutdown clears
    the queue, and a queued task gets executed; two races of the shutdown are exhibited.
  \<^item> Sequenced_Runner: posting, the run loop, \<^verbatim>\<open>Shutdown\<close>. One task at a time, in the order of
    acceptance, none forgotten; barriers see the end of what was accepted before them.
  \<^item> Single_Thread_Runner: the bounded channel with its queue policies, the goroutine, \<^verbatim>\<open>Shutdown\<close>, \<^verbatim>\<open>Stop\<close>.
  \<^item> Serial_Spec and Serial_Runner: the serial runner as an abstract machine, the locale \<^verbatim>\<open>simulation\<close>, and
    the proof that the sequenced and the single-thread runner implement it, step by step.
  \<^item> Runner_Wait and Wait_Runners: \<^verbatim>\<open>WaitIdle\<close>, \<^verbatim>\<open>FlushAsync\<close> and \<^verbatim>\<open>WaitShutdown\<close> as goroutines beside a runner, over
    the locale \<^verbatim>\<open>waitable\<close>, which both runners interpret; when \<^verbatim>\<open>WaitIdle\<close> returns nil the earlier tasks
    have run, and a shutdown can leave it blocked.
  \<^item> Delayed_Runner: \<^verbatim>\<open>PostDelayedTask\<close>, the delay manager and any number of sequenced runners composed; no
    task begins before its time.
  \<^item> Parallel_Runner: the scheduling goroutine, workers and barriers. The limit on concurrency, the order
    in which tasks reach the pool, what a barrier waits for, and what \<^verbatim>\<open>FlushAsync\<close> does not prevent.
  \<^item> Parallel_Wait: \<^verbatim>\<open>WaitIdle\<close>, \<^verbatim>\<open>FlushAsync\<close> and \<^verbatim>\<open>WaitShutdown\<close> of the parallel runner, whose barrier passes through
    the internal scheduler; when \<^verbatim>\<open>WaitIdle\<close> returns nil, what was posted before has run.
  \<^item> Timer_Runner: delayed tasks of the parallel runner, and the timers of the single-thread runner with a clock.
  \<^item> Task_And_Reply: closures are a datatype and posting records them, so that running a posted
    closure is a function; the reply is posted exactly when the task returned, with its result.
    The functions of \<^verbatim>\<open>reply.go\<close> forward to these.
  \<^item> Repeating_Task: the handle and the closure that posts itself again, for the three runners.
  \<^item> Task_Observability: the context of a task, the reports of queue depths and panics in the three runners and
    the pool, and the texts of the default handlers. \<^verbatim>\<open>runLoop\<close> is a function here, which contains every
    panic and computes what the steps of Sequenced_Runner compute when nothing interrupts them.
  \<^item> Metrics_Exporter: the Prometheus exporter over an arbitrary \<^verbatim>\<open>client_golang\<close>; exporters for one namespace
    and registry share their collectors.
  \<^item> Event_Bus: the closures that the bus posts to its sequenced runner, with callers interleaved.
  \<^item> Job_Store and Sqlite_Store: \<^verbatim>\<open>job/job_store.go\<close> and \<^verbatim>\<open>job/sqlite/sqlite_job_store.go\<close> with the
    statements of \<^verbatim>\<open>job/db/queries.sql.go\<close>. The locale \<^verbatim>\<open>job_store\<close> states what a store promises; the
    memory store interprets it, and the SQLite store through a sublocale of \<^verbatim>\<open>sqlite_driver\<close>. The
    two stores return the same results for every sequence of operations.
  \<^item> Job_Retry: the lines of the logger, the serializer, the retry policies and the retry loop, a
    function whose measure is the number of attempts left.
  \<^item> Job_Manager: the manager with its control, I/O and execution runners and its callers; Job_Manager_Inv
    its invariants, part by part; Job_Manager_Values what the posted closures carry; Job_Manager_Status where a
    job is between its submission and its final update; Job_Manager_Props the properties: an acknowledged job is
    stored, no job is executed twice when recovery comes first, statuses never go back and are
    always valid; runs show what the manager allows.

  \<^item> Api_Doc: the script that writes the API reference (\<^verbatim>\<open>scripts/gen-api-doc.go\<close>), on what \<^verbatim>\<open>go/doc\<close> delivers: every
    exported name is documented once, and the text does not depend on the order of the declarations.

  \<^bold>\<open>Arguments that stand for what is not in the sources.\<close> The growth of a slice on \<^verbatim>\<open>append\<close>; the UUID of a
  task; the order of a \<^verbatim>\<open>Range\<close> over a \<^verbatim>\<open>sync.Map\<close> and of a table scan without a complete \<^verbatim>\<open>ORDER BY\<close> (any
  permutation); failures of the database driver, the order on stored time stamps and the result
  code of a violated primary key (any code whose low byte is \<^verbatim>\<open>SQLITE_CONSTRAINT\<close>); the operations of
  \<^verbatim>\<open>float64\<close> in the retry delay; the JSON encoder and decoder; the package \<^verbatim>\<open>client_golang\<close>; what
  \<^verbatim>\<open>go/parser\<close> and \<^verbatim>\<open>go/doc\<close> deliver for a directory; the type of an event, which the code
  finds by reflection. The witnesses instantiate each of them.

  \<^bold>\<open>Choices and bounds.\<close> No definition uses fuel: loops are structural, have a measure, or are
  the steps of a system. The number of workers, posters, callers and contexts is not bounded. The
  job manager is modelled over the memory store with failing attempts and over control and I/O
  runners that run one closure at a time in the order of posting, which is what the sequenced and
  the single-thread runner provide (Serial_Runner); its
  configuration is fixed while operations run. Memory is sequentially consistent, which Go guarantees
  for programs whose shared accesses are atomic or under a lock.

  \<^bold>\<open>Not modelled.\<close> The output of texts once they are built; the examples and the
  templates under \<^verbatim>\<open>skills\<close>, which only call the library. Stack traces and measured
  durations in the reports. Generated glue that only holds a database handle. The second
  copy of the SQLite store in \<^verbatim>\<open>job/sqlite_job_store.go\<close> and of its statements in \<^verbatim>\<open>job/sqlite/db\<close>, which is
  the same code. A \<^verbatim>\<open>runtime.Goexit\<close> of a task. Restarting a
  stopped pool, whose scheduler rejects every later post.
\<close>

end
